theory Spec2Isabelle
  imports Main "HOL-Library.Multiset"
begin

section \<open>Strings\<close>

text \<open>
  Python strings are modelled as \<^typ>\<open>string\<close>. The case mapping of \<open>str.lower\<close> and
  the character class \<open>[a-zA-Z0-9]\<close> are modelled on ASCII letters and digits: the lines
  read from the text files are taken to be ASCII (\<open>str.lower\<close> also lowers capitals outside
  ASCII, \<open>lower\<close> leaves them).
\<close>

definition ascii_lowercase :: string where
  "ascii_lowercase = ''abcdefghijklmnopqrstuvwxyz''"

definition ascii_uppercase :: string where
  "ascii_uppercase = ''ABCDEFGHIJKLMNOPQRSTUVWXYZ''"

definition digits :: string where
  "digits = ''0123456789''"

definition is_alnum :: "char \<Rightarrow> bool" where
  "is_alnum c = (c \<in> set (ascii_lowercase @ ascii_uppercase @ digits))"

definition lower_char :: "char \<Rightarrow> char" where
  "lower_char c = (case map_of (zip ascii_uppercase ascii_lowercase) c of Some l \<Rightarrow> l | None \<Rightarrow> c)"

definition lower :: "string \<Rightarrow> string" where
  "lower s = map lower_char s"

text \<open>\<open>re.sub(r"[^a-zA-Z0-9]+", "-", s)\<close>: every maximal run of other characters becomes one dash.\<close>

function re_sub_dash :: "string \<Rightarrow> string" where
  "re_sub_dash [] = []"
| "re_sub_dash (c # cs) =
     (if is_alnum c then c # re_sub_dash cs
      else CHR ''-'' # re_sub_dash (dropWhile (\<lambda>x. \<not> is_alnum x) cs))"
  by pat_completeness auto
termination
  by (relation "measure length") (auto simp: length_dropWhile_le less_Suc_eq_le)

text \<open>\<open>str(n)\<close> for a natural number.\<close>

definition digit_char :: "nat \<Rightarrow> char" where
  "digit_char d = digits ! (d mod 10)"

function str_nat :: "nat \<Rightarrow> string" where
  "str_nat n = (if n < 10 then [digit_char n] else str_nat (n div 10) @ [digit_char (n mod 10)])"
  by pat_completeness auto
termination
  by (relation "measure id") auto

declare str_nat.simps [simp del]

text \<open>Formatting an optional string with \<open>{}\<close>: \<open>None\<close> prints as \<open>None\<close>.\<close>

definition fmt_opt :: "string option \<Rightarrow> string" where
  "fmt_opt s = (case s of None \<Rightarrow> ''None'' | Some t \<Rightarrow> t)"

section \<open>The random source\<close>

text \<open>
  All randomness comes from one shared source. It is modelled by the list of the raw draws
  it delivers, consumed from the front; a call that needs a draw when none is left has not
  returned, which is the value \<open>None\<close>. \<open>randbelow n\<close> is a number below \<open>n\<close>;
  \<open>random.choice([True, False])\<close> is \<open>True\<close> at index 0.
\<close>

type_synonym rand = "nat list"

fun randbelow :: "nat \<Rightarrow> rand \<Rightarrow> (nat \<times> rand) option" where
  "randbelow n [] = None"
| "randbelow n (d # rs) = Some (d mod n, rs)"

definition coin :: "nat \<Rightarrow> bool" where
  "coin d = (d mod 2 = 0)"

fun choice_bool :: "rand \<Rightarrow> (bool \<times> rand) option" where
  "choice_bool [] = None"
| "choice_bool (d # rs) = Some (coin d, rs)"

text \<open>
  \<open>random.shuffle(x)\<close>: for \<open>i\<close> from \<open>len(x) - 1\<close> down to 1, swap \<open>x[i]\<close> with
  \<open>x[randbelow(i + 1)]\<close>.
\<close>

fun shuffle_loop :: "nat \<Rightarrow> 'a list \<Rightarrow> rand \<Rightarrow> ('a list \<times> rand) option" where
  "shuffle_loop 0 xs rs = Some (xs, rs)"
| "shuffle_loop (Suc i) xs rs =
     (case randbelow (Suc (Suc i)) rs of None \<Rightarrow> None
      | Some (j, rs') \<Rightarrow> shuffle_loop i (xs[Suc i := xs ! j, j := xs ! Suc i]) rs')"

definition shuffle :: "'a list \<Rightarrow> rand \<Rightarrow> ('a list \<times> rand) option" where
  "shuffle xs rs = shuffle_loop (length xs - 1) xs rs"

text \<open>\<open>xs.pop(i)\<close> for an index in range: the element and the list without it.\<close>

definition pop_at :: "nat \<Rightarrow> 'a list \<Rightarrow> 'a \<times> 'a list" where
  "pop_at i xs = (xs ! i, take i xs @ drop (Suc i) xs)"

section \<open>Data model\<close>

datatype error = AssertionError string | KeyError string | ValueError | TypeError | AttributeError

datatype movable_type = Book | Pen | Food | Kitchenware | Phone

datatype stationary_type = Table | Shelf | Fridge | Sink | Window | Light | TV

datatype room_type = Kitchen | LivingRoom | Bedroom

text \<open>\<open>get_type_name\<close> is the lower-cased class name.\<close>

fun movable_type_name :: "movable_type \<Rightarrow> string" where
  "movable_type_name Book = ''book''"
| "movable_type_name Pen = ''pen''"
| "movable_type_name Food = ''food''"
| "movable_type_name Kitchenware = ''kitchenware''"
| "movable_type_name Phone = ''phone''"

fun stationary_type_name :: "stationary_type \<Rightarrow> string" where
  "stationary_type_name Table = ''table''"
| "stationary_type_name Shelf = ''shelf''"
| "stationary_type_name Fridge = ''fridge''"
| "stationary_type_name Sink = ''sink''"
| "stationary_type_name Window = ''window''"
| "stationary_type_name Light = ''light''"
| "stationary_type_name TV = ''tv''"

fun room_type_name :: "room_type \<Rightarrow> string" where
  "room_type_name Kitchen = ''kitchen''"
| "room_type_name LivingRoom = ''livingroom''"
| "room_type_name Bedroom = ''bedroom''"

text \<open>
  A stationary item reads its parent room only for the class, the name and the symbol, which
  never change after the room is constructed; the model stores these three by value.
\<close>

record room_ident =
  room_class :: room_type
  room_name :: string
  room_pddl_name :: string

record room_item =
  name :: string
  pddl_name :: string

record stationary_item = room_item +
  parent :: room_ident

record shelf = stationary_item +
  levels :: nat

record sink = stationary_item +
  faucet_on :: bool

record window = stationary_item +
  window_open :: bool

record light = stationary_item +
  light_on :: bool

record channel =
  channel_name :: string
  channel_pddl_name :: string

record tv = stationary_item +
  tv_on :: bool
  curr_channel :: channel

text \<open>\<open>StationaryItem.__init__\<close> derives the symbol from the parent's symbol and the name.\<close>

definition StationaryItem_pddl_name :: "string \<Rightarrow> room_ident \<Rightarrow> string" where
  "StationaryItem_pddl_name nm p = room_pddl_name p @ ''-'' @ lower (re_sub_dash nm)"

definition get_full_name_with_room :: "'a stationary_item_scheme \<Rightarrow> string" where
  "get_full_name_with_room s = name s @ '' in '' @ room_name (parent s)"

definition get_in_room_predicate :: "room_type \<Rightarrow> string \<Rightarrow> string \<Rightarrow> string" where
  "get_in_room_predicate cls room_param container_param =
     (''in-'' @ room_type_name cls) @ '' '' @ room_param @ '' '' @ container_param"

definition StationaryItem_get_init_conditions :: "'a stationary_item_scheme \<Rightarrow> string list" where
  "StationaryItem_get_init_conditions s =
     [get_in_room_predicate (room_class (parent s)) (room_pddl_name (parent s)) (pddl_name s)]"

subsection \<open>Light\<close>

definition Light_perform_action :: "light \<Rightarrow> string \<times> light" where
  "Light_perform_action l =
     (let l' = l\<lparr>light_on := \<not> light_on l\<rparr>
      in (''I turned '' @ (if light_on l' then ''on'' else ''off'') @ '' the ''
            @ get_full_name_with_room l' @ ''.'', l'))"

definition Light_get_special_init_conditions :: "light \<Rightarrow> string list" where
  "Light_get_special_init_conditions l =
     (if light_on l then [''light-on '' @ pddl_name l] else [])"

subsection \<open>TV\<close>

definition Channel :: "string \<Rightarrow> channel" where
  "Channel nm = \<lparr>channel_name = nm, channel_pddl_name = lower (re_sub_dash nm)\<rparr>"

definition CHANNELS :: "channel list" where
  "CHANNELS = [Channel ''the Discovery Channel'', Channel ''Cartoon Network'', Channel ''NBC'',
               Channel ''CNN'', Channel ''Fox News'', Channel ''ESPN'']"

definition CHANNEL_OBJECTS :: "string list" where
  "CHANNEL_OBJECTS = map (\<lambda>c. channel_pddl_name c @ '' - '' @ ''channel'') CHANNELS"

text \<open>\<open>random.choice(TV.CHANNELS)\<close>.\<close>

definition choice_channel :: "rand \<Rightarrow> (channel \<times> rand) option" where
  "choice_channel rs =
     (case randbelow (length CHANNELS) rs of None \<Rightarrow> None
      | Some (i, rs') \<Rightarrow> Some (CHANNELS ! i, rs'))"

definition TV_perform_action :: "tv \<Rightarrow> rand \<Rightarrow> (string \<times> tv \<times> rand) option" where
  "TV_perform_action t rs =
     (if tv_on t then
        (case choice_bool rs of None \<Rightarrow> None
         | Some (keep, rs1) \<Rightarrow>
             if keep then
               (case choice_channel rs1 of None \<Rightarrow> None
                | Some (c, rs2) \<Rightarrow>
                    Some (''I switched the channel of the TV in '' @ room_name (parent t)
                            @ '' to '' @ channel_name c @ ''.'',
                          t\<lparr>curr_channel := c\<rparr>, rs2))
             else Some (''I turned off the TV in '' @ room_name (parent t) @ ''.'',
                        t\<lparr>tv_on := False\<rparr>, rs1))
      else
        (case choice_channel rs of None \<Rightarrow> None
         | Some (c, rs1) \<Rightarrow>
             Some (''I turned on the TV in '' @ room_name (parent t) @ '' and set it to ''
                     @ channel_name c @ ''.'',
                   t\<lparr>tv_on := True, curr_channel := c\<rparr>, rs1)))"

definition TV_get_special_init_conditions :: "tv \<Rightarrow> string list" where
  "TV_get_special_init_conditions t =
     (if tv_on t
      then [''tv-on '' @ pddl_name t,
            ''tv-playing-channel '' @ pddl_name t @ '' '' @ channel_pddl_name (curr_channel t)]
      else [])"

definition TV_get_init_conditions :: "tv \<Rightarrow> string list" where
  "TV_get_init_conditions t = StationaryItem_get_init_conditions t @ TV_get_special_init_conditions t"

definition Light_get_init_conditions :: "light \<Rightarrow> string list" where
  "Light_get_init_conditions l =
     StationaryItem_get_init_conditions l @ Light_get_special_init_conditions l"

subsection \<open>Window\<close>

definition Window_perform_action :: "window \<Rightarrow> string \<times> window" where
  "Window_perform_action x =
     (let x' = x\<lparr>window_open := \<not> window_open x\<rparr>
      in (''I '' @ (if window_open x' then ''opened'' else ''closed'') @ '' the blinds of the ''
            @ get_full_name_with_room x' @ ''.'', x'))"

definition Window_get_special_init_conditions :: "window \<Rightarrow> string list" where
  "Window_get_special_init_conditions x =
     (if window_open x then [''window-open '' @ pddl_name x] else [])"

definition Window_get_init_conditions :: "window \<Rightarrow> string list" where
  "Window_get_init_conditions x =
     StationaryItem_get_init_conditions x @ Window_get_special_init_conditions x"

subsection \<open>Sink\<close>

definition Sink_interact :: "sink \<Rightarrow> string \<times> sink" where
  "Sink_interact s =
     (let s' = s\<lparr>faucet_on := \<not> faucet_on s\<rparr>
      in (''I turned '' @ (if faucet_on s' then ''on'' else ''off'') @ '' the faucet of the ''
            @ get_full_name_with_room s' @ ''.'', s'))"

definition Sink_get_special_init_conditions :: "sink \<Rightarrow> string list" where
  "Sink_get_special_init_conditions s =
     (if faucet_on s then [''faucet-on '' @ pddl_name s] else [])"

definition Sink_get_init_conditions :: "sink \<Rightarrow> string list" where
  "Sink_get_init_conditions s =
     StationaryItem_get_init_conditions s @ Sink_get_special_init_conditions s"

subsection \<open>Shelf\<close>

definition MIN_LEVELS :: nat where
  "MIN_LEVELS = 3"

definition MAX_LEVELS :: nat where
  "MAX_LEVELS = 10"

definition get_level_name :: "nat \<Rightarrow> string" where
  "get_level_name level = ''level-'' @ str_nat level"

definition LEVEL_OBJECTS :: "string list" where
  "LEVEL_OBJECTS = map (\<lambda>i. get_level_name (i + 1) @ '' - '' @ ''level'') [0..<MAX_LEVELS]"

definition integer_to_ordinal :: "nat \<Rightarrow> string" where
  "integer_to_ordinal number =
     (if number mod 100 \<in> set [11, 12, 13] then str_nat number @ ''th''
      else if number mod 10 = 1 then str_nat number @ ''st''
      else if number mod 10 = 2 then str_nat number @ ''nd''
      else if number mod 10 = 3 then str_nat number @ ''rd''
      else str_nat number @ ''th'')"

definition Shelf_get_init_conditions :: "shelf \<Rightarrow> string list" where
  "Shelf_get_init_conditions s =
     StationaryItem_get_init_conditions s
     @ map (\<lambda>i. ''shelf-has-level '' @ pddl_name s @ '' '' @ get_level_name (i + 1)) [0..<levels s]"

subsection \<open>Objects, the person, rooms, the world\<close>

text \<open>
  Objects live in two stores, one for stationary and one for movable items; a reference is
  an address in its store. Every address holds an object (Python has no dangling
  reference); the lists of the rooms and of the generator say which objects are in play.
\<close>

datatype stationary =
    TableObj stationary_item
  | ShelfObj shelf
  | FridgeObj stationary_item
  | SinkObj sink
  | WindowObj window
  | LightObj light
  | TVObj tv

fun type_of :: "stationary \<Rightarrow> stationary_type" where
  "type_of (TableObj x) = Table"
| "type_of (ShelfObj x) = Shelf"
| "type_of (FridgeObj x) = Fridge"
| "type_of (SinkObj x) = Sink"
| "type_of (WindowObj x) = Window"
| "type_of (LightObj x) = Light"
| "type_of (TVObj x) = TV"

definition base :: "'a stationary_item_scheme \<Rightarrow> stationary_item" where
  "base x = \<lparr>name = name x, pddl_name = pddl_name x, parent = parent x\<rparr>"

fun stationary_base :: "stationary \<Rightarrow> stationary_item" where
  "stationary_base (TableObj x) = base x"
| "stationary_base (ShelfObj x) = base x"
| "stationary_base (FridgeObj x) = base x"
| "stationary_base (SinkObj x) = base x"
| "stationary_base (WindowObj x) = base x"
| "stationary_base (LightObj x) = base x"
| "stationary_base (TVObj x) = base x"

fun is_container :: "stationary_type \<Rightarrow> bool" where
  "is_container Table = True"
| "is_container Shelf = True"
| "is_container Fridge = True"
| "is_container Sink = True"
| "is_container t = False"

text \<open>\<open>can_hold\<close> of the four container classes (the other classes do not have it).\<close>

fun can_hold :: "stationary_type \<Rightarrow> movable_type \<Rightarrow> bool" where
  "can_hold Table item_type = True"
| "can_hold Shelf item_type = True"
| "can_hold Fridge item_type = (item_type = Food)"
| "can_hold Sink item_type = (item_type = Kitchenware)"
| "can_hold t item_type = False"

datatype pyval = PyInt int | PyStr string

text \<open>
  \<open>ringing\<close> is the field of \<open>Phone\<close>; the other movable classes do not read it.
  \<open>movable_class\<close> is the class of the object.
\<close>

record movable_item = room_item +
  movable_class :: movable_type
  shortened_name :: string
  container :: "nat option"
  relative_location :: "string option"
  extra_location_info :: "string \<rightharpoonup> pyval"
  use_default_article :: bool
  ringing :: bool

record person =
  item :: "nat option"
  person_pddl_name :: string

definition Person :: person where
  "Person = \<lparr>item = None, person_pddl_name = ''me''\<rparr>"

record room = room_ident +
  items :: "nat list"

definition ident :: "'a room_ident_scheme \<Rightarrow> room_ident" where
  "ident r = \<lparr>room_class = room_class r, room_name = room_name r, room_pddl_name = room_pddl_name r\<rparr>"

text \<open>The fields of the generator that the simulation reads, with the two object stores.\<close>

record world =
  rooms :: "room list"
  person :: person
  movable_items :: "nat list"
  movables :: "nat \<Rightarrow> movable_item"
  stationaries :: "nat \<Rightarrow> stationary"

section \<open>Actions\<close>

type_synonym 'a run = "(error + 'a) option"

text \<open>
  \<open>generate_relative_location\<close> of a container; the shelf draws a level with
  \<open>random.randrange(self.levels) + 1\<close>, which raises on an empty range.
\<close>

fun generate_relative_location :: "stationary \<Rightarrow> rand \<Rightarrow> (string \<times> (string \<rightharpoonup> pyval) \<times> rand) run" where
  "generate_relative_location (TableObj x) rs = Some (Inr (''on'', Map.empty, rs))"
| "generate_relative_location (FridgeObj x) rs = Some (Inr (''inside'', Map.empty, rs))"
| "generate_relative_location (SinkObj x) rs = Some (Inr (''in'', Map.empty, rs))"
| "generate_relative_location (ShelfObj s) rs =
     (if levels s = 0 then Some (Inl ValueError)
      else case randbelow (levels s) rs of None \<Rightarrow> None
        | Some (i, rs') \<Rightarrow>
            let level = i + 1
            in Some (Inr (''on the '' @ integer_to_ordinal level @ '' level of'',
                 [''level'' \<mapsto> PyInt (int level), ''pddl_level'' \<mapsto> PyStr (get_level_name level)],
                 rs')))"
| "generate_relative_location x rs = Some (Inl AttributeError)"

text \<open>\<open>MovableItem.perform_action\<close>: pick the item up when the hand is empty.\<close>

definition MovableItem_perform_action :: "nat \<Rightarrow> world \<Rightarrow> error + (string option \<times> world)" where
  "MovableItem_perform_action r w =
     (if item (person w) \<noteq> None then Inr (None, w)
      else case container (movables w r) of
          None \<Rightarrow> Inl (AssertionError ''self.container is not None'')
        | Some c \<Rightarrow>
            let self = movables w r;
                action = ''I picked up '' @ (if use_default_article self then ''the '' else '''')
                   @ shortened_name self @ '' '' @ fmt_opt (relative_location self) @ '' the ''
                   @ get_full_name_with_room (stationary_base (stationaries w c)) @ ''.''
            in Inr (Some action,
                 w\<lparr>person := (person w)\<lparr>item := Some r\<rparr>,
                   movables := (movables w)(r := self\<lparr>container := None, relative_location := None\<rparr>)\<rparr>))"

text \<open>\<open>Container.perform_action\<close>: place the held item when this container can hold it.\<close>

definition Container_perform_action :: "nat \<Rightarrow> world \<Rightarrow> rand \<Rightarrow> (string option \<times> world \<times> rand) run" where
  "Container_perform_action c w rs =
     (case item (person w) of
        None \<Rightarrow> Some (Inr (None, w, rs))
      | Some i \<Rightarrow>
          if \<not> can_hold (type_of (stationaries w c)) (movable_class (movables w i))
          then Some (Inr (None, w, rs))
          else
            (case generate_relative_location (stationaries w c) rs of
               None \<Rightarrow> None
             | Some (Inl e) \<Rightarrow> Some (Inl e)
             | Some (Inr (loc, info, rs')) \<Rightarrow>
                 let it = (movables w i)\<lparr>container := Some c, relative_location := Some loc,
                            extra_location_info := info\<rparr>
                 in Some (Inr (Some (''I placed the '' @ shortened_name it @ '' I was holding ''
                                 @ loc @ '' the ''
                                 @ get_full_name_with_room (stationary_base (stationaries w c)) @ ''.''),
                      w\<lparr>person := (person w)\<lparr>item := None\<rparr>, movables := (movables w)(i := it)\<rparr>,
                      rs'))))"

text \<open>\<open>Phone.interact\<close> and \<open>Sink.interact\<close> on the object at an address.\<close>

definition Phone_interact :: "nat \<Rightarrow> world \<Rightarrow> string \<times> world" where
  "Phone_interact r w =
     (let p = (movables w r)\<lparr>ringing := \<not> ringing (movables w r)\<rparr>
      in (shortened_name p @ '' '' @ (if ringing p then ''started'' else ''stopped'') @ '' ringing.'',
          w\<lparr>movables := (movables w)(r := p)\<rparr>))"

definition Sink_interact_at :: "nat \<Rightarrow> world \<Rightarrow> error + (string \<times> world)" where
  "Sink_interact_at c w =
     (case stationaries w c of
        SinkObj s \<Rightarrow>
          (case Sink_interact s of (a, s') \<Rightarrow>
             Inr (a, w\<lparr>stationaries := (stationaries w)(c := SinkObj s')\<rparr>))
      | _ \<Rightarrow> Inl AttributeError)"

text \<open>
  \<open>MovableInteractable.perform_action\<close> (the phone): a coin chooses between the special
  interaction and picking the item up, until one of them gives an action.
\<close>

fun MovableInteractable_perform_action :: "nat \<Rightarrow> world \<Rightarrow> rand \<Rightarrow> (string option \<times> world \<times> rand) run" where
  "MovableInteractable_perform_action r w [] = None"
| "MovableInteractable_perform_action r w (d # rs) =
     (if coin d then
        (case Phone_interact r w of (a, w') \<Rightarrow> Some (Inr (Some a, w', rs)))
      else
        (case MovableItem_perform_action r w of
           Inl e \<Rightarrow> Some (Inl e)
         | Inr (Some a, w') \<Rightarrow> Some (Inr (Some a, w', rs))
         | Inr (None, w') \<Rightarrow> MovableInteractable_perform_action r w' rs))"

text \<open>\<open>perform_action\<close> of a movable item, by its class.\<close>

definition movable_perform_action :: "nat \<Rightarrow> world \<Rightarrow> rand \<Rightarrow> (string option \<times> world \<times> rand) run" where
  "movable_perform_action r w rs =
     (if movable_class (movables w r) = Phone then MovableInteractable_perform_action r w rs
      else case MovableItem_perform_action r w of
          Inl e \<Rightarrow> Some (Inl e)
        | Inr (a, w') \<Rightarrow> Some (Inr (a, w', rs)))"

lemma Container_perform_action_None:
  "Container_perform_action c w rs = Some (Inr (None, w', rs')) \<Longrightarrow> w' = w \<and> rs' = rs"
  by (auto simp: Container_perform_action_def Let_def split: option.splits if_splits sum.splits)

text \<open>
  \<open>InteractableContainer.perform_action\<close> (the sink): a coin chooses between the special
  interaction and placing the held item, until one of them gives an action.
\<close>

function InteractableContainer_perform_action :: "nat \<Rightarrow> world \<Rightarrow> rand \<Rightarrow> (string option \<times> world \<times> rand) run" where
  "InteractableContainer_perform_action c w [] = None"
| "InteractableContainer_perform_action c w (d # rs) =
     (if coin d then
        (case Sink_interact_at c w of
           Inl e \<Rightarrow> Some (Inl e)
         | Inr (a, w') \<Rightarrow> Some (Inr (Some a, w', rs)))
      else
        (case Container_perform_action c w rs of
           None \<Rightarrow> None
         | Some (Inl e) \<Rightarrow> Some (Inl e)
         | Some (Inr (Some a, w', rs')) \<Rightarrow> Some (Inr (Some a, w', rs'))
         | Some (Inr (None, w', rs')) \<Rightarrow> InteractableContainer_perform_action c w' rs'))"
  by pat_completeness auto
termination
  by (relation "measure (\<lambda>(c, w, rs). length rs)") (auto dest: Container_perform_action_None)

text \<open>\<open>perform_action\<close> of a stationary item, by its class.\<close>

definition stationary_perform_action :: "nat \<Rightarrow> world \<Rightarrow> rand \<Rightarrow> (string option \<times> world \<times> rand) run" where
  "stationary_perform_action c w rs =
     (case stationaries w c of
        TableObj x \<Rightarrow> Container_perform_action c w rs
      | ShelfObj x \<Rightarrow> Container_perform_action c w rs
      | FridgeObj x \<Rightarrow> Container_perform_action c w rs
      | SinkObj x \<Rightarrow> InteractableContainer_perform_action c w rs
      | WindowObj x \<Rightarrow>
          (case Window_perform_action x of (a, x') \<Rightarrow>
             Some (Inr (Some a, w\<lparr>stationaries := (stationaries w)(c := WindowObj x')\<rparr>, rs)))
      | LightObj x \<Rightarrow>
          (case Light_perform_action x of (a, x') \<Rightarrow>
             Some (Inr (Some a, w\<lparr>stationaries := (stationaries w)(c := LightObj x')\<rparr>, rs)))
      | TVObj x \<Rightarrow>
          (case TV_perform_action x rs of
             None \<Rightarrow> None
           | Some (a, x', rs') \<Rightarrow>
               Some (Inr (Some a, w\<lparr>stationaries := (stationaries w)(c := TVObj x')\<rparr>, rs'))))"

text \<open>
  \<open>Room.perform_action\<close>: shuffle a copy of the items, then pop from the end until an item
  gives an action. Popping from the end tries the shuffled list in reverse.
\<close>

fun Room_try_items :: "nat list \<Rightarrow> world \<Rightarrow> rand \<Rightarrow> (string option \<times> world \<times> rand) run" where
  "Room_try_items [] w rs = Some (Inr (None, w, rs))"
| "Room_try_items (i # usable_items) w rs =
     (case stationary_perform_action i w rs of
        None \<Rightarrow> None
      | Some (Inl e) \<Rightarrow> Some (Inl e)
      | Some (Inr (Some a, w', rs')) \<Rightarrow> Some (Inr (Some a, w', rs'))
      | Some (Inr (None, w', rs')) \<Rightarrow> Room_try_items usable_items w' rs')"

definition Room_perform_action :: "room \<Rightarrow> world \<Rightarrow> rand \<Rightarrow> (string option \<times> world \<times> rand) run" where
  "Room_perform_action room w rs =
     (case shuffle (items room) rs of
        None \<Rightarrow> None
      | Some (usable_items, rs') \<Rightarrow> Room_try_items (rev usable_items) w rs')"

subsection \<open>The state-change generator\<close>

text \<open>
  The first \<open>if\<close> of the loop body: with rooms left and the coin answering True, pop a
  random room and let it act. The result is the action (if any), the rooms left, the
  world and the draws left.
\<close>

definition try_room :: "room list \<Rightarrow> world \<Rightarrow> rand \<Rightarrow> (string option \<times> room list \<times> world \<times> rand) run" where
  "try_room usable_rooms w rs =
     (if usable_rooms = [] then Some (Inr (None, usable_rooms, w, rs))
      else case choice_bool rs of
          None \<Rightarrow> None
        | Some (b, rs1) \<Rightarrow>
            if \<not> b then Some (Inr (None, usable_rooms, w, rs1))
            else
              (case randbelow (length usable_rooms) rs1 of
                 None \<Rightarrow> None
               | Some (i, rs2) \<Rightarrow>
                   (case pop_at i usable_rooms of (room, usable_rooms') \<Rightarrow>
                      (case Room_perform_action room w rs2 of
                         None \<Rightarrow> None
                       | Some (Inl e) \<Rightarrow> Some (Inl e)
                       | Some (Inr (a, w', rs3)) \<Rightarrow> Some (Inr (a, usable_rooms', w', rs3))))))"

text \<open>The second \<open>if\<close>: with movable items left, pop a random one and let it act.\<close>

definition try_movable :: "nat list \<Rightarrow> world \<Rightarrow> rand \<Rightarrow> (string option \<times> nat list \<times> world \<times> rand) run" where
  "try_movable usable_movables w rs =
     (if usable_movables = [] then Some (Inr (None, usable_movables, w, rs))
      else case randbelow (length usable_movables) rs of
          None \<Rightarrow> None
        | Some (i, rs1) \<Rightarrow>
            (case pop_at i usable_movables of (m, usable_movables') \<Rightarrow>
               (case movable_perform_action m w rs1 of
                  None \<Rightarrow> None
                | Some (Inl e) \<Rightarrow> Some (Inl e)
                | Some (Inr (a, w', rs2)) \<Rightarrow> Some (Inr (a, usable_movables', w', rs2)))))"

lemma randbelow_Some:
  "randbelow n rs = Some (i, rs') \<Longrightarrow> \<exists>d. rs = d # rs' \<and> i = d mod n"
  by (cases rs) auto

lemma length_pop_at:
  "i < length xs \<Longrightarrow> length (snd (pop_at i xs)) < length xs"
  by (auto simp: pop_at_def)

lemma try_room_progress:
  assumes "try_room ur w rs = Some (Inr (a, ur', w', rs'))"
  shows "length ur' < length ur \<or> (ur' = ur \<and> (ur = [] \<and> rs' = rs \<or> ur \<noteq> [] \<and> length rs' < length rs))"
proof (cases "ur = []")
  case True
  with assms show ?thesis by (simp add: try_room_def)
next
  case False
  show ?thesis
  proof (cases rs)
    case Nil
    with assms False show ?thesis by (simp add: try_room_def)
  next
    case (Cons d rs1)
    show ?thesis
    proof (cases "coin d")
      case False
      with assms Cons \<open>ur \<noteq> []\<close> show ?thesis by (auto simp: try_room_def)
    next
      case True
      with assms Cons \<open>ur \<noteq> []\<close> obtain i rs2 where
        i: "randbelow (length ur) rs1 = Some (i, rs2)" and ur': "ur' = snd (pop_at i ur)"
        by (auto simp: try_room_def split: option.splits sum.splits prod.splits)
      from i \<open>ur \<noteq> []\<close> have "i < length ur"
        by (auto dest!: randbelow_Some)
      with ur' show ?thesis by (simp add: length_pop_at)
    qed
  qed
qed

lemma try_movable_progress:
  assumes "try_movable um w rs = Some (Inr (a, um', w', rs'))"
  shows "length um' < length um \<or> (um' = um \<and> um = [] \<and> rs' = rs)"
proof (cases "um = []")
  case True
  with assms show ?thesis by (simp add: try_movable_def)
next
  case False
  with assms obtain i rs1 where
    i: "randbelow (length um) rs = Some (i, rs1)" and um': "um' = snd (pop_at i um)"
    by (auto simp: try_movable_def split: option.splits sum.splits prod.splits)
  from i False have "i < length um"
    by (auto dest!: randbelow_Some)
  with um' show ?thesis by (simp add: length_pop_at)
qed

text \<open>
  The loop of \<open>generate_state_change\<close>: the assertion that a pool has a candidate left, then
  the two \<open>if\<close> statements; the first action that is not \<open>None\<close> is returned.
\<close>

function gsc_loop :: "room list \<Rightarrow> nat list \<Rightarrow> world \<Rightarrow> rand \<Rightarrow> (string \<times> world \<times> rand) run" where
  "gsc_loop usable_rooms usable_movables w rs =
     (if \<not> (length usable_rooms > 0 \<or> length usable_movables > 0)
      then Some (Inl (AssertionError ''len(usable_rooms) > 0 or len(usable_movables) > 0''))
      else
        (case try_room usable_rooms w rs of
           None \<Rightarrow> None
         | Some (Inl e) \<Rightarrow> Some (Inl e)
         | Some (Inr (Some action, usable_rooms1, w1, rs1)) \<Rightarrow> Some (Inr (action, w1, rs1))
         | Some (Inr (None, usable_rooms1, w1, rs1)) \<Rightarrow>
             (case try_movable usable_movables w1 rs1 of
                None \<Rightarrow> None
              | Some (Inl e) \<Rightarrow> Some (Inl e)
              | Some (Inr (Some action, usable_movables2, w2, rs2)) \<Rightarrow> Some (Inr (action, w2, rs2))
              | Some (Inr (None, usable_movables2, w2, rs2)) \<Rightarrow>
                  gsc_loop usable_rooms1 usable_movables2 w2 rs2)))"
  by pat_completeness auto
termination
  apply (relation "(\<lambda>(ur, um, w, rs). length ur + length um) <*mlex*> measure (\<lambda>(ur, um, w, rs). length rs)")
   apply (simp add: wf_mlex)
  apply (auto simp: mlex_iff dest!: try_room_progress try_movable_progress)
  done

declare gsc_loop.simps [simp del]

definition generate_state_change :: "world \<Rightarrow> rand \<Rightarrow> (string \<times> world \<times> rand) run" where
  "generate_state_change w rs = gsc_loop (rooms w) (movable_items w) w rs"

section \<open>The problem encoder\<close>

definition get_in_hand_predicate :: "string \<Rightarrow> string \<Rightarrow> string" where
  "get_in_hand_predicate person_param item_param = ''in-hand '' @ person_param @ '' '' @ item_param"

definition get_empty_hand_predicate :: "string \<Rightarrow> string" where
  "get_empty_hand_predicate person_param = ''hand-empty '' @ person_param"

text \<open>
  \<open>get_contains_predicate\<close> of a container class; the shelf appends the keyword argument
  \<open>pddl_level\<close>, a missing key raises.
\<close>

definition Container_get_contains_predicate :: "stationary_type \<Rightarrow> string \<Rightarrow> string \<Rightarrow> string" where
  "Container_get_contains_predicate cls container_param item_param =
     (stationary_type_name cls @ ''-contains'') @ '' '' @ container_param @ '' '' @ item_param"

definition get_contains_predicate ::
  "stationary_type \<Rightarrow> string \<Rightarrow> string \<Rightarrow> (string \<rightharpoonup> pyval) \<Rightarrow> error + string" where
  "get_contains_predicate cls container_param item_param kwargs =
     (if cls = Shelf then
        (case kwargs ''pddl_level'' of
           None \<Rightarrow> Inl (KeyError ''pddl_level'')
         | Some (PyStr l) \<Rightarrow> Inr (Container_get_contains_predicate cls container_param item_param @ '' '' @ l)
         | Some (PyInt n) \<Rightarrow> Inl TypeError)
      else if is_container cls then Inr (Container_get_contains_predicate cls container_param item_param)
      else Inl AttributeError)"

definition MovableItem_get_init_conditions :: "nat \<Rightarrow> world \<Rightarrow> error + string list" where
  "MovableItem_get_init_conditions r w =
     (let self = movables w r in
      case container self of
        None \<Rightarrow> Inr [get_in_hand_predicate (person_pddl_name (person w)) (pddl_name self)]
      | Some c \<Rightarrow>
          (case get_contains_predicate (type_of (stationaries w c))
                  (pddl_name (stationary_base (stationaries w c))) (pddl_name self)
                  (extra_location_info self) of
             Inl e \<Rightarrow> Inl e
           | Inr p \<Rightarrow> Inr [p]))"

definition Phone_get_special_init_conditions :: "movable_item \<Rightarrow> string list" where
  "Phone_get_special_init_conditions p =
     (if ringing p then [''phone-ringing '' @ pddl_name p] else [])"

text \<open>\<open>get_init_conditions\<close> of a movable item, by its class.\<close>

definition movable_get_init_conditions :: "nat \<Rightarrow> world \<Rightarrow> error + string list" where
  "movable_get_init_conditions r w =
     (case MovableItem_get_init_conditions r w of
        Inl e \<Rightarrow> Inl e
      | Inr conds \<Rightarrow>
          if movable_class (movables w r) = Phone
          then Inr (conds @ Phone_get_special_init_conditions (movables w r))
          else Inr conds)"

text \<open>\<open>get_init_conditions\<close> of a stationary item, by its class.\<close>

fun stationary_get_init_conditions :: "stationary \<Rightarrow> string list" where
  "stationary_get_init_conditions (TableObj x) = StationaryItem_get_init_conditions x"
| "stationary_get_init_conditions (ShelfObj x) = Shelf_get_init_conditions x"
| "stationary_get_init_conditions (FridgeObj x) = StationaryItem_get_init_conditions x"
| "stationary_get_init_conditions (SinkObj x) = Sink_get_init_conditions x"
| "stationary_get_init_conditions (WindowObj x) = Window_get_init_conditions x"
| "stationary_get_init_conditions (LightObj x) = Light_get_init_conditions x"
| "stationary_get_init_conditions (TVObj x) = TV_get_init_conditions x"

definition stationary_get_pddl_objects :: "stationary \<Rightarrow> string list" where
  "stationary_get_pddl_objects x =
     [pddl_name (stationary_base x) @ '' - '' @ stationary_type_name (type_of x)]"

definition movable_get_pddl_objects :: "movable_item \<Rightarrow> string list" where
  "movable_get_pddl_objects x = [pddl_name x @ '' - '' @ movable_type_name (movable_class x)]"

definition Person_get_pddl_objects :: "person \<Rightarrow> string list" where
  "Person_get_pddl_objects p = [person_pddl_name p @ '' - '' @ ''person'']"

definition Person_get_init_conditions :: "person \<Rightarrow> string list" where
  "Person_get_init_conditions p =
     (if item p = None then [get_empty_hand_predicate (person_pddl_name p)] else [])"

definition Room_get_init_conditions :: "room \<Rightarrow> world \<Rightarrow> string list" where
  "Room_get_init_conditions room w =
     concat (map (\<lambda>i. stationary_get_init_conditions (stationaries w i)) (items room))"

definition Room_get_pddl_objects :: "room \<Rightarrow> world \<Rightarrow> string list" where
  "Room_get_pddl_objects room w =
     [room_pddl_name room @ '' - '' @ room_type_name (room_class room)]
     @ concat (map (\<lambda>i. stationary_get_pddl_objects (stationaries w i)) (items room))"

text \<open>
  The registry of concrete classes. The source computes the four lists once, by reflection,
  in an order that is not fixed; they are parameters of the model.
\<close>

datatype item_type = StationaryType stationary_type | MovableType movable_type

record registry =
  item_types :: "item_type list"
  movable_types :: "movable_type list"
  stationary_types :: "stationary_type list"
  room_types :: "room_type list"

fun get_static_pddl_objects :: "item_type \<Rightarrow> string list" where
  "get_static_pddl_objects (StationaryType Shelf) = LEVEL_OBJECTS"
| "get_static_pddl_objects (StationaryType TV) = CHANNEL_OBJECTS"
| "get_static_pddl_objects t = []"

text \<open>The list \<open>objects\<close> of \<open>generate_problem_pddl\<close>.\<close>

definition problem_objects :: "registry \<Rightarrow> world \<Rightarrow> string list" where
  "problem_objects reg w =
     Person_get_pddl_objects (person w)
     @ concat (map (\<lambda>room. Room_get_pddl_objects room w) (rooms w))
     @ concat (map (\<lambda>i. movable_get_pddl_objects (movables w i)) (movable_items w))
     @ concat (map get_static_pddl_objects (item_types reg))"

text \<open>The list \<open>init_conditions\<close> of \<open>generate_problem_pddl\<close>; an item's conditions may raise.\<close>

fun movables_init_conditions :: "nat list \<Rightarrow> world \<Rightarrow> error + string list" where
  "movables_init_conditions [] w = Inr []"
| "movables_init_conditions (i # is) w =
     (case movable_get_init_conditions i w of
        Inl e \<Rightarrow> Inl e
      | Inr conds \<Rightarrow>
          (case movables_init_conditions is w of
             Inl e \<Rightarrow> Inl e
           | Inr rest \<Rightarrow> Inr (conds @ rest)))"

definition problem_init_conditions :: "world \<Rightarrow> error + string list" where
  "problem_init_conditions w =
     (case movables_init_conditions (movable_items w) w of
        Inl e \<Rightarrow> Inl e
      | Inr conds \<Rightarrow>
          Inr (Person_get_init_conditions (person w)
               @ concat (map (\<lambda>room. Room_get_init_conditions room w) (rooms w))
               @ conds))"

text \<open>\<open>sep.join(xs)\<close>.\<close>

fun join :: "string \<Rightarrow> string list \<Rightarrow> string" where
  "join sep [] = []"
| "join sep [x] = x"
| "join sep (x # y # xs) = x @ sep @ join sep (y # xs)"

definition nl :: string where
  "nl = [CHR 0x0A]"

definition tab :: string where
  "tab = [CHR 0x09]"

definition generate_problem_pddl :: "registry \<Rightarrow> world \<Rightarrow> error + string" where
  "generate_problem_pddl reg w =
     (case problem_init_conditions w of
        Inl e \<Rightarrow> Inl e
      | Inr init_conditions \<Rightarrow>
          Inr (''(define (problem simulation-a)'' @ nl
               @ tab @ ''(:domain simulation)'' @ nl
               @ tab @ ''(:objects'' @ nl
               @ tab @ tab @ join (nl @ tab @ tab) (problem_objects reg w) @ nl
               @ tab @ '')'' @ nl
               @ tab @ ''(:init'' @ nl
               @ tab @ tab @ ''('' @ join ('')'' @ nl @ tab @ tab @ ''('') init_conditions @ '')'' @ nl
               @ tab @ '')'' @ nl
               @ '')'' @ nl))"

section \<open>Invariants of the world\<close>

text \<open>The references of all stationary items of the rooms of the generator.\<close>

definition room_items :: "world \<Rightarrow> nat list" where
  "room_items w = concat (map items (rooms w))"

text \<open>The two states of a movable item of the generator's list.\<close>

definition held :: "world \<Rightarrow> nat \<Rightarrow> bool" where
  "held w r = (container (movables w r) = None \<and> item (person w) = Some r)"

definition in_container :: "world \<Rightarrow> nat \<Rightarrow> bool" where
  "in_container w r =
     (case container (movables w r) of
        None \<Rightarrow> False
      | Some c \<Rightarrow> c \<in> set (room_items w)
          \<and> can_hold (type_of (stationaries w c)) (movable_class (movables w r))
          \<and> item (person w) \<noteq> Some r)"

definition ownership :: "world \<Rightarrow> nat \<Rightarrow> bool" where
  "ownership w r = ((held w r \<or> in_container w r) \<and> \<not> (held w r \<and> in_container w r))"

text \<open>The held item, if any, is one of the generator's list, and every item of the list is owned.\<close>

definition ownership_inv :: "world \<Rightarrow> bool" where
  "ownership_inv w =
     ((case item (person w) of None \<Rightarrow> True | Some r \<Rightarrow> r \<in> set (movable_items w))
      \<and> (\<forall>r \<in> set (movable_items w). ownership w r))"

text \<open>What no action changes: the lists, the symbols and the classes of the objects.\<close>

definition frame :: "world \<Rightarrow> world \<Rightarrow> bool" where
  "frame w w' =
     (rooms w' = rooms w \<and> movable_items w' = movable_items w
      \<and> person_pddl_name (person w') = person_pddl_name (person w)
      \<and> (\<forall>c. type_of (stationaries w' c) = type_of (stationaries w c)
             \<and> stationary_base (stationaries w' c) = stationary_base (stationaries w c))
      \<and> (\<forall>r. movable_class (movables w' r) = movable_class (movables w r)
             \<and> pddl_name (movables w' r) = pddl_name (movables w r)))"

section \<open>World generation\<close>

text \<open>
  The class-level state that generation consumes: the pools of titles, colours, foods,
  kitchenware and names (the phone and the bedroom each read their own copy of the names),
  and the flags of the two room classes that are generated once.
\<close>

record pools =
  book_available_titles :: "string list"
  pen_available_colors :: "string list"
  food_available_foods :: "string list"
  kitchenware_available :: "string list"
  phone_available_names :: "string list"
  bedroom_available_names :: "string list"
  kitchen_generated :: bool
  livingroom_generated :: bool

text \<open>The pools at start, from the lines of the four text files.\<close>

definition initial_pools :: "string list \<Rightarrow> string list \<Rightarrow> string list \<Rightarrow> string list \<Rightarrow> pools" where
  "initial_pools book_titles colors foods names =
     \<lparr>book_available_titles = book_titles,
      pen_available_colors = map lower colors,
      food_available_foods = map lower foods,
      kitchenware_available = [''plate'', ''bowl'', ''fork'', ''spoon'', ''knife''],
      phone_available_names = names,
      bedroom_available_names = names,
      kitchen_generated = False,
      livingroom_generated = False\<rparr>"

definition dquote :: string where
  "dquote = [CHR 0x22]"

definition apostrophe :: string where
  "apostrophe = [CHR 0x27]"

text \<open>\<open>MovableItem.__init__\<close> and the constructors of the five classes.\<close>

definition MovableItem :: "movable_type \<Rightarrow> string \<Rightarrow> string \<Rightarrow> string \<Rightarrow> bool \<Rightarrow> movable_item" where
  "MovableItem cls nm pddl shortened article =
     \<lparr>name = nm, pddl_name = pddl, movable_class = cls, shortened_name = shortened,
      container = None, relative_location = None, extra_location_info = Map.empty,
      use_default_article = article, ringing = False\<rparr>"

definition Book_new :: "string \<Rightarrow> movable_item" where
  "Book_new title =
     MovableItem Book (''book called '' @ dquote @ title @ dquote)
       (lower (re_sub_dash title) @ ''-book'') (dquote @ title @ dquote @ '' book'') True"

definition Pen_new :: "string \<Rightarrow> movable_item" where
  "Pen_new color = MovableItem Pen (color @ '' pen'') (color @ ''-pen'') (color @ '' pen'') True"

definition Singleton_new :: "movable_type \<Rightarrow> string \<Rightarrow> movable_item" where
  "Singleton_new cls nm = MovableItem cls nm (lower (re_sub_dash nm)) nm True"

definition Phone_new :: "string \<Rightarrow> movable_item" where
  "Phone_new owner =
     MovableItem Phone (''phone that belongs to '' @ owner) (lower owner @ ''-phone'')
       (owner @ apostrophe @ ''s phone'') False"

text \<open>\<open>xs.pop(random.randrange(len(xs)))\<close> on a pool that is not empty.\<close>

definition pop_random :: "'a list \<Rightarrow> rand \<Rightarrow> ('a \<times> 'a list \<times> rand) option" where
  "pop_random xs rs =
     (case randbelow (length xs) rs of
        None \<Rightarrow> None
      | Some (idx, rs') \<Rightarrow> (case pop_at idx xs of (x, xs') \<Rightarrow> Some (x, xs', rs')))"

text \<open>\<open>generate_instance\<close> of a movable class: \<open>None\<close> when its pool is exhausted.\<close>

fun movable_generate_instance :: "movable_type \<Rightarrow> pools \<Rightarrow> rand \<Rightarrow> (movable_item option \<times> pools \<times> rand) option" where
  "movable_generate_instance Book p rs =
     (if length (book_available_titles p) = 0 then Some (None, p, rs)
      else case pop_random (book_available_titles p) rs of
          None \<Rightarrow> None
        | Some (x, xs, rs') \<Rightarrow> Some (Some (Book_new x), p\<lparr>book_available_titles := xs\<rparr>, rs'))"
| "movable_generate_instance Pen p rs =
     (if length (pen_available_colors p) = 0 then Some (None, p, rs)
      else case pop_random (pen_available_colors p) rs of
          None \<Rightarrow> None
        | Some (x, xs, rs') \<Rightarrow> Some (Some (Pen_new x), p\<lparr>pen_available_colors := xs\<rparr>, rs'))"
| "movable_generate_instance Food p rs =
     (if length (food_available_foods p) = 0 then Some (None, p, rs)
      else case pop_random (food_available_foods p) rs of
          None \<Rightarrow> None
        | Some (x, xs, rs') \<Rightarrow> Some (Some (Singleton_new Food x), p\<lparr>food_available_foods := xs\<rparr>, rs'))"
| "movable_generate_instance Kitchenware p rs =
     (if length (kitchenware_available p) = 0 then Some (None, p, rs)
      else case pop_random (kitchenware_available p) rs of
          None \<Rightarrow> None
        | Some (x, xs, rs') \<Rightarrow>
            Some (Some (Singleton_new Kitchenware x), p\<lparr>kitchenware_available := xs\<rparr>, rs'))"
| "movable_generate_instance Phone p rs =
     (if length (phone_available_names p) = 0 then Some (None, p, rs)
      else case pop_random (phone_available_names p) rs of
          None \<Rightarrow> None
        | Some (x, xs, rs') \<Rightarrow> Some (Some (Phone_new x), p\<lparr>phone_available_names := xs\<rparr>, rs'))"

definition MAX_ROOMS :: nat where
  "MAX_ROOMS = 5"

definition MAX_ITEMS :: nat where
  "MAX_ITEMS = 20"

text \<open>
  The inner loop of the first phase of \<open>__init__\<close> for one movable class. The test
  \<open>count < MAX_ITEMS / len(movable_types)\<close> divides as a float; for a count and a positive
  length it is \<open>count * len(movable_types) < MAX_ITEMS\<close>. The new objects are appended to the
  list of items; an object's address is its position in that list.
\<close>

lemma count_below_cap: "(c::nat) * n < m \<Longrightarrow> 0 < n \<Longrightarrow> c < m"
  by (cases n) auto

function generate_items_of :: "movable_type \<Rightarrow> nat \<Rightarrow> nat \<Rightarrow> pools \<Rightarrow> movable_item list \<Rightarrow> rand
    \<Rightarrow> (pools \<times> movable_item list \<times> rand) option" where
  "generate_items_of movable_type n_types cnt p created rs =
     (if cnt * n_types < MAX_ITEMS \<and> 0 < n_types then
        (case movable_generate_instance movable_type p rs of
           None \<Rightarrow> None
         | Some (None, p', rs') \<Rightarrow> Some (p', created, rs')
         | Some (Some x, p', rs') \<Rightarrow>
             generate_items_of movable_type n_types (cnt + 1) p' (created @ [x]) rs')
      else Some (p, created, rs))"
  by pat_completeness auto
termination
  by (relation "measure (\<lambda>(t, n, cnt, p, created, rs). MAX_ITEMS - cnt)")
     (auto dest!: count_below_cap)

declare generate_items_of.simps [simp del]

fun generate_all_items :: "movable_type list \<Rightarrow> nat \<Rightarrow> pools \<Rightarrow> movable_item list \<Rightarrow> rand
    \<Rightarrow> (pools \<times> movable_item list \<times> rand) option" where
  "generate_all_items [] n_types p created rs = Some (p, created, rs)"
| "generate_all_items (t # ts) n_types p created rs =
     (case generate_items_of t n_types 0 p created rs of
        None \<Rightarrow> None
      | Some (p', created', rs') \<Rightarrow> generate_all_items ts n_types p' created' rs')"

subsection \<open>Stationary items and placement\<close>

text \<open>\<open>random.randint(a, b)\<close> is \<open>a + randbelow(b - a + 1)\<close>.\<close>

definition randint :: "nat \<Rightarrow> nat \<Rightarrow> rand \<Rightarrow> (nat \<times> rand) option" where
  "randint a b rs =
     (case randbelow (b - a + 1) rs of None \<Rightarrow> None | Some (i, rs') \<Rightarrow> Some (a + i, rs'))"

definition StationaryItem :: "string \<Rightarrow> room_ident \<Rightarrow> stationary_item" where
  "StationaryItem nm p = \<lparr>name = nm, pddl_name = StationaryItem_pddl_name nm p, parent = p\<rparr>"

text \<open>\<open>generate_empty\<close> of the four container classes.\<close>

fun generate_empty :: "stationary_type \<Rightarrow> room_ident \<Rightarrow> rand \<Rightarrow> (stationary \<times> rand) run" where
  "generate_empty Table p rs = Some (Inr (TableObj (StationaryItem ''table'' p), rs))"
| "generate_empty Shelf p rs =
     (case randint MIN_LEVELS MAX_LEVELS rs of
        None \<Rightarrow> None
      | Some (n, rs') \<Rightarrow>
          Some (Inr (ShelfObj \<lparr>name = ''shelf'', pddl_name = StationaryItem_pddl_name ''shelf'' p,
                               parent = p, levels = n\<rparr>, rs')))"
| "generate_empty Fridge p rs = Some (Inr (FridgeObj (StationaryItem ''fridge'' p), rs))"
| "generate_empty Sink p rs =
     (case choice_bool rs of
        None \<Rightarrow> None
      | Some (b, rs') \<Rightarrow>
          Some (Inr (SinkObj \<lparr>name = ''sink'', pddl_name = StationaryItem_pddl_name ''sink'' p,
                              parent = p, faucet_on = b\<rparr>, rs')))"
| "generate_empty t p rs = Some (Inl AttributeError)"

text \<open>
  The loop of \<open>Container.generate_instance\<close> that draws the items: pop the last holdable
  item, remove it from the shared list, append it to the chosen ones.
\<close>

function choose_items :: "nat list \<Rightarrow> nat list \<Rightarrow> nat list \<Rightarrow> nat \<Rightarrow> nat list \<times> nat list" where
  "choose_items holdables its chosen_items max_allowed =
     (if length holdables > 0 \<and> length chosen_items < max_allowed
      then choose_items (butlast holdables) (remove1 (last holdables) its)
             (chosen_items @ [last holdables]) max_allowed
      else (its, chosen_items))"
  by pat_completeness auto
termination
  by (relation "measure (\<lambda>(holdables, its, chosen_items, max_allowed). length holdables)") auto

declare choose_items.simps [simp del]

text \<open>The loop that gives every chosen item its container and its relative location.\<close>

fun assign_locations :: "nat \<Rightarrow> stationary \<Rightarrow> nat list \<Rightarrow> (nat \<Rightarrow> movable_item) \<Rightarrow> rand
    \<Rightarrow> ((nat \<Rightarrow> movable_item) \<times> rand) run" where
  "assign_locations c cobj [] mov rs = Some (Inr (mov, rs))"
| "assign_locations c cobj (i # chosen_items) mov rs =
     (case generate_relative_location cobj rs of
        None \<Rightarrow> None
      | Some (Inl e) \<Rightarrow> Some (Inl e)
      | Some (Inr (loc, info, rs')) \<Rightarrow>
          assign_locations c cobj chosen_items
            (mov(i := (mov i)\<lparr>container := Some c, relative_location := Some loc,
                               extra_location_info := info\<rparr>)) rs')"

text \<open>
  \<open>Container.generate_instance\<close>, for the class \<open>cls\<close>, the shared list \<open>its\<close> of unplaced
  items and the cap \<open>max_allowed\<close>; \<open>c\<close> is the address where the new container is stored.
  The result is the container, the shared list after the draw, the chosen items, and the
  store of movable items. The text of the description is not modelled; the chosen items it
  lists are returned in its place. (\<open>get_item_list_description\<close> reads \<open>item.name[0]\<close>, which
  raises for an item with an empty name; the model returns there, so it generates the worlds
  of the source and those of empty names besides.)
\<close>

definition Container_generate_instance ::
  "stationary_type \<Rightarrow> room_ident \<Rightarrow> nat list \<Rightarrow> nat \<Rightarrow> nat \<Rightarrow> (nat \<Rightarrow> movable_item) \<Rightarrow> rand
    \<Rightarrow> (stationary \<times> nat list \<times> nat list \<times> (nat \<Rightarrow> movable_item) \<times> rand) run" where
  "Container_generate_instance cls p its max_allowed c mov rs =
     (case shuffle (filter (\<lambda>i. can_hold cls (movable_class (mov i))) its) rs of
        None \<Rightarrow> None
      | Some (holdables, rs1) \<Rightarrow>
          (case choose_items holdables its [] max_allowed of (its', chosen_items) \<Rightarrow>
             (case generate_empty cls p rs1 of
                None \<Rightarrow> None
              | Some (Inl e) \<Rightarrow> Some (Inl e)
              | Some (Inr (cobj, rs2)) \<Rightarrow>
                  (case assign_locations c cobj chosen_items mov rs2 of
                     None \<Rightarrow> None
                   | Some (Inl e) \<Rightarrow> Some (Inl e)
                   | Some (Inr (mov', rs3)) \<Rightarrow>
                       (case shuffle chosen_items rs3 of
                          None \<Rightarrow> None
                        | Some (described, rs4) \<Rightarrow>
                            Some (Inr (cobj, its', chosen_items, mov', rs4)))))))"

text \<open>\<open>generate_instance\<close> of a stationary class; only the containers use the keyword arguments.\<close>

definition stationary_generate_instance ::
  "stationary_type \<Rightarrow> room_ident \<Rightarrow> nat list \<Rightarrow> nat \<Rightarrow> nat \<Rightarrow> (nat \<Rightarrow> movable_item) \<Rightarrow> rand
    \<Rightarrow> (stationary \<times> nat list \<times> (nat \<Rightarrow> movable_item) \<times> rand) run" where
  "stationary_generate_instance cls p its max_allowed c mov rs =
     (case cls of
        Window \<Rightarrow>
          (case choice_bool rs of
             None \<Rightarrow> None
           | Some (b, rs') \<Rightarrow>
               Some (Inr (WindowObj \<lparr>name = ''window'', pddl_name = StationaryItem_pddl_name ''window'' p,
                                     parent = p, window_open = b\<rparr>, its, mov, rs')))
      | Light \<Rightarrow>
          (case choice_bool rs of
             None \<Rightarrow> None
           | Some (b, rs') \<Rightarrow>
               Some (Inr (LightObj \<lparr>name = ''overhead light'',
                                    pddl_name = StationaryItem_pddl_name ''overhead light'' p,
                                    parent = p, light_on = b\<rparr>, its, mov, rs')))
      | TV \<Rightarrow>
          (case choice_bool rs of
             None \<Rightarrow> None
           | Some (b, rs1) \<Rightarrow>
               (case choice_channel rs1 of
                  None \<Rightarrow> None
                | Some (ch, rs2) \<Rightarrow>
                    Some (Inr (TVObj \<lparr>name = ''TV'', pddl_name = StationaryItem_pddl_name ''TV'' p,
                                      parent = p, tv_on = b, curr_channel = ch\<rparr>, its, mov, rs2))))
      | _ \<Rightarrow>
          (case Container_generate_instance cls p its max_allowed c mov rs of
             None \<Rightarrow> None
           | Some (Inl e) \<Rightarrow> Some (Inl e)
           | Some (Inr (cobj, its', chosen_items, mov', rs')) \<Rightarrow>
               Some (Inr (cobj, its', mov', rs'))))"

subsection \<open>Rooms\<close>

definition Kitchen_can_hold :: "stationary_type \<Rightarrow> bool" where
  "Kitchen_can_hold stationary_type = (stationary_type \<in> set [Fridge, Sink, Light])"

fun room_can_hold :: "room_type \<Rightarrow> stationary_type \<Rightarrow> bool" where
  "room_can_hold Kitchen t = Kitchen_can_hold t"
| "room_can_hold LivingRoom t = (\<not> Kitchen_can_hold t \<or> t = Light)"
| "room_can_hold Bedroom t = (\<not> Kitchen_can_hold t \<or> t = Light)"

text \<open>\<open>generate_empty\<close> of a room class: \<open>None\<close> when the class is exhausted.\<close>

fun room_generate_empty :: "room_type \<Rightarrow> pools \<Rightarrow> rand \<Rightarrow> (room option \<times> pools \<times> rand) option" where
  "room_generate_empty Kitchen p rs =
     (if kitchen_generated p then Some (None, p, rs)
      else Some (Some \<lparr>room_class = Kitchen, room_name = ''the kitchen'', room_pddl_name = ''kitchen'',
                       items = []\<rparr>, p\<lparr>kitchen_generated := True\<rparr>, rs))"
| "room_generate_empty LivingRoom p rs =
     (if livingroom_generated p then Some (None, p, rs)
      else Some (Some \<lparr>room_class = LivingRoom, room_name = ''the living room'',
                       room_pddl_name = ''living-room'', items = []\<rparr>,
                 p\<lparr>livingroom_generated := True\<rparr>, rs))"
| "room_generate_empty Bedroom p rs =
     (if length (bedroom_available_names p) = 0 then Some (None, p, rs)
      else case pop_random (bedroom_available_names p) rs of
          None \<Rightarrow> None
        | Some (nm, xs, rs') \<Rightarrow>
            Some (Some \<lparr>room_class = Bedroom, room_name = nm @ apostrophe @ ''s bedroom'',
                         room_pddl_name = lower nm @ ''-bedroom'', items = []\<rparr>,
                  p\<lparr>bedroom_available_names := xs\<rparr>, rs'))"

text \<open>
  The state of the stores during generation: the movable items, the stationary items and
  the address where the next stationary item is stored.
\<close>

record stores =
  movable_store :: "nat \<Rightarrow> movable_item"
  stationary_store :: "nat \<Rightarrow> stationary"
  next_stationary :: "nat"

text \<open>
  The loop of \<open>generate_with_description\<close> over the stationary classes: each class the room
  can hold is instantiated once, with the shared list of unplaced items and the cap 2.
\<close>

fun generate_room_items :: "room_type \<Rightarrow> room_ident \<Rightarrow> stationary_type list \<Rightarrow> nat list \<Rightarrow> nat list
    \<Rightarrow> stores \<Rightarrow> rand \<Rightarrow> (nat list \<times> nat list \<times> stores \<times> rand) run" where
  "generate_room_items cls p [] created its st rs = Some (Inr (created, its, st, rs))"
| "generate_room_items cls p (item_type # ts) created its st rs =
     (if \<not> room_can_hold cls item_type then generate_room_items cls p ts created its st rs
      else
        (case stationary_generate_instance item_type p its 2 (next_stationary st) (movable_store st) rs of
           None \<Rightarrow> None
         | Some (Inl e) \<Rightarrow> Some (Inl e)
         | Some (Inr (x, its', mov', rs')) \<Rightarrow>
             generate_room_items cls p ts (created @ [next_stationary st]) its'
               (st\<lparr>movable_store := mov',
                   stationary_store := (stationary_store st)(next_stationary st := x),
                   next_stationary := Suc (next_stationary st)\<rparr>) rs'))"

text \<open>
  \<open>Room.generate_with_description\<close>: \<open>None\<close> when the class is exhausted, else the room with
  its shuffled items. The description text is not modelled, the shuffle of the descriptions
  is (it consumes draws).
\<close>

definition generate_with_description ::
  "room_type \<Rightarrow> stationary_type list \<Rightarrow> pools \<Rightarrow> nat list \<Rightarrow> stores \<Rightarrow> rand
    \<Rightarrow> (room option \<times> pools \<times> nat list \<times> stores \<times> rand) run" where
  "generate_with_description cls stypes p its st rs =
     (case room_generate_empty cls p rs of
        None \<Rightarrow> None
      | Some (None, p', rs1) \<Rightarrow> Some (Inr (None, p', its, st, rs1))
      | Some (Some room, p', rs1) \<Rightarrow>
          (case generate_room_items cls (ident room) stypes [] its st rs1 of
             None \<Rightarrow> None
           | Some (Inl e) \<Rightarrow> Some (Inl e)
           | Some (Inr (created, its', st', rs2)) \<Rightarrow>
               (case shuffle created rs2 of
                  None \<Rightarrow> None
                | Some (shuffled, rs3) \<Rightarrow>
                    (case shuffle created rs3 of
                       None \<Rightarrow> None
                     | Some (descriptions, rs4) \<Rightarrow>
                         Some (Inr (Some (room\<lparr>items := items room @ shuffled\<rparr>), p', its', st', rs4))))))"

text \<open>The inner loop of the second phase of \<open>__init__\<close> for one room class.\<close>

function generate_rooms_of :: "room_type \<Rightarrow> nat \<Rightarrow> nat \<Rightarrow> stationary_type list \<Rightarrow> room list \<Rightarrow> pools
    \<Rightarrow> nat list \<Rightarrow> stores \<Rightarrow> rand \<Rightarrow> (room list \<times> pools \<times> nat list \<times> stores \<times> rand) run" where
  "generate_rooms_of room_type n_types cnt stypes rms p its st rs =
     (if cnt * n_types < MAX_ROOMS \<and> 0 < n_types then
        (case generate_with_description room_type stypes p its st rs of
           None \<Rightarrow> None
         | Some (Inl e) \<Rightarrow> Some (Inl e)
         | Some (Inr (None, p', its', st', rs')) \<Rightarrow> Some (Inr (rms, p', its', st', rs'))
         | Some (Inr (Some room, p', its', st', rs')) \<Rightarrow>
             generate_rooms_of room_type n_types (cnt + 1) stypes (rms @ [room]) p' its' st' rs')
      else Some (Inr (rms, p, its, st, rs)))"
  by pat_completeness auto
termination
  by (relation "measure (\<lambda>(t, n, cnt, stypes, rms, p, its, st, rs). MAX_ROOMS - cnt)")
     (auto dest!: count_below_cap)

declare generate_rooms_of.simps [simp del]

fun generate_all_rooms :: "room_type list \<Rightarrow> nat \<Rightarrow> stationary_type list \<Rightarrow> room list \<Rightarrow> pools
    \<Rightarrow> nat list \<Rightarrow> stores \<Rightarrow> rand \<Rightarrow> (room list \<times> pools \<times> nat list \<times> stores \<times> rand) run" where
  "generate_all_rooms [] n_types stypes rms p its st rs = Some (Inr (rms, p, its, st, rs))"
| "generate_all_rooms (t # ts) n_types stypes rms p its st rs =
     (case generate_rooms_of t n_types 0 stypes rms p its st rs of
        None \<Rightarrow> None
      | Some (Inl e) \<Rightarrow> Some (Inl e)
      | Some (Inr (rms', p', its', st', rs')) \<Rightarrow>
          generate_all_rooms ts n_types stypes rms' p' its' st' rs')"

subsection \<open>The constructor of the generator\<close>

text \<open>
  Before anything is allocated the stores hold blank objects, which nothing refers to.
\<close>

definition blank_movable :: movable_item where
  "blank_movable = MovableItem Book [] [] [] True"

definition blank_stationary :: stationary where
  "blank_stationary =
     TableObj \<lparr>name = [], pddl_name = [],
               parent = \<lparr>room_class = Kitchen, room_name = [], room_pddl_name = []\<rparr>\<rparr>"

definition store_of :: "movable_item list \<Rightarrow> nat \<Rightarrow> movable_item" where
  "store_of created = (\<lambda>i. if i < length created then created ! i else blank_movable)"

text \<open>
  \<open>DatasetGenerator.__init__\<close>: instantiate the movable items, generate the rooms from the
  copy \<open>remaining_movables\<close>, remove what remains from \<open>movable_items\<close>, shuffle both lists.
  The result is the world, the pools and the addresses of all instantiated movable items.
\<close>

definition DatasetGenerator_init :: "registry \<Rightarrow> pools \<Rightarrow> rand \<Rightarrow> (world \<times> pools \<times> nat list \<times> rand) run" where
  "DatasetGenerator_init reg p rs =
     (case generate_all_items (movable_types reg) (length (movable_types reg)) p [] rs of
        None \<Rightarrow> None
      | Some (p1, created, rs1) \<Rightarrow>
          (let movable_items0 = [0..<length created];
               remaining_movables = movable_items0;
               st0 = \<lparr>movable_store = store_of created, stationary_store = (\<lambda>c. blank_stationary),
                      next_stationary = 0\<rparr>
           in case generate_all_rooms (room_types reg) (length (room_types reg)) (stationary_types reg)
                     [] p1 remaining_movables st0 rs1 of
                None \<Rightarrow> None
              | Some (Inl e) \<Rightarrow> Some (Inl e)
              | Some (Inr (rms, p2, remaining, st, rs2)) \<Rightarrow>
                  (case shuffle (foldl (\<lambda>xs x. remove1 x xs) movable_items0 remaining) rs2 of
                     None \<Rightarrow> None
                   | Some (movable_items1, rs3) \<Rightarrow>
                       (case shuffle rms rs3 of
                          None \<Rightarrow> None
                        | Some (rooms1, rs4) \<Rightarrow>
                            Some (Inr (\<lparr>rooms = rooms1, person = Person,
                                         movable_items = movable_items1,
                                         movables = movable_store st,
                                         stationaries = stationary_store st\<rparr>,
                                       p2, movable_items0, rs4))))))"

section \<open>An example world\<close>

text \<open>
  A kitchen with a fridge, a sink and a light, and one food item placed in the fridge; the
  hand is empty.
\<close>

definition example_kitchen :: room_ident where
  "example_kitchen = \<lparr>room_class = Kitchen, room_name = ''the kitchen'', room_pddl_name = ''kitchen''\<rparr>"

definition example_registry :: registry where
  "example_registry =
     \<lparr>item_types = [StationaryType Table, StationaryType Shelf, StationaryType Fridge,
                     StationaryType Sink, StationaryType Window, StationaryType Light,
                     StationaryType TV, MovableType Book, MovableType Pen, MovableType Food,
                     MovableType Kitchenware, MovableType Phone],
      movable_types = [Book, Pen, Food, Kitchenware, Phone],
      stationary_types = [Table, Shelf, Fridge, Sink, Window, Light, TV],
      room_types = [Kitchen, LivingRoom, Bedroom]\<rparr>"

definition example_world :: world where
  "example_world =
     \<lparr>rooms = [\<lparr>room_class = Kitchen, room_name = ''the kitchen'', room_pddl_name = ''kitchen'',
                 items = [0, 1, 2]\<rparr>],
      person = Person,
      movable_items = [0],
      movables = (\<lambda>i. blank_movable)
        (0 := (Singleton_new Food ''food1'')\<lparr>container := Some 0, relative_location := Some ''inside''\<rparr>),
      stationaries = (\<lambda>c. blank_stationary)
        (0 := FridgeObj (StationaryItem ''fridge'' example_kitchen),
         1 := SinkObj \<lparr>name = ''sink'', pddl_name = StationaryItem_pddl_name ''sink'' example_kitchen,
                       parent = example_kitchen, faucet_on = False\<rparr>,
         2 := LightObj \<lparr>name = ''overhead light'',
                        pddl_name = StationaryItem_pddl_name ''overhead light'' example_kitchen,
                        parent = example_kitchen, light_on = True\<rparr>)\<rparr>"

text \<open>Four unplaced items, for placement on a new shelf.\<close>

definition example_items :: "nat \<Rightarrow> movable_item" where
  "example_items =
     store_of [Singleton_new Food ''apple'', Singleton_new Kitchenware ''fork'',
               Book_new ''Dune'', Pen_new ''red'']"

section \<open>One action\<close>

text \<open>
  The actions that write the state, each on the world as it is: picking an item of the list
  up, the phone's interaction, placing the held item into a container of a room, and the
  interactions of the sink, the window, the light and the TV of a room.
\<close>

inductive one_action :: "world \<Rightarrow> string \<Rightarrow> world \<Rightarrow> bool" where
  pick_up: "m \<in> set (movable_items w) \<Longrightarrow> MovableItem_perform_action m w = Inr (Some a, w')
     \<Longrightarrow> one_action w a w'"
| phone: "m \<in> set (movable_items w) \<Longrightarrow> movable_class (movables w m) = Phone
     \<Longrightarrow> Phone_interact m w = (a, w') \<Longrightarrow> one_action w a w'"
| place: "c \<in> set (room_items w) \<Longrightarrow> Container_perform_action c w rs = Some (Inr (Some a, w', rs'))
     \<Longrightarrow> one_action w a w'"
| faucet: "c \<in> set (room_items w) \<Longrightarrow> Sink_interact_at c w = Inr (a, w') \<Longrightarrow> one_action w a w'"
| blinds: "c \<in> set (room_items w) \<Longrightarrow> stationaries w c = WindowObj x
     \<Longrightarrow> Window_perform_action x = (a, x')
     \<Longrightarrow> one_action w a (w\<lparr>stationaries := (stationaries w)(c := WindowObj x')\<rparr>)"
| light: "c \<in> set (room_items w) \<Longrightarrow> stationaries w c = LightObj x
     \<Longrightarrow> Light_perform_action x = (a, x')
     \<Longrightarrow> one_action w a (w\<lparr>stationaries := (stationaries w)(c := LightObj x')\<rparr>)"
| tv: "c \<in> set (room_items w) \<Longrightarrow> stationaries w c = TVObj x
     \<Longrightarrow> TV_perform_action x rs = Some (a, x', rs')
     \<Longrightarrow> one_action w a (w\<lparr>stationaries := (stationaries w)(c := TVObj x')\<rparr>)"

text \<open>The one action that may leave the state as it was: the TV switches to its own channel.\<close>

definition same_channel_switch :: "world \<Rightarrow> string \<Rightarrow> bool" where
  "same_channel_switch w a =
     (\<exists>c \<in> set (room_items w). \<exists>x. stationaries w c = TVObj x \<and> tv_on x
        \<and> curr_channel x \<in> set CHANNELS
        \<and> a = ''I switched the channel of the TV in '' @ room_name (parent x) @ '' to ''
              @ channel_name (curr_channel x) @ ''.'')"

text \<open>
  A living room with its five items, the TV on and playing NBC, and no movable item.
\<close>

definition example_living_room :: room_ident where
  "example_living_room =
     \<lparr>room_class = LivingRoom, room_name = ''the living room'', room_pddl_name = ''living-room''\<rparr>"

definition tv_world :: world where
  "tv_world =
     \<lparr>rooms = [\<lparr>room_class = LivingRoom, room_name = ''the living room'',
                 room_pddl_name = ''living-room'', items = [0, 1, 2, 3, 4]\<rparr>],
      person = Person,
      movable_items = [],
      movables = (\<lambda>i. blank_movable),
      stationaries = (\<lambda>c. blank_stationary)
        (0 := TableObj \<lparr>name = ''table'', pddl_name = ''living-room-table'', parent = example_living_room\<rparr>,
         1 := ShelfObj \<lparr>name = ''shelf'', pddl_name = ''living-room-shelf'', parent = example_living_room,
                        levels = 3\<rparr>,
         2 := WindowObj \<lparr>name = ''window'', pddl_name = ''living-room-window'',
                         parent = example_living_room, window_open = False\<rparr>,
         3 := LightObj \<lparr>name = ''overhead light'', pddl_name = ''living-room-overhead-light'',
                        parent = example_living_room, light_on = False\<rparr>,
         4 := TVObj \<lparr>name = ''TV'', pddl_name = ''living-room-tv'', parent = example_living_room,
                     tv_on = True, curr_channel = Channel ''NBC''\<rparr>)\<rparr>"

section \<open>Invariants of generation and of the timeline\<close>

text \<open>The placement metadata of an item on a shelf names one of the levels of that shelf.\<close>

definition level_ok :: "stationary \<Rightarrow> (string \<rightharpoonup> pyval) \<Rightarrow> bool" where
  "level_ok x info =
     (case x of
        ShelfObj s \<Rightarrow>
          info ''pddl_level'' \<in> set (map (\<lambda>l. Some (PyStr (get_level_name l))) [1..<Suc (levels s)])
      | _ \<Rightarrow> True)"

text \<open>
  A stationary item of a room: its parent is that room, a shelf has between 1 and
  \<open>MAX_LEVELS\<close> levels, the channel of a TV is one of \<open>CHANNELS\<close>.
\<close>

definition stat_ok :: "room_ident \<Rightarrow> stationary \<Rightarrow> bool" where
  "stat_ok p x =
     (parent (stationary_base x) = p
      \<and> (case x of
            ShelfObj s \<Rightarrow> 0 < levels s \<and> levels s \<le> MAX_LEVELS
          | TVObj t \<Rightarrow> curr_channel t \<in> set CHANNELS
          | _ \<Rightarrow> True))"

definition encoding_inv :: "world \<Rightarrow> bool" where
  "encoding_inv w =
     ((\<forall>room \<in> set (rooms w). \<forall>c \<in> set (items room). stat_ok (ident room) (stationaries w c))
      \<and> (\<forall>r \<in> set (movable_items w).
            case container (movables w r) of
              None \<Rightarrow> True
            | Some c \<Rightarrow> level_ok (stationaries w c) (extra_location_info (movables w r))))"

text \<open>
  During the second phase of \<open>__init__\<close>, with \<open>n\<close> movable items instantiated: an item
  without a container is in the shared list, an item with a container is not, and its
  container is an allocated stationary item that can hold it.
\<close>

definition gen_inv :: "nat \<Rightarrow> nat list \<Rightarrow> stores \<Rightarrow> bool" where
  "gen_inv n its st =
     (distinct its \<and> set its \<subseteq> {..<n}
      \<and> (\<forall>r<n. case container (movable_store st r) of
                  None \<Rightarrow> r \<in> set its
                | Some c \<Rightarrow> r \<notin> set its \<and> c < next_stationary st
                    \<and> can_hold (type_of (stationary_store st c)) (movable_class (movable_store st r))
                    \<and> level_ok (stationary_store st c) (extra_location_info (movable_store st r))))"

definition rooms_gen_inv :: "room list \<Rightarrow> stores \<Rightarrow> bool" where
  "rooms_gen_inv rms st =
     (set (concat (map items rms)) = {..<next_stationary st}
      \<and> (\<forall>room \<in> set rms. \<forall>c \<in> set (items room). stat_ok (ident room) (stationary_store st c)))"

text \<open>The worlds of a timeline: the generated world and those that state changes lead to.\<close>

inductive timeline :: "world \<Rightarrow> world \<Rightarrow> bool" for w0 :: world where
  start: "timeline w0 w0"
| change: "timeline w0 w \<Longrightarrow> generate_state_change w rs = Some (Inr (a, w', rs')) \<Longrightarrow> timeline w0 w'"

text \<open>
  The inputs of an example generation: the pools when the only text line read is the food
  \<open>apple\<close>, and a sequence of draws.
\<close>

definition example_pools :: pools where
  "example_pools = initial_pools [] [] [''apple''] []"

definition example_draws :: rand where
  "example_draws = [0, 3, 1, 0, 2, 1, 0, 2, 1, 0, 1, 1, 0, 2, 0, 1, 1, 0, 5, 1, 0, 1, 4, 4, 3, 1, 0,
                    2, 0, 1, 1, 3, 0, 2, 1, 0, 1, 0, 3, 0, 0, 1, 1, 0, 1, 0]"

text \<open>
  The inputs of a generation with more items than the rooms take: three book titles (and
  the kitchenware), no names.
\<close>

definition crowded_pools :: pools where
  "crowded_pools = initial_pools [''Dune'', ''Emma'', ''Ulysses''] [] [] []"

definition crowded_draws :: rand where
  "crowded_draws = [0, 3, 1, 0, 2, 1, 0, 2, 1, 0, 1, 1, 0, 2, 0, 1, 1, 0, 5, 1, 0, 1, 4, 4, 3, 1, 0,
                    2, 0, 1, 1, 3, 0, 2, 1, 0, 1, 0, 3, 0, 0, 1, 1, 0, 1, 0, 2, 1, 0, 3, 1, 0, 2, 1]"

section \<open>Eligible candidates and the draws a state change needs\<close>

text \<open>The number of draws on which the coin answers True.\<close>

definition true_draws :: "rand \<Rightarrow> nat" where
  "true_draws rs = length (filter coin rs)"

text \<open>
  What one candidate can cost: a room its coin, its index, its shuffle and two draws for
  each item; a movable item its index and one coin.
\<close>

definition room_cost :: "room \<Rightarrow> nat" where
  "room_cost room = 2 + 3 * length (items room)"

definition budget :: "room list \<Rightarrow> nat list \<Rightarrow> nat" where
  "budget ur um = sum_list (map room_cost ur) + 2 * length um"

text \<open>Which candidates can act now.\<close>

definition placeable :: "world \<Rightarrow> nat \<Rightarrow> bool" where
  "placeable w c =
     (case item (person w) of
        None \<Rightarrow> False
      | Some i \<Rightarrow> can_hold (type_of (stationaries w c)) (movable_class (movables w i)))"

definition stationary_can_act :: "world \<Rightarrow> nat \<Rightarrow> bool" where
  "stationary_can_act w c =
     (case stationaries w c of
        TableObj x \<Rightarrow> placeable w c
      | ShelfObj x \<Rightarrow> placeable w c
      | FridgeObj x \<Rightarrow> placeable w c
      | _ \<Rightarrow> True)"

definition room_can_act :: "world \<Rightarrow> room \<Rightarrow> bool" where
  "room_can_act w room = (\<exists>c \<in> set (items room). stationary_can_act w c)"

definition movable_can_act :: "world \<Rightarrow> nat \<Rightarrow> bool" where
  "movable_can_act w m = (item (person w) = None \<or> movable_class (movables w m) = Phone)"

definition eligible :: "world \<Rightarrow> bool" where
  "eligible w =
     ((\<exists>room \<in> set (rooms w). room_can_act w room)
      \<or> (\<exists>m \<in> set (movable_items w). movable_can_act w m))"

text \<open>
  What keeps the actions from raising: every item of the list is held by the person or has a
  container, and every shelf of a room has at least one level.
\<close>

definition listed_items_placed :: "world \<Rightarrow> bool" where
  "listed_items_placed w =
     list_all (\<lambda>r. item (person w) = Some r \<or> container (movables w r) \<noteq> None) (movable_items w)"

definition has_level :: "stationary \<Rightarrow> bool" where
  "has_level x = (case x of ShelfObj s \<Rightarrow> 0 < levels s | _ \<Rightarrow> True)"

definition shelves_have_level :: "world \<Rightarrow> bool" where
  "shelves_have_level w =
     list_all (\<lambda>room. list_all (\<lambda>c. has_level (stationaries w c)) (items room)) (rooms w)"

text \<open>A world with one room without items and no movable item: nothing can act.\<close>

definition empty_room_world :: world where
  "empty_room_world =
     \<lparr>rooms = [\<lparr>room_class = Kitchen, room_name = ''the kitchen'', room_pddl_name = ''kitchen'',
                 items = []\<rparr>],
      person = Person,
      movable_items = [],
      movables = (\<lambda>i. blank_movable),
      stationaries = (\<lambda>c. blank_stationary)\<rparr>"

section \<open>Symbols of the planning format\<close>

text \<open>
  The planning format separates the name of a predicate and its arguments by blanks, so a
  symbol is a string without a blank.
\<close>

definition symbol :: "string \<Rightarrow> bool" where
  "symbol s = (CHR '' '' \<notin> set s)"

text \<open>
  The symbols of the items in play identify them: those of the movable items of the list
  differ from each other, and they and those of the stationary items of the rooms are
  symbols.
\<close>

definition item_symbols_ok :: "world \<Rightarrow> bool" where
  "item_symbols_ok w =
     (distinct (map (\<lambda>r. pddl_name (movables w r)) (movable_items w))
      \<and> list_all (\<lambda>r. symbol (pddl_name (movables w r))) (movable_items w)
      \<and> list_all (\<lambda>c. symbol (pddl_name (stationary_base (stationaries w c)))) (room_items w))"

text \<open>
  The words of a line of the planning format, as \<open>line.split(" ")\<close> gives them. The first
  word of an entry of \<open>:objects\<close> is the symbol it declares; the words of a condition of
  \<open>:init\<close> after the first are the symbols it refers to.
\<close>

fun split_blank :: "string \<Rightarrow> string list" where
  "split_blank [] = [[]]"
| "split_blank (c # cs) =
     (if c = CHR '' '' then [] # split_blank cs
      else case split_blank cs of [] \<Rightarrow> [[c]] | u # us \<Rightarrow> (c # u) # us)"

definition declared_symbols :: "string list \<Rightarrow> string list" where
  "declared_symbols objects = map (\<lambda>obj. hd (split_blank obj)) objects"

definition referenced_symbols :: "string \<Rightarrow> string list" where
  "referenced_symbols condition = tl (split_blank condition)"

text \<open>The symbols of the person, the rooms and the items in play are symbols.\<close>

definition symbols_ok :: "world \<Rightarrow> bool" where
  "symbols_ok w =
     (symbol (person_pddl_name (person w))
      \<and> list_all (\<lambda>room. symbol (room_pddl_name room)) (rooms w)
      \<and> list_all (\<lambda>c. symbol (pddl_name (stationary_base (stationaries w c)))) (room_items w)
      \<and> list_all (\<lambda>r. symbol (pddl_name (movables w r))) (movable_items w))"

text \<open>
  The lines that become symbols as they are read: the colours of the pens and the names of
  the phone owners and of the bedrooms. The other symbols are literals of the code or are
  sanitised by the constructors.
\<close>

definition raw_lines_ok :: "pools \<Rightarrow> bool" where
  "raw_lines_ok p =
     (list_all symbol (pen_available_colors p)
      \<and> list_all symbol (phone_available_names p)
      \<and> list_all symbol (bedroom_available_names p))"

text \<open>
  Inputs of generations whose symbols do not identify the items: the food \<open>apple\<close> twice;
  a pen of the colour \<open>fork x\<close> beside the fork of the kitchenware; a pen of the colour
  \<open>Light Blue\<close> and the name \<open>Mary Ann\<close>.
\<close>

definition twin_pools :: pools where
  "twin_pools = initial_pools [] [] [''apple'', ''apple''] []"

definition twin_draws :: rand where
  "twin_draws = example_draws @ example_draws"

definition fork_pools :: pools where
  "fork_pools = initial_pools [] [''fork x''] [] []"



section \<open>Facts about the random source\<close>

lemma coin_even [simp]: "coin (2 * k)"
  by (simp add: coin_def)

lemma coin_odd [simp]: "\<not> coin (Suc (2 * k))"
  unfolding coin_def by presburger

section \<open>Toggling a light\<close>

text \<open>
  C8: for every light, performing its action twice in succession gives back the light with
  its original on/off state, and the \<open>light-on\<close> predicate of the light is in its special
  initial conditions exactly when its state is on; hence the predicate's presence is the
  same before and after two toggles.
\<close>

theorem light_toggle_twice:
  "snd (Light_perform_action (snd (Light_perform_action l))) = l
   \<and> ((''light-on '' @ pddl_name l) \<in> set (Light_get_special_init_conditions l) \<longleftrightarrow> light_on l)
   \<and> Light_get_special_init_conditions (snd (Light_perform_action (snd (Light_perform_action l))))
       = Light_get_special_init_conditions l
   \<and> light_on (snd (Light_perform_action l)) = (\<not> light_on l)"
  by (simp add: Light_perform_action_def Light_get_special_init_conditions_def Let_def)

section \<open>The television\<close>

text \<open>
  C10: for every TV, in any state, the \<open>tv-playing-channel\<close> predicate of that TV for a
  channel symbol is among its initial conditions if and only if the TV is on and the symbol
  is that of the current channel; and the action that turns an on TV off (the coin answers
  False) leaves the current channel as it was while the initial conditions of the TV keep
  neither \<open>tv-on\<close> nor any \<open>tv-playing-channel\<close> predicate: only the in-room predicate
  remains.
\<close>

theorem tv_channel_predicate_iff_on:
  "((''tv-playing-channel '' @ pddl_name t @ '' '' @ c) \<in> set (TV_get_init_conditions t)
      \<longleftrightarrow> tv_on t \<and> c = channel_pddl_name (curr_channel t))
   \<and> ((''tv-on '' @ pddl_name t) \<in> set (TV_get_init_conditions t) \<longleftrightarrow> tv_on t)
   \<and> TV_perform_action (t\<lparr>tv_on := True\<rparr>) (Suc (2 * k) # rs)
       = Some (''I turned off the TV in '' @ room_name (parent t) @ ''.'', t\<lparr>tv_on := False\<rparr>, rs)
   \<and> curr_channel (t\<lparr>tv_on := False\<rparr>) = curr_channel t
   \<and> TV_get_init_conditions (t\<lparr>tv_on := False\<rparr>) = StationaryItem_get_init_conditions t"
  by (simp add: TV_get_init_conditions_def TV_get_special_init_conditions_def
      TV_perform_action_def StationaryItem_get_init_conditions_def get_in_room_predicate_def)

section \<open>Actions keep the ownership invariant\<close>

lemma frame_refl [simp]: "frame w w"
  by (simp add: frame_def)

lemma frame_trans: "frame w w1 \<Longrightarrow> frame w1 w2 \<Longrightarrow> frame w w2"
  by (simp add: frame_def)

lemma frame_room_items: "frame w w' \<Longrightarrow> room_items w' = room_items w"
  by (simp add: frame_def room_items_def)

lemma MovableItem_perform_action_None:
  "MovableItem_perform_action r w = Inr (None, w') \<Longrightarrow> w' = w \<and> item (person w) \<noteq> None"
  by (auto simp: MovableItem_perform_action_def Let_def split: if_splits option.splits)

lemma MovableItem_perform_action_frame:
  "MovableItem_perform_action r w = Inr (a, w') \<Longrightarrow> frame w w'"
  by (auto simp: MovableItem_perform_action_def Let_def frame_def split: if_splits option.splits)

lemma MovableItem_perform_action_inv:
  assumes inv: "ownership_inv w" and r: "r \<in> set (movable_items w)"
    and act: "MovableItem_perform_action r w = Inr (a, w')"
  shows "ownership_inv w'"
proof (cases "item (person w)")
  case (Some i)
  with act have "w' = w"
    by (simp add: MovableItem_perform_action_def)
  with inv show ?thesis by simp
next
  case None
  with act obtain c where c: "container (movables w r) = Some c"
    and w': "w' = w\<lparr>person := (person w)\<lparr>item := Some r\<rparr>,
               movables := (movables w)(r := (movables w r)\<lparr>container := None, relative_location := None\<rparr>)\<rparr>"
    by (auto simp: MovableItem_perform_action_def Let_def split: option.splits)
  have others: "in_container w x" if "x \<in> set (movable_items w)" for x
    using inv that None by (auto simp: ownership_inv_def ownership_def held_def)
  show ?thesis
    unfolding ownership_inv_def
  proof (intro conjI ballI)
    show "case item (person w') of None \<Rightarrow> True | Some r \<Rightarrow> r \<in> set (movable_items w')"
      using r by (simp add: w')
  next
    fix x assume "x \<in> set (movable_items w')"
    then have x: "x \<in> set (movable_items w)" by (simp add: w')
    show "ownership w' x"
    proof (cases "x = r")
      case True
      then show ?thesis by (simp add: ownership_def held_def in_container_def w')
    next
      case False
      with others[OF x] show ?thesis
        by (auto simp: ownership_def held_def in_container_def w' room_items_def split: option.splits)
    qed
  qed
qed


lemma Container_perform_action_frame:
  "Container_perform_action c w rs = Some (Inr (a, w', rs')) \<Longrightarrow> frame w w'"
  by (auto simp: Container_perform_action_def Let_def frame_def
      split: if_splits option.splits sum.splits)

lemma Container_perform_action_inv:
  assumes inv: "ownership_inv w" and c: "c \<in> set (room_items w)"
    and act: "Container_perform_action c w rs = Some (Inr (a, w', rs'))"
  shows "ownership_inv w'"
proof (cases a)
  case None
  with act have "w' = w" by (auto dest: Container_perform_action_None)
  with inv show ?thesis by simp
next
  case (Some narration)
  with act obtain i loc info where i: "item (person w) = Some i"
    and hold: "can_hold (type_of (stationaries w c)) (movable_class (movables w i))"
    and w': "w' = w\<lparr>person := (person w)\<lparr>item := None\<rparr>,
               movables := (movables w)(i := (movables w i)\<lparr>container := Some c,
                 relative_location := Some loc, extra_location_info := info\<rparr>)\<rparr>"
    by (auto simp: Container_perform_action_def Let_def split: if_splits option.splits sum.splits)
  have others: "in_container w x" if "x \<in> set (movable_items w)" "x \<noteq> i" for x
    using inv that i by (auto simp: ownership_inv_def ownership_def held_def)
  show ?thesis
    unfolding ownership_inv_def
  proof (intro conjI ballI)
    show "case item (person w') of None \<Rightarrow> True | Some r \<Rightarrow> r \<in> set (movable_items w')"
      by (simp add: w')
  next
    fix x assume "x \<in> set (movable_items w')"
    then have x: "x \<in> set (movable_items w)" by (simp add: w')
    show "ownership w' x"
    proof (cases "x = i")
      case True
      with hold c show ?thesis
        by (simp add: ownership_def held_def in_container_def w' room_items_def)
    next
      case False
      with others[OF x] show ?thesis
        by (auto simp: ownership_def held_def in_container_def w' room_items_def split: option.splits)
    qed
  qed
qed

lemma ownership_inv_cong:
  assumes "ownership_inv w" "rooms w' = rooms w" "movable_items w' = movable_items w"
    "item (person w') = item (person w)"
    "\<And>c. type_of (stationaries w' c) = type_of (stationaries w c)"
    "\<And>r. movable_class (movables w' r) = movable_class (movables w r)"
    "\<And>r. container (movables w' r) = container (movables w r)"
  shows "ownership_inv w'"
  using assms
  by (auto simp: ownership_inv_def ownership_def held_def in_container_def room_items_def
      split: option.splits)

lemma Phone_interact_frame: "Phone_interact r w = (a, w') \<Longrightarrow> frame w w'"
  by (auto simp: Phone_interact_def Let_def frame_def)

lemma Phone_interact_inv:
  "ownership_inv w \<Longrightarrow> Phone_interact r w = (a, w') \<Longrightarrow> ownership_inv w'"
  by (erule ownership_inv_cong) (auto simp: Phone_interact_def Let_def)

lemma Sink_interact_at_frame: "Sink_interact_at c w = Inr (a, w') \<Longrightarrow> frame w w'"
  by (auto simp: Sink_interact_at_def Sink_interact_def Let_def frame_def base_def
      split: stationary.splits)

lemma Sink_interact_at_inv:
  "ownership_inv w \<Longrightarrow> Sink_interact_at c w = Inr (a, w') \<Longrightarrow> ownership_inv w'"
  by (erule ownership_inv_cong)
    (auto simp: Sink_interact_at_def Sink_interact_def Let_def split: stationary.splits)

lemma MovableInteractable_perform_action_inv:
  "ownership_inv w \<Longrightarrow> r \<in> set (movable_items w) \<Longrightarrow>
   MovableInteractable_perform_action r w rs = Some (Inr (a, w', rs')) \<Longrightarrow>
   ownership_inv w' \<and> frame w w'"
proof (induction r w rs rule: MovableInteractable_perform_action.induct)
  case (1 r w)
  then show ?case by simp
next
  case (2 r w d rs)
  show ?case
  proof (cases "coin d")
    case True
    with 2 show ?thesis
      by (auto split: prod.splits dest: Phone_interact_inv Phone_interact_frame)
  next
    case False
    with 2 show ?thesis
      by (auto split: sum.splits option.splits prod.splits
          dest: MovableItem_perform_action_inv MovableItem_perform_action_frame
                MovableItem_perform_action_None)
  qed
qed

lemma movable_perform_action_inv:
  "ownership_inv w \<Longrightarrow> r \<in> set (movable_items w) \<Longrightarrow>
   movable_perform_action r w rs = Some (Inr (a, w', rs')) \<Longrightarrow>
   ownership_inv w' \<and> frame w w'"
  by (auto simp: movable_perform_action_def split: if_splits sum.splits
      dest: MovableInteractable_perform_action_inv MovableItem_perform_action_inv
            MovableItem_perform_action_frame)

lemma InteractableContainer_perform_action_inv:
  "ownership_inv w \<Longrightarrow> c \<in> set (room_items w) \<Longrightarrow>
   InteractableContainer_perform_action c w rs = Some (Inr (a, w', rs')) \<Longrightarrow>
   ownership_inv w' \<and> frame w w'"
proof (induction c w rs rule: InteractableContainer_perform_action.induct)
  case (1 c w)
  then show ?case by simp
next
  case (2 c w d rs)
  show ?case
  proof (cases "coin d")
    case True
    with 2 show ?thesis
      by (auto split: sum.splits prod.splits dest: Sink_interact_at_inv Sink_interact_at_frame)
  next
    case False
    with 2 show ?thesis
      by (auto split: sum.splits option.splits prod.splits
          dest: Container_perform_action_inv Container_perform_action_frame
                Container_perform_action_None)
  qed
qed

lemma stationary_perform_action_inv:
  assumes "ownership_inv w" "c \<in> set (room_items w)"
    "stationary_perform_action c w rs = Some (Inr (a, w', rs'))"
  shows "ownership_inv w' \<and> frame w w'"
proof (cases "stationaries w c")
  case (TableObj x)
  with assms show ?thesis
    by (auto simp: stationary_perform_action_def
        dest: Container_perform_action_inv Container_perform_action_frame)
next
  case (ShelfObj x)
  with assms show ?thesis
    by (auto simp: stationary_perform_action_def
        dest: Container_perform_action_inv Container_perform_action_frame)
next
  case (FridgeObj x)
  with assms show ?thesis
    by (auto simp: stationary_perform_action_def
        dest: Container_perform_action_inv Container_perform_action_frame)
next
  case (SinkObj x)
  with assms show ?thesis
    by (auto simp: stationary_perform_action_def dest: InteractableContainer_perform_action_inv)
next
  case (WindowObj x)
  with assms have w': "w' = w\<lparr>stationaries := (stationaries w)(c := WindowObj (snd (Window_perform_action x)))\<rparr>"
    by (auto simp: stationary_perform_action_def split: prod.splits)
  have "frame w w'"
    using WindowObj by (simp add: w' frame_def Window_perform_action_def Let_def base_def)
  moreover have "ownership_inv w'"
    using assms(1) by (rule ownership_inv_cong) (use WindowObj in \<open>auto simp: w'\<close>)
  ultimately show ?thesis by simp
next
  case (LightObj x)
  with assms have w': "w' = w\<lparr>stationaries := (stationaries w)(c := LightObj (snd (Light_perform_action x)))\<rparr>"
    by (auto simp: stationary_perform_action_def split: prod.splits)
  have "frame w w'"
    using LightObj by (simp add: w' frame_def Light_perform_action_def Let_def base_def)
  moreover have "ownership_inv w'"
    using assms(1) by (rule ownership_inv_cong) (use LightObj in \<open>auto simp: w'\<close>)
  ultimately show ?thesis by simp
next
  case (TVObj x)
  with assms obtain x' where w': "w' = w\<lparr>stationaries := (stationaries w)(c := TVObj x')\<rparr>"
    and x': "base x' = base x"
    by (auto simp: stationary_perform_action_def TV_perform_action_def base_def
        split: option.splits prod.splits if_splits)
  have "frame w w'"
    using TVObj x' by (simp add: w' frame_def)
  moreover have "ownership_inv w'"
    using assms(1) by (rule ownership_inv_cong) (use TVObj in \<open>auto simp: w'\<close>)
  ultimately show ?thesis by simp
qed


section \<open>The shuffle is a permutation\<close>

lemma shuffle_loop_mset:
  "shuffle_loop i xs rs = Some (ys, rs') \<Longrightarrow> i < length xs \<Longrightarrow> mset ys = mset xs"
proof (induction i arbitrary: xs rs)
  case 0
  then show ?case by simp
next
  case (Suc i)
  from Suc.prems obtain j rs1 where j: "randbelow (Suc (Suc i)) rs = Some (j, rs1)"
    and rest: "shuffle_loop i (xs[Suc i := xs ! j, j := xs ! Suc i]) rs1 = Some (ys, rs')"
    by (auto split: option.splits)
  from j have "j < Suc (Suc i)" by (auto dest!: randbelow_Some)
  with Suc.prems have jl: "j < length xs" by simp
  from Suc.IH[OF rest] Suc.prems have "mset ys = mset (xs[Suc i := xs ! j, j := xs ! Suc i])"
    by simp
  also have "\<dots> = mset xs"
    using jl Suc.prems(2) by (simp add: mset_swap)
  finally show ?case .
qed

lemma shuffle_mset: "shuffle xs rs = Some (ys, rs') \<Longrightarrow> mset ys = mset xs"
proof (cases xs)
  case Nil
  then show "shuffle xs rs = Some (ys, rs') \<Longrightarrow> mset ys = mset xs"
    by (simp add: shuffle_def)
next
  case (Cons x xs')
  then show "shuffle xs rs = Some (ys, rs') \<Longrightarrow> mset ys = mset xs"
    by (auto simp: shuffle_def dest: shuffle_loop_mset)
qed

lemma shuffle_set: "shuffle xs rs = Some (ys, rs') \<Longrightarrow> set ys = set xs"
  by (metis shuffle_mset set_mset_mset)

section \<open>The state-change generator keeps the ownership invariant\<close>

lemma Room_try_items_inv:
  "ownership_inv w \<Longrightarrow> set cs \<subseteq> set (room_items w) \<Longrightarrow>
   Room_try_items cs w rs = Some (Inr (a, w', rs')) \<Longrightarrow>
   ownership_inv w' \<and> frame w w'"
proof (induction cs arbitrary: w rs)
  case Nil
  then show ?case by simp
next
  case (Cons c cs)
  from Cons.prems(3) obtain a1 w1 rs1 where
    first: "stationary_perform_action c w rs = Some (Inr (a1, w1, rs1))"
    by (auto split: option.splits sum.splits)
  from Cons.prems first have s1: "ownership_inv w1 \<and> frame w w1"
    by (auto dest: stationary_perform_action_inv)
  show ?case
  proof (cases a1)
    case (Some t)
    with Cons.prems(3) first s1 show ?thesis by auto
  next
    case None
    with Cons.prems(3) first have rest: "Room_try_items cs w1 rs1 = Some (Inr (a, w', rs'))"
      by simp
    from s1 Cons.prems(2) have "set cs \<subseteq> set (room_items w1)"
      by (auto simp: frame_room_items)
    from Cons.IH[OF _ this rest] s1 show ?thesis
      by (auto intro: frame_trans)
  qed
qed

lemma Room_perform_action_inv:
  assumes "ownership_inv w" "room \<in> set (rooms w)"
    "Room_perform_action room w rs = Some (Inr (a, w', rs'))"
  shows "ownership_inv w' \<and> frame w w'"
proof -
  from assms(3) obtain us rs1 where sh: "shuffle (items room) rs = Some (us, rs1)"
    and t: "Room_try_items (rev us) w rs1 = Some (Inr (a, w', rs'))"
    by (auto simp: Room_perform_action_def split: option.splits)
  from sh assms(2) have "set (rev us) \<subseteq> set (room_items w)"
    by (auto simp: room_items_def dest: shuffle_set)
  from Room_try_items_inv[OF assms(1) this t] show ?thesis .
qed

lemma pop_at_set:
  "i < length xs \<Longrightarrow> fst (pop_at i xs) \<in> set xs \<and> set (snd (pop_at i xs)) \<subseteq> set xs"
  by (auto simp: pop_at_def dest: in_set_takeD in_set_dropD)

lemma try_room_inv:
  assumes "ownership_inv w" "set ur \<subseteq> set (rooms w)"
    "try_room ur w rs = Some (Inr (a, ur', w', rs'))"
  shows "ownership_inv w' \<and> frame w w' \<and> set ur' \<subseteq> set ur"
proof (cases "ur = []")
  case True
  with assms show ?thesis by (simp add: try_room_def)
next
  case False
  from assms(3) False obtain b rs1 where b: "choice_bool rs = Some (b, rs1)"
    by (auto simp: try_room_def split: option.splits)
  show ?thesis
  proof (cases b)
    case False
    with assms \<open>ur \<noteq> []\<close> b show ?thesis by (auto simp: try_room_def)
  next
    case True
    with assms(3) \<open>ur \<noteq> []\<close> b obtain i rs2 where
      i: "randbelow (length ur) rs1 = Some (i, rs2)"
      and act: "Room_perform_action (fst (pop_at i ur)) w rs2 = Some (Inr (a, w', rs'))"
      and ur': "ur' = snd (pop_at i ur)"
      by (auto simp: try_room_def split: option.splits sum.splits prod.splits)
    from i \<open>ur \<noteq> []\<close> have "i < length ur" by (auto dest!: randbelow_Some)
    then have "fst (pop_at i ur) \<in> set ur" "set (snd (pop_at i ur)) \<subseteq> set ur"
      using pop_at_set by blast+
    with assms(1,2) act ur' show ?thesis
      by (auto dest: Room_perform_action_inv)
  qed
qed

lemma try_movable_inv:
  assumes "ownership_inv w" "set um \<subseteq> set (movable_items w)"
    "try_movable um w rs = Some (Inr (a, um', w', rs'))"
  shows "ownership_inv w' \<and> frame w w' \<and> set um' \<subseteq> set um"
proof (cases "um = []")
  case True
  with assms show ?thesis by (simp add: try_movable_def)
next
  case False
  with assms(3) obtain i rs1 where
    i: "randbelow (length um) rs = Some (i, rs1)"
    and act: "movable_perform_action (fst (pop_at i um)) w rs1 = Some (Inr (a, w', rs'))"
    and um': "um' = snd (pop_at i um)"
    by (auto simp: try_movable_def split: option.splits sum.splits prod.splits)
  from i False have "i < length um" by (auto dest!: randbelow_Some)
  then have "fst (pop_at i um) \<in> set um" "set (snd (pop_at i um)) \<subseteq> set um"
    using pop_at_set by blast+
  with assms(1,2) act um' show ?thesis
    by (auto dest: movable_perform_action_inv)
qed

lemma gsc_loop_inv:
  "ownership_inv w \<Longrightarrow> set ur \<subseteq> set (rooms w) \<Longrightarrow> set um \<subseteq> set (movable_items w) \<Longrightarrow>
   gsc_loop ur um w rs = Some (Inr (a, w', rs')) \<Longrightarrow>
   ownership_inv w' \<and> frame w w'"
proof (induction ur um w rs rule: gsc_loop.induct)
  case (1 ur um w rs)
  from "1.prems"(4) obtain a1 ur1 w1 rs1 where
    tr: "try_room ur w rs = Some (Inr (a1, ur1, w1, rs1))"
    by (subst (asm) gsc_loop.simps) (auto split: if_splits option.splits sum.splits)
  from try_room_inv[OF "1.prems"(1,2) tr]
  have s1: "ownership_inv w1" "frame w w1" "set ur1 \<subseteq> set ur" by auto
  show ?case
  proof (cases a1)
    case (Some t)
    with "1.prems"(4) tr s1 show ?thesis
      by (subst (asm) gsc_loop.simps) (auto split: if_splits)
  next
    case None
    with "1.prems"(4) tr obtain a2 um2 w2 rs2 where
      tm: "try_movable um w1 rs1 = Some (Inr (a2, um2, w2, rs2))"
      by (subst (asm) gsc_loop.simps) (auto split: if_splits option.splits sum.splits)
    from s1 "1.prems"(3) have "set um \<subseteq> set (movable_items w1)"
      by (simp add: frame_def)
    from try_movable_inv[OF s1(1) this tm]
    have s2: "ownership_inv w2" "frame w1 w2" "set um2 \<subseteq> set um" by auto
    show ?thesis
    proof (cases a2)
      case (Some t)
      with "1.prems"(4) tr tm None s1 s2 show ?thesis
        by (subst (asm) gsc_loop.simps) (auto split: if_splits intro: frame_trans)
    next
      case a2None: None
      with "1.prems"(4) tr tm None have
        rest: "gsc_loop ur1 um2 w2 rs2 = Some (Inr (a, w', rs'))"
        and ne: "\<not> \<not> (0 < length ur \<or> 0 < length um)"
        by (subst (asm) gsc_loop.simps, auto split: if_splits)+
      have f02: "frame w w2" using s1 s2 by (auto intro: frame_trans)
      then have sub: "set ur1 \<subseteq> set (rooms w2)" "set um2 \<subseteq> set (movable_items w2)"
        using s1 s2 "1.prems"(2,3) by (auto simp: frame_def)
      from tr None have tr': "try_room ur w rs = Some (Inr (None, ur1, w1, rs1))" by simp
      from tm a2None have tm': "try_movable um w1 rs1 = Some (Inr (None, um2, w2, rs2))" by simp
      from "1.IH"[OF ne tr' refl refl refl refl refl tm' refl refl refl refl refl s2(1) sub rest]
      show ?thesis using f02 by (auto intro: frame_trans)
    qed
  qed
qed

lemma generate_state_change_inv:
  "ownership_inv w \<Longrightarrow> generate_state_change w rs = Some (Inr (a, w', rs')) \<Longrightarrow>
   ownership_inv w' \<and> frame w w'"
  unfolding generate_state_change_def by (rule gsc_loop_inv) auto




section \<open>Placement at generation time\<close>

lemma shuffle_distinct: "shuffle xs rs = Some (ys, rs') \<Longrightarrow> distinct ys = distinct xs"
  by (metis shuffle_mset mset_eq_imp_distinct_iff)

lemma shuffle_length: "shuffle xs rs = Some (ys, rs') \<Longrightarrow> length ys = length xs"
  by (metis shuffle_mset mset_eq_length)

lemma choose_items_length:
  "choose_items h its ch m = (its', ch') \<Longrightarrow> length ch \<le> m \<Longrightarrow> length ch' \<le> m"
proof (induction h its ch m rule: choose_items.induct)
  case (1 h its ch m)
  then show ?case
    by (subst (asm) (2) choose_items.simps) (auto split: if_splits)
qed

lemma choose_items_partition:
  "choose_items h its ch m = (its', ch') \<Longrightarrow>
   distinct its \<Longrightarrow> distinct h \<Longrightarrow> set h \<subseteq> set its \<Longrightarrow> distinct ch \<Longrightarrow> set ch \<inter> set its = {} \<Longrightarrow>
   distinct its' \<and> distinct ch' \<and> set ch' \<inter> set its' = {}
   \<and> set its' \<union> set ch' = set its \<union> set ch \<and> set ch' \<subseteq> set ch \<union> set h"
proof (induction h its ch m rule: choose_items.induct)
  case (1 h its ch m)
  show ?case
  proof (cases "length h > 0 \<and> length ch < m")
    case False
    with "1.prems" show ?thesis
      by (subst (asm) choose_items.simps) auto
  next
    case True
    then have hne: "h \<noteq> []" by auto
    let ?x = "last h"
    from hne have xh: "?x \<in> set h" by simp
    with "1.prems" have xi: "?x \<in> set its" by auto
    from True "1.prems"(1) have rec:
      "choose_items (butlast h) (remove1 ?x its) (ch @ [?x]) m = (its', ch')"
      by (subst (asm) choose_items.simps) simp
    have d1: "distinct (remove1 ?x its)" using "1.prems"(2) by simp
    have d2: "distinct (butlast h)" using "1.prems"(3) by (simp add: distinct_butlast)
    have xnb: "?x \<notin> set (butlast h)"
      using "1.prems"(3) hne by (metis append_butlast_last_id distinct_append disjoint_iff list.set_intros(1))
    have s1: "set (butlast h) \<subseteq> set (remove1 ?x its)"
      using "1.prems"(2,4) xnb by (auto dest: in_set_butlastD)
    have d3: "distinct (ch @ [?x])" using "1.prems"(5,6) xi by auto
    have s2: "set (ch @ [?x]) \<inter> set (remove1 ?x its) = {}"
      using "1.prems"(2,6) by auto
    from "1.IH"[OF True rec d1 d2 s1 d3 s2]
    have IH: "distinct its'" "distinct ch'" "set ch' \<inter> set its' = {}"
      "set its' \<union> set ch' = set (remove1 ?x its) \<union> set (ch @ [?x])"
      "set ch' \<subseteq> set (ch @ [?x]) \<union> set (butlast h)"
      by auto
    have "set (remove1 ?x its) \<union> set (ch @ [?x]) = set its \<union> set ch"
      using "1.prems"(2) xi by auto
    moreover have "set (ch @ [?x]) \<union> set (butlast h) \<subseteq> set ch \<union> set h"
      using xh by (auto dest: in_set_butlastD)
    ultimately show ?thesis using IH by auto
  qed
qed

lemma generate_relative_location_level:
  assumes "generate_relative_location (ShelfObj s) rs = Some (Inr (loc, info, rs'))"
  shows "\<exists>level. 1 \<le> level \<and> level \<le> levels s
           \<and> info ''level'' = Some (PyInt (int level))
           \<and> info ''pddl_level'' = Some (PyStr (get_level_name level))
           \<and> loc = ''on the '' @ integer_to_ordinal level @ '' level of''"
proof -
  from assms have pos: "0 < levels s" by (auto split: if_splits)
  with assms obtain i where i: "randbelow (levels s) rs = Some (i, rs')"
    and info: "info = [''level'' \<mapsto> PyInt (int (i + 1)), ''pddl_level'' \<mapsto> PyStr (get_level_name (i + 1))]"
    and loc: "loc = ''on the '' @ integer_to_ordinal (i + 1) @ '' level of''"
    by (auto simp: Let_def split: option.splits)
  from i pos have "i < levels s" by (auto dest!: randbelow_Some)
  then have "1 \<le> i + 1 \<and> i + 1 \<le> levels s" by simp
  with info loc show ?thesis
    by (intro exI[of _ "i + 1"]) simp
qed

lemma assign_locations_effect:
  "assign_locations c cobj chosen mov rs = Some (Inr (mov', rs')) \<Longrightarrow>
   (\<forall>r. r \<notin> set chosen \<longrightarrow> mov' r = mov r)
   \<and> (\<forall>r. movable_class (mov' r) = movable_class (mov r) \<and> pddl_name (mov' r) = pddl_name (mov r))
   \<and> (\<forall>r \<in> set chosen. container (mov' r) = Some c
         \<and> (\<exists>loc info rs1 rs2. generate_relative_location cobj rs1 = Some (Inr (loc, info, rs2))
               \<and> relative_location (mov' r) = Some loc \<and> extra_location_info (mov' r) = info))"
proof (induction chosen arbitrary: mov rs)
  case Nil
  then show ?case by simp
next
  case (Cons i chosen)
  from Cons.prems obtain loc info rs1 where
    g: "generate_relative_location cobj rs = Some (Inr (loc, info, rs1))"
    and rest: "assign_locations c cobj chosen
         (mov(i := (mov i)\<lparr>container := Some c, relative_location := Some loc,
                            extra_location_info := info\<rparr>)) rs1 = Some (Inr (mov', rs'))"
    by (auto split: option.splits sum.splits)
  let ?mov1 = "mov(i := (mov i)\<lparr>container := Some c, relative_location := Some loc,
                            extra_location_info := info\<rparr>)"
  from Cons.IH[OF rest] have IH:
    "\<forall>r. r \<notin> set chosen \<longrightarrow> mov' r = ?mov1 r"
    "\<forall>r. movable_class (mov' r) = movable_class (?mov1 r) \<and> pddl_name (mov' r) = pddl_name (?mov1 r)"
    "\<forall>r \<in> set chosen. container (mov' r) = Some c
         \<and> (\<exists>loc info rs1 rs2. generate_relative_location cobj rs1 = Some (Inr (loc, info, rs2))
               \<and> relative_location (mov' r) = Some loc \<and> extra_location_info (mov' r) = info)"
    by blast+
  have "container (mov' i) = Some c
         \<and> (\<exists>loc info rs1 rs2. generate_relative_location cobj rs1 = Some (Inr (loc, info, rs2))
               \<and> relative_location (mov' i) = Some loc \<and> extra_location_info (mov' i) = info)"
  proof (cases "i \<in> set chosen")
    case True
    with IH(3) show ?thesis by blast
  next
    case False
    with IH(1) have "mov' i = ?mov1 i" by blast
    with g show ?thesis by auto
  qed
  with IH show ?case by auto
qed

lemma generate_empty_type:
  "generate_empty cls p rs = Some (Inr (cobj, rs')) \<Longrightarrow>
   type_of cobj = cls \<and> is_container cls \<and> parent (stationary_base cobj) = p
   \<and> pddl_name (stationary_base cobj) = StationaryItem_pddl_name (name (stationary_base cobj)) p
   \<and> (\<forall>s. cobj = ShelfObj s \<longrightarrow> MIN_LEVELS \<le> levels s \<and> levels s \<le> MAX_LEVELS)"
  by (cases cls)
     (auto simp: StationaryItem_def base_def randint_def MIN_LEVELS_def MAX_LEVELS_def
       split: option.splits dest!: randbelow_Some)


lemma Container_generate_instance_effect:
  assumes gen: "Container_generate_instance cls p its max_allowed c mov rs
                  = Some (Inr (cobj, its', chosen_items, mov', rs'))"
    and dist: "distinct its"
  shows "length chosen_items \<le> max_allowed
    \<and> distinct chosen_items
    \<and> (\<forall>i \<in> set chosen_items.
          can_hold (type_of cobj) (movable_class (mov' i))
          \<and> i \<in> set its \<and> i \<notin> set its' \<and> container (mov' i) = Some c)
    \<and> set its' = set its - set chosen_items \<and> distinct its'
    \<and> (\<forall>i. i \<notin> set chosen_items \<longrightarrow> mov' i = mov i)
    \<and> (\<forall>s. cobj = ShelfObj s \<longrightarrow>
          MIN_LEVELS \<le> levels s \<and> levels s \<le> MAX_LEVELS
          \<and> (\<forall>i \<in> set chosen_items. \<exists>level. 1 \<le> level \<and> level \<le> levels s
                \<and> extra_location_info (mov' i) ''level'' = Some (PyInt (int level))
                \<and> extra_location_info (mov' i) ''pddl_level'' = Some (PyStr (get_level_name level))))"
proof -
  let ?hold = "filter (\<lambda>i. can_hold cls (movable_class (mov i))) its"
  from gen obtain holdables rs1 rs2 rs3 described where
    sh: "shuffle ?hold rs = Some (holdables, rs1)"
    and ch: "choose_items holdables its [] max_allowed = (its', chosen_items)"
    and ge: "generate_empty cls p rs1 = Some (Inr (cobj, rs2))"
    and al: "assign_locations c cobj chosen_items mov rs2 = Some (Inr (mov', rs3))"
    by (auto simp: Container_generate_instance_def split: option.splits sum.splits prod.splits)
  from sh have hset: "set holdables = set ?hold" and hdist: "distinct holdables"
    using dist by (auto dest: shuffle_set shuffle_distinct)
  from choose_items_length[OF ch] have len: "length chosen_items \<le> max_allowed" by simp
  from choose_items_partition[OF ch dist hdist] hset
  have part: "distinct its'" "distinct chosen_items" "set chosen_items \<inter> set its' = {}"
    "set its' \<union> set chosen_items = set its" "set chosen_items \<subseteq> set holdables"
    by auto
  from assign_locations_effect[OF al]
  have same: "\<forall>r. r \<notin> set chosen_items \<longrightarrow> mov' r = mov r"
    and cls_same: "\<forall>r. movable_class (mov' r) = movable_class (mov r)"
    and placed: "\<forall>r \<in> set chosen_items. container (mov' r) = Some c
         \<and> (\<exists>loc info rs1 rs2. generate_relative_location cobj rs1 = Some (Inr (loc, info, rs2))
               \<and> relative_location (mov' r) = Some loc \<and> extra_location_info (mov' r) = info)"
    by blast+
  from generate_empty_type[OF ge] have ty: "type_of cobj = cls"
    and lv: "\<forall>s. cobj = ShelfObj s \<longrightarrow> MIN_LEVELS \<le> levels s \<and> levels s \<le> MAX_LEVELS"
    by auto
  have each: "\<forall>i \<in> set chosen_items.
          can_hold (type_of cobj) (movable_class (mov' i))
          \<and> i \<in> set its \<and> i \<notin> set its' \<and> container (mov' i) = Some c"
    using part hset ty cls_same placed by auto
  have rest: "set its' = set its - set chosen_items"
    using part by auto
  have shelf: "\<forall>s. cobj = ShelfObj s \<longrightarrow>
          MIN_LEVELS \<le> levels s \<and> levels s \<le> MAX_LEVELS
          \<and> (\<forall>i \<in> set chosen_items. \<exists>level. 1 \<le> level \<and> level \<le> levels s
                \<and> extra_location_info (mov' i) ''level'' = Some (PyInt (int level))
                \<and> extra_location_info (mov' i) ''pddl_level'' = Some (PyStr (get_level_name level)))"
  proof (intro allI impI conjI ballI)
    fix s assume s: "cobj = ShelfObj s"
    with lv show "MIN_LEVELS \<le> levels s" "levels s \<le> MAX_LEVELS" by auto
    fix i assume "i \<in> set chosen_items"
    with placed obtain loc info ra rb where
      "generate_relative_location cobj ra = Some (Inr (loc, info, rb))"
      "extra_location_info (mov' i) = info"
      by blast
    with s generate_relative_location_level[of s ra loc info rb]
    show "\<exists>level. 1 \<le> level \<and> level \<le> levels s
                \<and> extra_location_info (mov' i) ''level'' = Some (PyInt (int level))
                \<and> extra_location_info (mov' i) ''pddl_level'' = Some (PyStr (get_level_name level))"
      by auto
  qed
  from len part(1,2) each rest same shelf show ?thesis by blast
qed


section \<open>The assertion of the pick-up\<close>

lemma MovableItem_perform_action_no_assert:
  assumes "ownership_inv w" "r \<in> set (movable_items w)"
  shows "MovableItem_perform_action r w \<noteq> Inl e"
proof (cases "item (person w)")
  case (Some i)
  then show ?thesis by (simp add: MovableItem_perform_action_def)
next
  case None
  with assms have "in_container w r"
    by (auto simp: ownership_inv_def ownership_def held_def)
  then obtain c where "container (movables w r) = Some c"
    by (auto simp: in_container_def split: option.splits)
  then show ?thesis
    by (simp add: MovableItem_perform_action_def Let_def)
qed

lemma MovableInteractable_perform_action_no_assert:
  "ownership_inv w \<Longrightarrow> r \<in> set (movable_items w) \<Longrightarrow>
   MovableInteractable_perform_action r w rs \<noteq> Some (Inl e)"
proof (induction r w rs rule: MovableInteractable_perform_action.induct)
  case (1 r w)
  then show ?case by simp
next
  case (2 r w d rs)
  show ?case
  proof (cases "coin d")
    case True
    then show ?thesis by (auto split: prod.splits)
  next
    case False
    show ?thesis
    proof (cases "MovableItem_perform_action r w")
      case (Inl e')
      with MovableItem_perform_action_no_assert[OF "2.prems", of e'] show ?thesis by simp
    next
      case (Inr res)
      obtain a w' where res: "res = (a, w')" by (cases res)
      show ?thesis
      proof (cases a)
        case (Some t)
        with False Inr res show ?thesis by simp
      next
        case None
        with Inr res have "w' = w" by (auto dest: MovableItem_perform_action_None)
        with "2.IH"[OF False Inr _ _ "2.prems"(1)] "2.prems"(2) False Inr res None
        show ?thesis by simp
      qed
    qed
  qed
qed

lemma movable_perform_action_no_assert:
  "ownership_inv w \<Longrightarrow> r \<in> set (movable_items w) \<Longrightarrow> movable_perform_action r w rs \<noteq> Some (Inl e)"
  using MovableItem_perform_action_no_assert[of w r] MovableInteractable_perform_action_no_assert[of w r]
  by (auto simp: movable_perform_action_def split: sum.splits)

lemma generate_relative_location_no_assert:
  "generate_relative_location x rs \<noteq> Some (Inl (AssertionError s))"
  by (cases x) (auto split: option.splits)

lemma Container_perform_action_no_assert:
  "Container_perform_action c w rs \<noteq> Some (Inl (AssertionError s))"
  using generate_relative_location_no_assert
  by (auto simp: Container_perform_action_def Let_def split: option.splits sum.splits)

lemma InteractableContainer_perform_action_no_assert:
  "InteractableContainer_perform_action c w rs \<noteq> Some (Inl (AssertionError s))"
proof (induction c w rs rule: InteractableContainer_perform_action.induct)
  case (1 c w)
  then show ?case by simp
next
  case (2 c w d rs)
  show ?case
  proof (cases "coin d")
    case True
    then show ?thesis
      by (auto simp: Sink_interact_at_def split: sum.splits prod.splits stationary.splits)
  next
    case False
    with 2 Container_perform_action_no_assert[of c w rs s] show ?thesis
      by (auto split: option.splits sum.splits)
  qed
qed

lemma stationary_perform_action_no_assert:
  "stationary_perform_action c w rs \<noteq> Some (Inl (AssertionError s))"
  using Container_perform_action_no_assert[of c w rs s]
    InteractableContainer_perform_action_no_assert[of c w rs s]
  by (auto simp: stationary_perform_action_def split: stationary.splits prod.splits option.splits)

lemma Room_try_items_no_assert:
  "Room_try_items cs w rs \<noteq> Some (Inl (AssertionError s))"
proof (induction cs arbitrary: w rs)
  case Nil
  then show ?case by simp
next
  case (Cons c cs)
  with stationary_perform_action_no_assert[of c w rs s] show ?case
    by (auto split: option.splits sum.splits)
qed

lemma try_room_no_assert:
  "try_room ur w rs \<noteq> Some (Inl (AssertionError s))"
  using Room_try_items_no_assert
  by (auto simp: try_room_def Room_perform_action_def split: option.splits sum.splits prod.splits)

lemma try_movable_no_assert:
  assumes "ownership_inv w" "set um \<subseteq> set (movable_items w)"
  shows "try_movable um w rs \<noteq> Some (Inl e)"
proof (cases "um = []")
  case True
  then show ?thesis by (simp add: try_movable_def)
next
  case False
  show ?thesis
  proof
    assume e: "try_movable um w rs = Some (Inl e)"
    with False obtain i rs1 where i: "randbelow (length um) rs = Some (i, rs1)"
      and act: "movable_perform_action (fst (pop_at i um)) w rs1 = Some (Inl e)"
      by (auto simp: try_movable_def split: option.splits prod.splits sum.splits)
    from i False have "i < length um" by (auto dest!: randbelow_Some)
    then have "fst (pop_at i um) \<in> set um" using pop_at_set by blast
    with assms act movable_perform_action_no_assert show False by blast
  qed
qed

lemma gsc_loop_no_pick_up_assert:
  "ownership_inv w \<Longrightarrow> set ur \<subseteq> set (rooms w) \<Longrightarrow> set um \<subseteq> set (movable_items w) \<Longrightarrow>
   gsc_loop ur um w rs \<noteq> Some (Inl (AssertionError ''self.container is not None''))"
proof (induction ur um w rs rule: gsc_loop.induct)
  case (1 ur um w rs)
  let ?e = "AssertionError ''self.container is not None''"
  show ?case
  proof
    assume bad: "gsc_loop ur um w rs = Some (Inl ?e)"
    then have ne: "\<not> \<not> (0 < length ur \<or> 0 < length um)"
      by (subst (asm) gsc_loop.simps) (auto split: if_splits)
    from bad try_room_no_assert[of ur w rs] obtain ur1 w1 rs1 where
      tr: "try_room ur w rs = Some (Inr (None, ur1, w1, rs1))"
      by (subst (asm) gsc_loop.simps) (auto split: if_splits option.splits sum.splits)
    from try_room_inv[OF "1.prems"(1,2) tr]
    have s1: "ownership_inv w1" "frame w w1" "set ur1 \<subseteq> set ur" by auto
    from s1 "1.prems"(3) have um1: "set um \<subseteq> set (movable_items w1)"
      by (simp add: frame_def)
    from bad tr ne try_movable_no_assert[OF s1(1) um1] obtain um2 w2 rs2 where
      tm: "try_movable um w1 rs1 = Some (Inr (None, um2, w2, rs2))"
      and rest: "gsc_loop ur1 um2 w2 rs2 = Some (Inl ?e)"
      by (subst (asm) gsc_loop.simps) (auto split: if_splits option.splits sum.splits)
    from try_movable_inv[OF s1(1) um1 tm]
    have s2: "ownership_inv w2" "frame w1 w2" "set um2 \<subseteq> set um" by auto
    have "frame w w2" using s1 s2 by (auto intro: frame_trans)
    then have sub: "set ur1 \<subseteq> set (rooms w2)" "set um2 \<subseteq> set (movable_items w2)"
      using s1 s2 "1.prems"(2,3) by (auto simp: frame_def)
    from "1.IH"[OF ne tr refl refl refl refl refl tm refl refl refl refl refl s2(1) sub] rest
    show False by simp
  qed
qed


lemma example_world_ownership: "ownership_inv example_world"
  by (simp add: ownership_inv_def ownership_def held_def in_container_def example_world_def
      Person_def room_items_def Singleton_new_def MovableItem_def)

text \<open>
  C9: in a world where the held item, if any, is one of the generator's list and every item
  of the list is either held or in a container, whenever the hand is empty every item of the
  list has a container; so \<open>MovableItem.perform_action\<close> on an item of the list does not
  raise, and \<open>generate_state_change\<close> never ends in the assertion error of the pick-up.
\<close>

theorem pick_up_assertion_holds:
  assumes "ownership_inv w"
  shows "(item (person w) = None \<longrightarrow> (\<forall>r \<in> set (movable_items w). container (movables w r) \<noteq> None))
    \<and> (\<forall>r \<in> set (movable_items w). \<forall>e. MovableItem_perform_action r w \<noteq> Inl e)
    \<and> generate_state_change w rs \<noteq> Some (Inl (AssertionError ''self.container is not None''))"
proof (intro conjI impI ballI allI)
  fix r assume "item (person w) = None" "r \<in> set (movable_items w)"
  with assms have "in_container w r"
    by (auto simp: ownership_inv_def ownership_def held_def)
  then show "container (movables w r) \<noteq> None"
    by (auto simp: in_container_def split: option.splits)
next
  fix r e assume "r \<in> set (movable_items w)"
  with assms show "MovableItem_perform_action r w \<noteq> Inl e"
    by (rule MovableItem_perform_action_no_assert)
next
  show "generate_state_change w rs \<noteq> Some (Inl (AssertionError ''self.container is not None''))"
    unfolding generate_state_change_def
    using assms by (intro gsc_loop_no_pick_up_assert) auto
qed

theorem pick_up_assertion_holds_witness:
  "ownership_inv example_world
   \<and> item (person example_world) = None
   \<and> container (movables example_world 0) \<noteq> None
   \<and> MovableItem_perform_action 0 example_world \<noteq> Inl (AssertionError ''self.container is not None'')
   \<and> generate_state_change example_world [1, 0] \<noteq> Some (Inl (AssertionError ''self.container is not None''))"
proof -
  have m: "0 \<in> set (movable_items example_world)" and h: "item (person example_world) = None"
    by (simp_all add: example_world_def Person_def)
  from pick_up_assertion_holds[OF example_world_ownership, of "[1, 0]"] m h
  show ?thesis using example_world_ownership by blast
qed


text \<open>
  C7: when \<open>Container.generate_instance\<close> of a container class returns, for a shared list of
  unplaced items without repetition, the items assigned to the new container are at most
  \<open>max_allowed\<close> (the call in \<open>generate_with_description\<close> passes 2); each of them is of a
  class that the container's \<open>can_hold\<close> accepts, was in the shared list and is no longer in
  it (the list keeps exactly the items that were not chosen, so no item is drawn twice), and
  has the new container as its container; and when the container is a shelf, the level
  recorded for each assigned item is between 1 and the level count of that shelf, which is
  between 3 and 10.
\<close>

theorem generate_instance_capacity:
  assumes gen: "Container_generate_instance cls p its max_allowed c mov rs
                  = Some (Inr (cobj, its', chosen_items, mov', rs'))"
    and dist: "distinct its"
  shows "length chosen_items \<le> max_allowed
    \<and> distinct chosen_items
    \<and> (\<forall>i \<in> set chosen_items.
          can_hold (type_of cobj) (movable_class (mov' i))
          \<and> i \<in> set its \<and> i \<notin> set its' \<and> container (mov' i) = Some c)
    \<and> set its' = set its - set chosen_items \<and> distinct its'
    \<and> (\<forall>i. i \<notin> set chosen_items \<longrightarrow> mov' i = mov i)
    \<and> (\<forall>s. cobj = ShelfObj s \<longrightarrow>
          MIN_LEVELS \<le> levels s \<and> levels s \<le> MAX_LEVELS
          \<and> (\<forall>i \<in> set chosen_items. \<exists>level. 1 \<le> level \<and> level \<le> levels s
                \<and> extra_location_info (mov' i) ''level'' = Some (PyInt (int level))
                \<and> extra_location_info (mov' i) ''pddl_level'' = Some (PyStr (get_level_name level))))"
  using gen dist by (rule Container_generate_instance_effect)

theorem generate_instance_capacity_witness:
  "distinct [0, 1, 2, 3 :: nat]
   \<and> (\<exists>cobj its' chosen_items mov' rs'.
        Container_generate_instance Shelf example_kitchen [0, 1, 2, 3] 2 7 example_items
            [2, 0, 1, 4, 3, 0, 1] = Some (Inr (cobj, its', chosen_items, mov', rs'))
        \<and> length chosen_items \<le> 2 \<and> distinct chosen_items
        \<and> set its' = set [0, 1, 2, 3] - set chosen_items \<and> distinct its')"
proof -
  have d: "distinct [0, 1, 2, 3 :: nat]" by simp
  have f: "filter (\<lambda>i. can_hold Shelf (movable_class (example_items i))) [0, 1, 2, 3] = [0, 1, 2, 3]"
    by simp
  have s1: "shuffle [0, 1, 2, 3::nat] [2, 0, 1, 4, 3, 0, 1] = Some ([3, 1, 0, 2], [4, 3, 0, 1])"
    by code_simp
  have s2: "choose_items [3, 1, 0, 2] [0, 1, 2, 3] [] 2 = ([1, 3], [2, 0])"
    by code_simp
  have s3: "shuffle [2, 0::nat] [Suc 0] = Some ([2, 0], [])"
    by code_simp
  have "\<exists>x. Container_generate_instance Shelf example_kitchen [0, 1, 2, 3] 2 7 example_items
          [2, 0, 1, 4, 3, 0, 1] = Some (Inr x)"
    unfolding Container_generate_instance_def f s1 option.case prod.case s2
    by (simp add: s3 randint_def MIN_LEVELS_def MAX_LEVELS_def Let_def)
  then obtain cobj its' chosen_items mov' rs' where
    g: "Container_generate_instance Shelf example_kitchen [0, 1, 2, 3] 2 7 example_items
          [2, 0, 1, 4, 3, 0, 1] = Some (Inr (cobj, its', chosen_items, mov', rs'))"
    by (metis prod_cases5)
  from generate_instance_capacity[OF g d]
  have "length chosen_items \<le> 2" "distinct chosen_items"
    "set its' = set [0, 1, 2, 3] - set chosen_items" "distinct its'"
    by blast+
  with d g show ?thesis by blast
qed


section \<open>One state change is one action\<close>

lemma MovableInteractable_perform_action_one:
  "m \<in> set (movable_items w) \<Longrightarrow> movable_class (movables w m) = Phone \<Longrightarrow>
   MovableInteractable_perform_action m w rs = Some (Inr (a, w', rs')) \<Longrightarrow>
   \<exists>t. a = Some t \<and> one_action w t w'"
proof (induction m w rs rule: MovableInteractable_perform_action.induct)
  case (1 r w)
  then show ?case by simp
next
  case (2 r w d rs)
  show ?case
  proof (cases "coin d")
    case True
    with 2 show ?thesis
      by (auto split: prod.splits intro: one_action.phone)
  next
    case False
    show ?thesis
    proof (cases "MovableItem_perform_action r w")
      case (Inl e)
      with "2.prems" False show ?thesis by simp
    next
      case (Inr res)
      obtain a1 w1 where res: "res = (a1, w1)" by (cases res)
      show ?thesis
      proof (cases a1)
        case (Some t)
        with "2.prems" False Inr res show ?thesis
          by (auto intro: one_action.pick_up)
      next
        case None
        with Inr res have "w1 = w" by (auto dest: MovableItem_perform_action_None)
        with "2.IH"[OF False Inr _ _ ] "2.prems" False Inr res None
        show ?thesis by simp
      qed
    qed
  qed
qed

lemma movable_perform_action_one:
  assumes "m \<in> set (movable_items w)" "movable_perform_action m w rs = Some (Inr (a, w', rs'))"
  shows "case a of None \<Rightarrow> w' = w | Some t \<Rightarrow> one_action w t w'"
proof (cases "movable_class (movables w m) = Phone")
  case True
  with assms MovableInteractable_perform_action_one[of m w rs a w' rs'] show ?thesis
    by (auto simp: movable_perform_action_def)
next
  case False
  with assms show ?thesis
    by (auto simp: movable_perform_action_def split: sum.splits option.splits
        dest: MovableItem_perform_action_None intro: one_action.pick_up)
qed

lemma InteractableContainer_perform_action_one:
  "c \<in> set (room_items w) \<Longrightarrow>
   InteractableContainer_perform_action c w rs = Some (Inr (a, w', rs')) \<Longrightarrow>
   \<exists>t. a = Some t \<and> one_action w t w'"
proof (induction c w rs rule: InteractableContainer_perform_action.induct)
  case (1 c w)
  then show ?case by simp
next
  case (2 c w d rs)
  show ?case
  proof (cases "coin d")
    case True
    with 2 show ?thesis
      by (auto split: sum.splits prod.splits intro: one_action.faucet)
  next
    case False
    from "2.prems"(2) False obtain a1 w1 rs1 where
      cp: "Container_perform_action c w rs = Some (Inr (a1, w1, rs1))"
      by (auto split: option.splits sum.splits)
    show ?thesis
    proof (cases a1)
      case (Some t)
      with "2.prems" False cp show ?thesis
        by (auto intro: one_action.place)
    next
      case None
      with cp have same: "w1 = w" "rs1 = rs" by (auto dest: Container_perform_action_None)
      from cp None have cp': "Container_perform_action c w rs = Some (Inr (None, w1, rs1))" by simp
      from "2.IH"[OF False cp' refl refl refl refl] "2.prems" False cp None same
      show ?thesis by simp
    qed
  qed
qed

lemma stationary_perform_action_one:
  assumes "c \<in> set (room_items w)" "stationary_perform_action c w rs = Some (Inr (a, w', rs'))"
  shows "case a of None \<Rightarrow> w' = w | Some t \<Rightarrow> one_action w t w'"
proof (cases "stationaries w c")
  case (TableObj x)
  with assms show ?thesis
    by (auto simp: stationary_perform_action_def split: option.splits
        dest: Container_perform_action_None intro: one_action.place)
next
  case (ShelfObj x)
  with assms show ?thesis
    by (auto simp: stationary_perform_action_def split: option.splits
        dest: Container_perform_action_None intro: one_action.place)
next
  case (FridgeObj x)
  with assms show ?thesis
    by (auto simp: stationary_perform_action_def split: option.splits
        dest: Container_perform_action_None intro: one_action.place)
next
  case (SinkObj x)
  with assms InteractableContainer_perform_action_one[of c w rs a w' rs'] show ?thesis
    by (auto simp: stationary_perform_action_def)
next
  case (WindowObj x)
  with assms show ?thesis
    by (auto simp: stationary_perform_action_def split: prod.splits intro: one_action.blinds)
next
  case (LightObj x)
  with assms show ?thesis
    by (auto simp: stationary_perform_action_def split: prod.splits intro: one_action.light)
next
  case (TVObj x)
  with assms show ?thesis
    by (auto simp: stationary_perform_action_def split: prod.splits option.splits
        intro: one_action.tv)
qed

lemma Room_try_items_one:
  "set cs \<subseteq> set (room_items w) \<Longrightarrow> Room_try_items cs w rs = Some (Inr (a, w', rs')) \<Longrightarrow>
   (case a of None \<Rightarrow> w' = w | Some t \<Rightarrow> one_action w t w')"
proof (induction cs arbitrary: rs)
  case Nil
  then show ?case by simp
next
  case (Cons c cs)
  from Cons.prems(2) obtain a1 w1 rs1 where
    first: "stationary_perform_action c w rs = Some (Inr (a1, w1, rs1))"
    by (auto split: option.splits sum.splits)
  from Cons.prems(1) first have one: "case a1 of None \<Rightarrow> w1 = w | Some t \<Rightarrow> one_action w t w1"
    by (intro stationary_perform_action_one) auto
  show ?case
  proof (cases a1)
    case (Some t)
    with Cons.prems(2) first one show ?thesis by auto
  next
    case None
    with one have "w1 = w" by simp
    with Cons.prems first None Cons.IH[of rs1] show ?thesis by auto
  qed
qed

lemma try_room_one:
  assumes "set ur \<subseteq> set (rooms w)" "try_room ur w rs = Some (Inr (a, ur', w', rs'))"
  shows "case a of None \<Rightarrow> w' = w | Some t \<Rightarrow> one_action w t w'"
proof (cases "ur = []")
  case True
  with assms show ?thesis by (simp add: try_room_def)
next
  case False
  from assms(2) False obtain b rs1 where b: "choice_bool rs = Some (b, rs1)"
    by (auto simp: try_room_def split: option.splits)
  show ?thesis
  proof (cases b)
    case False
    with assms \<open>ur \<noteq> []\<close> b show ?thesis by (auto simp: try_room_def)
  next
    case True
    with assms(2) \<open>ur \<noteq> []\<close> b obtain i rs2 us rs3 where
      i: "randbelow (length ur) rs1 = Some (i, rs2)"
      and sh: "shuffle (items (fst (pop_at i ur))) rs2 = Some (us, rs3)"
      and act: "Room_try_items (rev us) w rs3 = Some (Inr (a, w', rs'))"
      by (auto simp: try_room_def Room_perform_action_def split: option.splits sum.splits prod.splits)
    from i \<open>ur \<noteq> []\<close> have "i < length ur" by (auto dest!: randbelow_Some)
    then have "fst (pop_at i ur) \<in> set ur" using pop_at_set by blast
    with assms(1) sh have "set (rev us) \<subseteq> set (room_items w)"
      by (auto simp: room_items_def dest: shuffle_set)
    from Room_try_items_one[OF this act] show ?thesis .
  qed
qed

lemma try_movable_one:
  assumes "set um \<subseteq> set (movable_items w)" "try_movable um w rs = Some (Inr (a, um', w', rs'))"
  shows "case a of None \<Rightarrow> w' = w | Some t \<Rightarrow> one_action w t w'"
proof (cases "um = []")
  case True
  with assms show ?thesis by (simp add: try_movable_def)
next
  case False
  with assms(2) obtain i rs1 where
    i: "randbelow (length um) rs = Some (i, rs1)"
    and act: "movable_perform_action (fst (pop_at i um)) w rs1 = Some (Inr (a, w', rs'))"
    by (auto simp: try_movable_def split: option.splits sum.splits prod.splits)
  from i False have "i < length um" by (auto dest!: randbelow_Some)
  then have "fst (pop_at i um) \<in> set um" using pop_at_set by blast
  with assms(1) have "fst (pop_at i um) \<in> set (movable_items w)" by auto
  from movable_perform_action_one[OF this act] show ?thesis .
qed

lemma try_room_subset:
  "try_room ur w rs = Some (Inr (a, ur', w', rs')) \<Longrightarrow> set ur' \<subseteq> set ur"
  by (cases rs)
     (auto simp: try_room_def pop_at_def split: if_splits option.splits sum.splits prod.splits
       dest: in_set_takeD in_set_dropD)

lemma try_movable_subset:
  "try_movable um w rs = Some (Inr (a, um', w', rs')) \<Longrightarrow> set um' \<subseteq> set um"
  by (cases rs)
     (auto simp: try_movable_def pop_at_def split: if_splits option.splits sum.splits prod.splits
       dest: in_set_takeD in_set_dropD)

lemma gsc_loop_one:
  "set ur \<subseteq> set (rooms w) \<Longrightarrow> set um \<subseteq> set (movable_items w) \<Longrightarrow>
   gsc_loop ur um w rs = Some (Inr (a, w', rs')) \<Longrightarrow> one_action w a w'"
proof (induction ur um w rs rule: gsc_loop.induct)
  case (1 ur um w rs)
  from "1.prems"(3) have ne: "\<not> \<not> (0 < length ur \<or> 0 < length um)"
    by (subst (asm) gsc_loop.simps) (auto split: if_splits)
  from "1.prems"(3) obtain a1 ur1 w1 rs1 where
    tr: "try_room ur w rs = Some (Inr (a1, ur1, w1, rs1))"
    by (subst (asm) gsc_loop.simps) (auto split: if_splits option.splits sum.splits)
  from try_room_one[OF "1.prems"(1) tr]
  have one1: "case a1 of None \<Rightarrow> w1 = w | Some t \<Rightarrow> one_action w t w1" .
  show ?case
  proof (cases a1)
    case (Some t)
    with "1.prems"(3) tr one1 ne show ?thesis
      by (subst (asm) gsc_loop.simps) auto
  next
    case None
    with one1 have w1: "w1 = w" by simp
    from None "1.prems"(3) tr ne obtain a2 um2 w2 rs2 where
      tm: "try_movable um w1 rs1 = Some (Inr (a2, um2, w2, rs2))"
      by (subst (asm) gsc_loop.simps) (auto split: if_splits option.splits sum.splits)
    from try_movable_one[OF _ tm] "1.prems"(2) w1
    have one2: "case a2 of None \<Rightarrow> w2 = w | Some t \<Rightarrow> one_action w t w2"
      by (cases a2) auto
    show ?thesis
    proof (cases a2)
      case (Some t)
      with "1.prems"(3) tr tm None one2 ne show ?thesis
        by (subst (asm) gsc_loop.simps) auto
    next
      case a2None: None
      with one2 have w2: "w2 = w" by simp
      from tr None have tr': "try_room ur w rs = Some (Inr (None, ur1, w1, rs1))" by simp
      from tm a2None have tm': "try_movable um w1 rs1 = Some (Inr (None, um2, w2, rs2))" by simp
      from "1.prems"(3) tr' tm' ne have rest: "gsc_loop ur1 um2 w2 rs2 = Some (Inr (a, w', rs'))"
        by (subst (asm) gsc_loop.simps) auto
      have sub: "set ur1 \<subseteq> set (rooms w2)" "set um2 \<subseteq> set (movable_items w2)"
        using try_room_subset[OF tr] try_movable_subset[OF tm] "1.prems"(1,2) w2 by auto
      from "1.IH"[OF ne tr' refl refl refl refl refl tm' refl refl refl refl refl sub rest] w2
      show ?thesis by simp
    qed
  qed
qed


lemma TV_perform_action_same:
  assumes "TV_perform_action x rs = Some (a, x, rs')"
  shows "tv_on x \<and> curr_channel x \<in> set CHANNELS
    \<and> a = ''I switched the channel of the TV in '' @ room_name (parent x) @ '' to ''
          @ channel_name (curr_channel x) @ ''.''"
proof (cases "tv_on x")
  case False
  with assms have "tv_on x = True"
    by (auto simp: TV_perform_action_def choice_channel_def split: option.splits prod.splits
        dest: arg_cong[where f = tv_on])
  with False show ?thesis by simp
next
  case True
  from assms True obtain b rs1 where b: "choice_bool rs = Some (b, rs1)"
    by (auto simp: TV_perform_action_def split: option.splits)
  show ?thesis
  proof (cases b)
    case False
    with assms True b have "tv_on x = False"
      by (auto simp: TV_perform_action_def dest: arg_cong[where f = tv_on])
    with True show ?thesis by simp
  next
    case keep: True
    with assms True b obtain i rs2 where i: "randbelow (length CHANNELS) rs1 = Some (i, rs2)"
      and x: "x = x\<lparr>curr_channel := CHANNELS ! i\<rparr>"
      and a: "a = ''I switched the channel of the TV in '' @ room_name (parent x) @ '' to ''
          @ channel_name (CHANNELS ! i) @ ''.''"
      by (auto simp: TV_perform_action_def choice_channel_def split: option.splits prod.splits)
    from i have "i < length CHANNELS"
      by (auto simp: CHANNELS_def dest!: randbelow_Some)
    moreover from x have "curr_channel x = CHANNELS ! i"
      by (metis tv.select_convs(2) tv.surjective tv.update_convs(2))
    ultimately show ?thesis using True a by simp
  qed
qed

lemma sink_toggle_neq: "(x::sink)\<lparr>faucet_on := \<not> faucet_on x\<rparr> \<noteq> x"
  by (cases x) simp

lemma window_toggle_neq: "(x::window)\<lparr>window_open := \<not> window_open x\<rparr> \<noteq> x"
  by (cases x) simp

lemma light_toggle_neq: "(x::light)\<lparr>light_on := \<not> light_on x\<rparr> \<noteq> x"
  by (cases x) simp

lemma one_action_changes:
  assumes "one_action w a w'"
  shows "w' \<noteq> w \<or> same_channel_switch w a"
  using assms
proof cases
  case (pick_up m)
  then have "item (person w') \<noteq> item (person w)"
    by (auto simp: MovableItem_perform_action_def Let_def split: if_splits option.splits)
  then show ?thesis by auto
next
  case (phone m)
  then have "ringing (movables w' m) \<noteq> ringing (movables w m)"
    by (auto simp: Phone_interact_def Let_def)
  then show ?thesis by auto
next
  case (place c rs rs')
  then have "item (person w') \<noteq> item (person w)"
    by (auto simp: Container_perform_action_def Let_def split: if_splits option.splits sum.splits)
  then show ?thesis by auto
next
  case (faucet c)
  then have "stationaries w' c \<noteq> stationaries w c"
    by (auto simp: Sink_interact_at_def Sink_interact_def Let_def sink_toggle_neq
        split: stationary.splits)
  then show ?thesis by auto
next
  case (blinds c x x')
  then have "stationaries w' c \<noteq> stationaries w c"
    by (auto simp: Window_perform_action_def Let_def window_toggle_neq)
  then show ?thesis by auto
next
  case (light c x x')
  then have "stationaries w' c \<noteq> stationaries w c"
    by (auto simp: Light_perform_action_def Let_def light_toggle_neq)
  then show ?thesis by auto
next
  case (tv c x rs x' rs')
  show ?thesis
  proof (cases "x' = x")
    case False
    with tv have "stationaries w' c \<noteq> stationaries w c" by simp
    then show ?thesis by auto
  next
    case True
    with tv TV_perform_action_same[of x rs a rs'] have "same_channel_switch w a"
      unfolding same_channel_switch_def by blast
    then show ?thesis by simp
  qed
qed

text \<open>
  C2, as stated, fails in one case: the TV of the living room is on and plays NBC, the
  candidate room is chosen, its shuffled items try the TV first, the TV keeps on and draws
  NBC again. The call returns the narration of a switch to NBC, and the world is the one
  before the call.
\<close>

theorem state_change_without_change:
  "generate_state_change tv_world [0, 0, 4, 3, 2, 1, 0, 2]
     = Some (Inr (''I switched the channel of the TV in the living room to NBC.'', tv_world, []))"
proof -
  have sh: "shuffle [0, 1, 2, 3, 4 :: nat] [4, 3, 2, 1, 0, 2] = Some ([0, 1, 2, 3, 4], [0, 2])"
    by code_simp
  have room: "Room_perform_action (hd (rooms tv_world)) tv_world [4, 3, 2, 1, 0, 2]
     = Some (Inr (Some ''I switched the channel of the TV in the living room to NBC.'', tv_world, []))"
    unfolding Room_perform_action_def
    apply (simp add: tv_world_def sh[simplified])
    apply (simp add: stationary_perform_action_def TV_perform_action_def choice_channel_def
        CHANNELS_def Channel_def example_living_room_def coin_def)
    done
  show ?thesis
    unfolding generate_state_change_def
    apply (subst gsc_loop.simps)
    apply (simp add: try_room_def pop_at_def coin_def)
    apply (simp add: room[unfolded tv_world_def, simplified] tv_world_def)
    done
qed

text \<open>
  C2, amended: each invocation of \<open>generate_state_change\<close> that returns has performed
  exactly one narrated action of one candidate, on the world as it was at the call (the
  candidates tried before it returned \<open>None\<close> and left the world as it was); that action
  changes the state, except that a TV that is on may switch to the channel it is already
  playing. When both pools are exhausted the loop ends in the assertion error: it neither
  returns a null narration nor recovers.
\<close>

theorem state_change_is_one_action:
  "gsc_loop [] [] w rs
     = Some (Inl (AssertionError ''len(usable_rooms) > 0 or len(usable_movables) > 0''))
   \<and> (generate_state_change w rs = Some (Inr (a, w', rs'))
        \<longrightarrow> one_action w a w' \<and> (w' \<noteq> w \<or> same_channel_switch w a))"
proof (intro conjI impI)
  show "gsc_loop [] [] w rs
     = Some (Inl (AssertionError ''len(usable_rooms) > 0 or len(usable_movables) > 0''))"
    by (subst gsc_loop.simps) simp
next
  assume "generate_state_change w rs = Some (Inr (a, w', rs'))"
  then show "one_action w a w'"
    unfolding generate_state_change_def by (intro gsc_loop_one[of _ w _ rs a w' rs']) auto
  then show "w' \<noteq> w \<or> same_channel_switch w a"
    by (rule one_action_changes)
qed

theorem state_change_is_one_action_witness:
  "\<exists>a w' rs'. generate_state_change example_world [1, 0] = Some (Inr (a, w', rs'))
     \<and> one_action example_world a w' \<and> w' \<noteq> example_world
     \<and> item (person w') = Some 0"
proof -
  have "\<exists>a w'. generate_state_change example_world [1, 0] = Some (Inr (a, w', []))
      \<and> item (person w') = Some 0"
    unfolding generate_state_change_def
    apply (subst gsc_loop.simps)
    apply (simp add: example_world_def try_room_def try_movable_def pop_at_def coin_def
        movable_perform_action_def MovableItem_perform_action_def Singleton_new_def
        MovableItem_def Person_def Let_def)
    done
  then obtain a w' where g: "generate_state_change example_world [1, 0] = Some (Inr (a, w', []))"
    and h: "item (person w') = Some 0"
    by blast
  from state_change_is_one_action[of example_world "[1, 0]" a w' "[]"] g
  have one: "one_action example_world a w'" by blast
  have "item (person example_world) = None" by (simp add: example_world_def Person_def)
  with h have "w' \<noteq> example_world" by auto
  with g one h show ?thesis by blast
qed


section \<open>Generation establishes the invariants\<close>

lemma level_ok_location:
  "generate_relative_location x rs = Some (Inr (loc, info, rs')) \<Longrightarrow> level_ok x info"
proof (cases x)
  case (ShelfObj s)
  assume "generate_relative_location x rs = Some (Inr (loc, info, rs'))"
  with ShelfObj generate_relative_location_level[of s rs loc info rs']
  obtain level where "1 \<le> level" "level \<le> levels s"
    "info ''pddl_level'' = Some (PyStr (get_level_name level))"
    by auto
  moreover from this have "level \<in> set [1..<Suc (levels s)]" by (auto simp: less_Suc_eq_le)
  ultimately have "info ''pddl_level'' \<in> (\<lambda>l. Some (PyStr (get_level_name l))) ` set [1..<Suc (levels s)]"
    by (intro image_eqI[where x = level]) simp_all
  then show ?thesis
    using ShelfObj by (simp add: level_ok_def)
qed (auto simp: level_ok_def)

lemma choice_channel_member:
  assumes "choice_channel rs = Some (c, rs')"
  shows "c \<in> set CHANNELS"
proof -
  have len: "0 < length CHANNELS" by (simp add: CHANNELS_def)
  from assms obtain i where "randbelow (length CHANNELS) rs = Some (i, rs')" "c = CHANNELS ! i"
    by (auto simp: choice_channel_def split: option.splits)
  with len show ?thesis by (auto dest!: randbelow_Some)
qed

lemma stationary_generate_instance_effect:
  assumes gen: "stationary_generate_instance cls p its m c mov rs = Some (Inr (x, its', mov', rs'))"
    and dist: "distinct its"
  shows "stat_ok p x \<and> type_of x = cls \<and> distinct its' \<and> set its' \<subseteq> set its
    \<and> (\<forall>r. movable_class (mov' r) = movable_class (mov r) \<and> pddl_name (mov' r) = pddl_name (mov r))
    \<and> (\<forall>r. r \<notin> set its - set its' \<longrightarrow> mov' r = mov r)
    \<and> (\<forall>r \<in> set its - set its'. container (mov' r) = Some c
          \<and> can_hold cls (movable_class (mov r))
          \<and> level_ok x (extra_location_info (mov' r)))"
proof (cases "is_container cls")
  case False
  then consider "cls = Window" | "cls = Light" | "cls = TV" by (cases cls) auto
  then show ?thesis
  proof cases
    case 1
    with gen dist show ?thesis
      by (auto simp: stationary_generate_instance_def stat_ok_def base_def split: option.splits)
  next
    case 2
    with gen dist show ?thesis
      by (auto simp: stationary_generate_instance_def stat_ok_def base_def split: option.splits)
  next
    case 3
    with gen obtain b rs1 ch where ch: "choice_channel rs1 = Some (ch, rs')"
      and x: "x = TVObj \<lparr>name = ''TV'', pddl_name = StationaryItem_pddl_name ''TV'' p,
                     parent = p, tv_on = b, curr_channel = ch\<rparr>"
      and same: "its' = its" "mov' = mov"
      by (auto simp: stationary_generate_instance_def split: option.splits)
    from ch have "ch \<in> set CHANNELS" by (rule choice_channel_member)
    with 3 x same dist show ?thesis
      by (simp add: stat_ok_def base_def)
  qed
next
  case True
  with gen obtain chosen_items where
    cgi: "Container_generate_instance cls p its m c mov rs = Some (Inr (x, its', chosen_items, mov', rs'))"
    by (cases cls) (auto simp: stationary_generate_instance_def split: option.splits sum.splits)
  from Container_generate_instance_effect[OF cgi dist]
  have eff: "distinct chosen_items"
    "\<forall>i \<in> set chosen_items. can_hold (type_of x) (movable_class (mov' i))
          \<and> i \<in> set its \<and> i \<notin> set its' \<and> container (mov' i) = Some c"
    "set its' = set its - set chosen_items" "distinct its'"
    "\<forall>i. i \<notin> set chosen_items \<longrightarrow> mov' i = mov i"
    "\<forall>s. x = ShelfObj s \<longrightarrow> MIN_LEVELS \<le> levels s \<and> levels s \<le> MAX_LEVELS"
    by blast+
  from cgi obtain rs1 rs2 rs3 where
    ge: "generate_empty cls p rs1 = Some (Inr (x, rs2))"
    and al: "assign_locations c x chosen_items mov rs2 = Some (Inr (mov', rs3))"
    by (auto simp: Container_generate_instance_def split: option.splits sum.splits prod.splits)
  from generate_empty_type[OF ge] have ty: "type_of x = cls" "parent (stationary_base x) = p"
    by auto
  from assign_locations_effect[OF al]
  have same_cls: "\<forall>r. movable_class (mov' r) = movable_class (mov r) \<and> pddl_name (mov' r) = pddl_name (mov r)"
    and placed: "\<forall>r \<in> set chosen_items. \<exists>loc info rs1 rs2.
        generate_relative_location x rs1 = Some (Inr (loc, info, rs2))
        \<and> extra_location_info (mov' r) = info"
    by blast+
  have ok: "stat_ok p x"
  proof (cases x)
    case (ShelfObj s)
    with eff(6) ty show ?thesis
      by (auto simp: stat_ok_def MIN_LEVELS_def)
  next
    case (TVObj t)
    with ty True show ?thesis by auto
  qed (use ty in \<open>auto simp: stat_ok_def\<close>)
  have chosen_eq: "set its - set its' = set chosen_items"
    using eff(2,3) by auto
  have lv: "\<forall>r \<in> set chosen_items. level_ok x (extra_location_info (mov' r))"
    using placed level_ok_location by metis
  show ?thesis
    using ok ty eff same_cls lv unfolding chosen_eq by auto
qed

lemma gen_inv_step:
  assumes inv: "gen_inv n its st"
    and gen: "stationary_generate_instance cls p its m (next_stationary st) (movable_store st) rs
                = Some (Inr (x, its', mov', rs'))"
  shows "gen_inv n its' (st\<lparr>movable_store := mov',
            stationary_store := (stationary_store st)(next_stationary st := x),
            next_stationary := Suc (next_stationary st)\<rparr>)"
proof -
  let ?c = "next_stationary st"
  let ?mov = "movable_store st"
  from inv have dist: "distinct its" and sub: "set its \<subseteq> {..<n}"
    and each: "\<And>r. r < n \<Longrightarrow> (case container (?mov r) of
                  None \<Rightarrow> r \<in> set its
                | Some c \<Rightarrow> r \<notin> set its \<and> c < ?c
                    \<and> can_hold (type_of (stationary_store st c)) (movable_class (?mov r))
                    \<and> level_ok (stationary_store st c) (extra_location_info (?mov r)))"
    by (auto simp: gen_inv_def)
  from stationary_generate_instance_effect[OF gen dist]
  have eff: "type_of x = cls" "distinct its'" "set its' \<subseteq> set its"
    "\<And>r. movable_class (mov' r) = movable_class (?mov r)"
    "\<And>r. r \<notin> set its - set its' \<Longrightarrow> mov' r = ?mov r"
    "\<And>r. r \<in> set its - set its' \<Longrightarrow> container (mov' r) = Some ?c
          \<and> can_hold cls (movable_class (?mov r))
          \<and> level_ok x (extra_location_info (mov' r))"
    by blast+
  show ?thesis
    unfolding gen_inv_def
  proof (intro conjI allI impI)
    show "distinct its'" by (rule eff(2))
    show "set its' \<subseteq> {..<n}" using eff(3) sub by auto
  next
    fix r assume r: "r < n"
    show "case container (movable_store (st\<lparr>movable_store := mov',
            stationary_store := (stationary_store st)(?c := x),
            next_stationary := Suc ?c\<rparr>) r) of
          None \<Rightarrow> r \<in> set its'
        | Some c \<Rightarrow> r \<notin> set its' \<and> c < next_stationary (st\<lparr>movable_store := mov',
            stationary_store := (stationary_store st)(?c := x),
            next_stationary := Suc ?c\<rparr>)
            \<and> can_hold (type_of (stationary_store (st\<lparr>movable_store := mov',
                  stationary_store := (stationary_store st)(?c := x),
                  next_stationary := Suc ?c\<rparr>) c))
                (movable_class (movable_store (st\<lparr>movable_store := mov',
                  stationary_store := (stationary_store st)(?c := x),
                  next_stationary := Suc ?c\<rparr>) r))
            \<and> level_ok (stationary_store (st\<lparr>movable_store := mov',
                  stationary_store := (stationary_store st)(?c := x),
                  next_stationary := Suc ?c\<rparr>) c)
                (extra_location_info (movable_store (st\<lparr>movable_store := mov',
                  stationary_store := (stationary_store st)(?c := x),
                  next_stationary := Suc ?c\<rparr>) r))"
    proof (cases "r \<in> set its - set its'")
      case True
      with eff(6)[OF True] eff(1,4) show ?thesis by auto
    next
      case False
      with eff(5) have same: "mov' r = ?mov r" by blast
      show ?thesis
      proof (cases "container (?mov r)")
        case None
        with each[OF r] False same show ?thesis by auto
      next
        case (Some c0)
        with each[OF r] same eff(3) show ?thesis by auto
      qed
    qed
  qed
qed


lemma generate_room_items_inv:
  "generate_room_items cls p ts created its st rs = Some (Inr (created', its', st', rs')) \<Longrightarrow>
   gen_inv n its st \<Longrightarrow>
   gen_inv n its' st'
   \<and> next_stationary st \<le> next_stationary st'
   \<and> created' = created @ [next_stationary st..<next_stationary st']
   \<and> (\<forall>c < next_stationary st. stationary_store st' c = stationary_store st c)
   \<and> (\<forall>c. next_stationary st \<le> c \<and> c < next_stationary st' \<longrightarrow> stat_ok p (stationary_store st' c))"
proof (induction ts arbitrary: created its st rs)
  case Nil
  then show ?case by auto
next
  case (Cons t ts)
  show ?case
  proof (cases "room_can_hold cls t")
    case False
    with Cons.prems(1) have "generate_room_items cls p ts created its st rs
        = Some (Inr (created', its', st', rs'))" by simp
    from Cons.IH[OF this Cons.prems(2)] show ?thesis .
  next
    case True
    let ?c = "next_stationary st"
    from True Cons.prems(1) obtain x its1 mov1 rs1 where
      sg: "stationary_generate_instance t p its 2 ?c (movable_store st) rs = Some (Inr (x, its1, mov1, rs1))"
      and rest: "generate_room_items cls p ts (created @ [?c]) its1
          (st\<lparr>movable_store := mov1, stationary_store := (stationary_store st)(?c := x),
              next_stationary := Suc ?c\<rparr>) rs1 = Some (Inr (created', its', st', rs'))"
      by (auto split: option.splits sum.splits)
    let ?st1 = "st\<lparr>movable_store := mov1, stationary_store := (stationary_store st)(?c := x),
              next_stationary := Suc ?c\<rparr>"
    from Cons.prems(2) have dist: "distinct its" by (simp add: gen_inv_def)
    from stationary_generate_instance_effect[OF sg dist] have okx: "stat_ok p x" by blast
    from gen_inv_step[OF Cons.prems(2) sg] have inv1: "gen_inv n its1 ?st1" .
    from Cons.IH[OF rest inv1]
    have IH: "gen_inv n its' st'" "Suc ?c \<le> next_stationary st'"
      "created' = (created @ [?c]) @ [Suc ?c..<next_stationary st']"
      "\<forall>c < Suc ?c. stationary_store st' c = stationary_store ?st1 c"
      "\<forall>c. Suc ?c \<le> c \<and> c < next_stationary st' \<longrightarrow> stat_ok p (stationary_store st' c)"
      by simp_all
    have upt: "[?c..<next_stationary st'] = ?c # [Suc ?c..<next_stationary st']"
      using IH(2) by (simp add: upt_conv_Cons)
    have old: "\<forall>c < ?c. stationary_store st' c = stationary_store st c"
      using IH(4) by auto
    have new: "\<forall>c. ?c \<le> c \<and> c < next_stationary st' \<longrightarrow> stat_ok p (stationary_store st' c)"
    proof (intro allI impI)
      fix c assume c: "?c \<le> c \<and> c < next_stationary st'"
      show "stat_ok p (stationary_store st' c)"
      proof (cases "c = ?c")
        case True
        with IH(4) okx show ?thesis by simp
      next
        case False
        with c IH(5) show ?thesis by auto
      qed
    qed
    from IH(1,2,3) upt old new show ?thesis by simp
  qed
qed

lemma stat_ok_items_update: "ident (room\<lparr>items := xs\<rparr>) = ident room"
  by (simp add: ident_def)

lemma generate_with_description_inv:
  assumes gen: "generate_with_description cls stypes p its st rs = Some (Inr (ro, p', its', st', rs'))"
    and inv: "gen_inv n its st" and rinv: "rooms_gen_inv rms st"
  shows "gen_inv n its' st' \<and> rooms_gen_inv (rms @ (case ro of None \<Rightarrow> [] | Some room \<Rightarrow> [room])) st'"
proof (cases ro)
  case None
  with gen have "its' = its" "st' = st"
    by (auto simp: generate_with_description_def split: option.splits sum.splits prod.splits)
  with inv rinv None show ?thesis by simp
next
  case (Some room')
  with gen obtain room rs1 created rs2 shuffled rs3 where
    gi: "generate_room_items cls (ident room) stypes [] its st rs1 = Some (Inr (created, its', st', rs2))"
    and sh: "shuffle created rs2 = Some (shuffled, rs3)"
    and room': "room' = room\<lparr>items := items room @ shuffled\<rparr>"
    and re: "room_generate_empty cls p rs = Some (Some room, p', rs1)"
    by (auto simp: generate_with_description_def split: option.splits sum.splits prod.splits)
  from re have empty: "items room = []"
    by (cases cls) (auto split: if_splits option.splits prod.splits)
  from generate_room_items_inv[OF gi inv]
  have g: "gen_inv n its' st'" "next_stationary st \<le> next_stationary st'"
    "created = [next_stationary st..<next_stationary st']"
    "\<forall>c < next_stationary st. stationary_store st' c = stationary_store st c"
    "\<forall>c. next_stationary st \<le> c \<and> c < next_stationary st' \<longrightarrow> stat_ok (ident room) (stationary_store st' c)"
    by simp_all
  from sh g(3) have sset: "set shuffled = {next_stationary st..<next_stationary st'}"
    by (auto dest: shuffle_set)
  from rinv have r1: "set (concat (map items rms)) = {..<next_stationary st}"
    and r2: "\<forall>room \<in> set rms. \<forall>c \<in> set (items room). stat_ok (ident room) (stationary_store st c)"
    by (auto simp: rooms_gen_inv_def)
  have "rooms_gen_inv (rms @ [room']) st'"
    unfolding rooms_gen_inv_def
  proof (intro conjI ballI)
    show "set (concat (map items (rms @ [room']))) = {..<next_stationary st'}"
      using r1 sset g(2) empty room' by auto
  next
    fix ro c assume ro: "ro \<in> set (rms @ [room'])" and c: "c \<in> set (items ro)"
    show "stat_ok (ident ro) (stationary_store st' c)"
    proof (cases "ro \<in> set rms")
      case True
      with c r1 have "c < next_stationary st" by auto
      with g(4) r2 True c show ?thesis by auto
    next
      case False
      with ro have "ro = room'" by simp
      with c room' empty sset g(5) show ?thesis
        by (auto simp: stat_ok_items_update)
    qed
  qed
  with g(1) Some show ?thesis by simp
qed

lemma generate_rooms_of_inv:
  "generate_rooms_of t k cnt stypes rms p its st rs = Some (Inr (rms', p', its', st', rs')) \<Longrightarrow>
   gen_inv n its st \<Longrightarrow> rooms_gen_inv rms st \<Longrightarrow>
   gen_inv n its' st' \<and> rooms_gen_inv rms' st'"
proof (induction t k cnt stypes rms p its st rs rule: generate_rooms_of.induct)
  case (1 t k cnt stypes rms p its st rs)
  show ?case
  proof (cases "cnt * k < MAX_ROOMS \<and> 0 < k")
    case False
    with "1.prems" show ?thesis
      by (subst (asm) generate_rooms_of.simps) auto
  next
    case True
    with "1.prems"(1) obtain ro p1 its1 st1 rs1 where
      gw: "generate_with_description t stypes p its st rs = Some (Inr (ro, p1, its1, st1, rs1))"
      by (subst (asm) generate_rooms_of.simps) (auto split: option.splits sum.splits)
    from generate_with_description_inv[OF gw "1.prems"(2,3)]
    have s1: "gen_inv n its1 st1"
      "rooms_gen_inv (rms @ (case ro of None \<Rightarrow> [] | Some room \<Rightarrow> [room])) st1" by auto
    show ?thesis
    proof (cases ro)
      case None
      with "1.prems"(1) True gw s1 show ?thesis
        by (subst (asm) generate_rooms_of.simps) auto
    next
      case (Some room)
      with "1.prems"(1) True gw have
        rest: "generate_rooms_of t k (cnt + 1) stypes (rms @ [room]) p1 its1 st1 rs1
                 = Some (Inr (rms', p', its', st', rs'))"
        by (subst (asm) generate_rooms_of.simps) auto
      from gw Some have gw': "generate_with_description t stypes p its st rs
          = Some (Inr (Some room, p1, its1, st1, rs1))" by simp
      from "1.IH"[OF True gw' refl refl refl refl refl refl rest s1(1)] s1(2) Some
      show ?thesis by simp
    qed
  qed
qed

lemma generate_all_rooms_inv:
  "generate_all_rooms ts k stypes rms p its st rs = Some (Inr (rms', p', its', st', rs')) \<Longrightarrow>
   gen_inv n its st \<Longrightarrow> rooms_gen_inv rms st \<Longrightarrow>
   gen_inv n its' st' \<and> rooms_gen_inv rms' st'"
proof (induction ts arbitrary: rms p its st rs)
  case Nil
  then show ?case by simp
next
  case (Cons t ts)
  from Cons.prems(1) obtain rms1 p1 its1 st1 rs1 where
    first: "generate_rooms_of t k 0 stypes rms p its st rs = Some (Inr (rms1, p1, its1, st1, rs1))"
    and rest: "generate_all_rooms ts k stypes rms1 p1 its1 st1 rs1 = Some (Inr (rms', p', its', st', rs'))"
    by (auto split: option.splits sum.splits)
  from generate_rooms_of_inv[OF first Cons.prems(2,3)] Cons.IH[OF rest]
  show ?case by blast
qed


lemma movable_generate_instance_fresh:
  "movable_generate_instance t p rs = Some (Some x, p', rs') \<Longrightarrow>
   container x = None \<and> movable_class x = t"
  by (cases t)
     (auto simp: Book_new_def Pen_new_def Singleton_new_def Phone_new_def MovableItem_def
       split: if_splits option.splits prod.splits)

lemma generate_items_of_fresh:
  "generate_items_of t k cnt p created rs = Some (p', created', rs') \<Longrightarrow>
   \<forall>x \<in> set created. container x = None \<Longrightarrow> \<forall>x \<in> set created'. container x = None"
proof (induction t k cnt p created rs rule: generate_items_of.induct)
  case (1 t k cnt p created rs)
  show ?case
  proof (cases "cnt * k < MAX_ITEMS \<and> 0 < k")
    case False
    with "1.prems" show ?thesis
      by (subst (asm) generate_items_of.simps) auto
  next
    case True
    with "1.prems"(1) obtain xo p1 rs1 where
      g: "movable_generate_instance t p rs = Some (xo, p1, rs1)"
      by (subst (asm) generate_items_of.simps) (auto split: option.splits)
    show ?thesis
    proof (cases xo)
      case None
      with "1.prems" True g show ?thesis
        by (subst (asm) generate_items_of.simps) auto
    next
      case (Some x)
      with "1.prems"(1) True g have
        rest: "generate_items_of t k (cnt + 1) p1 (created @ [x]) rs1 = Some (p', created', rs')"
        by (subst (asm) generate_items_of.simps) auto
      from g Some have g': "movable_generate_instance t p rs = Some (Some x, p1, rs1)" by simp
      from movable_generate_instance_fresh[OF g'] "1.prems"(2)
      have "\<forall>y \<in> set (created @ [x]). container y = None" by auto
      from "1.IH"[OF True g' refl refl refl rest this] show ?thesis .
    qed
  qed
qed

lemma generate_all_items_fresh:
  "generate_all_items ts k p created rs = Some (p', created', rs') \<Longrightarrow>
   \<forall>x \<in> set created. container x = None \<Longrightarrow> \<forall>x \<in> set created'. container x = None"
proof (induction ts arbitrary: p created rs)
  case Nil
  then show ?case by simp
next
  case (Cons t ts)
  from Cons.prems(1) obtain p1 created1 rs1 where
    first: "generate_items_of t k 0 p created rs = Some (p1, created1, rs1)"
    and rest: "generate_all_items ts k p1 created1 rs1 = Some (p', created', rs')"
    by (auto split: option.splits)
  from generate_items_of_fresh[OF first Cons.prems(2)] Cons.IH[OF rest]
  show ?case by blast
qed

lemma foldl_remove1_set:
  "distinct xs \<Longrightarrow>
   set (foldl (\<lambda>xs x. remove1 x xs) xs ys) = set xs - set ys
   \<and> distinct (foldl (\<lambda>xs x. remove1 x xs) xs ys)"
proof (induction ys arbitrary: xs)
  case Nil
  then show ?case by simp
next
  case (Cons y ys)
  from Cons.prems have "distinct (remove1 y xs)" "set (remove1 y xs) = set xs - {y}"
    by auto
  with Cons.IH[of "remove1 y xs"] show ?case by auto
qed

text \<open>What \<open>__init__\<close> establishes.\<close>

lemma DatasetGenerator_init_inv:
  assumes init: "DatasetGenerator_init reg p rs = Some (Inr (w0, p', all_items, rs'))"
  shows "ownership_inv w0 \<and> encoding_inv w0 \<and> person w0 = Person
    \<and> distinct (movable_items w0) \<and> set (movable_items w0) \<subseteq> set all_items
    \<and> (\<forall>i \<in> set all_items. i \<in> set (movable_items w0) \<longleftrightarrow> container (movables w0 i) \<noteq> None)"
proof -
  from init obtain p1 created rs1 where
    ga: "generate_all_items (movable_types reg) (length (movable_types reg)) p [] rs
           = Some (p1, created, rs1)"
    by (auto simp: DatasetGenerator_init_def split: option.splits)
  let ?n = "length created"
  let ?st0 = "\<lparr>movable_store = store_of created, stationary_store = (\<lambda>c. blank_stationary),
                 next_stationary = 0\<rparr>"
  from init ga obtain rms p2 remaining st rs2 ms rs3 rooms1 where
    gr: "generate_all_rooms (room_types reg) (length (room_types reg)) (stationary_types reg)
           [] p1 [0..<?n] ?st0 rs1 = Some (Inr (rms, p2, remaining, st, rs2))"
    and sm: "shuffle (foldl (\<lambda>xs x. remove1 x xs) [0..<?n] remaining) rs2 = Some (ms, rs3)"
    and sr: "shuffle rms rs3 = Some (rooms1, rs')"
    and w0: "w0 = \<lparr>rooms = rooms1, person = Person, movable_items = ms,
                   movables = movable_store st, stationaries = stationary_store st\<rparr>"
    and all: "all_items = [0..<?n]"
    by (auto simp: DatasetGenerator_init_def Let_def split: option.splits sum.splits)
  from generate_all_items_fresh[OF ga] have fresh: "\<forall>x \<in> set created. container x = None"
    by simp
  have inv0: "gen_inv ?n [0..<?n] ?st0"
    using fresh by (auto simp: gen_inv_def store_of_def)
  have rinv0: "rooms_gen_inv [] ?st0"
    by (simp add: rooms_gen_inv_def)
  from generate_all_rooms_inv[OF gr inv0 rinv0]
  have inv: "gen_inv ?n remaining st" and rinv: "rooms_gen_inv rms st" by auto
  from inv have each: "\<And>r. r < ?n \<Longrightarrow> (case container (movable_store st r) of
                  None \<Rightarrow> r \<in> set remaining
                | Some c \<Rightarrow> r \<notin> set remaining \<and> c < next_stationary st
                    \<and> can_hold (type_of (stationary_store st c)) (movable_class (movable_store st r))
                    \<and> level_ok (stationary_store st c) (extra_location_info (movable_store st r)))"
    by (auto simp: gen_inv_def)
  from shuffle_set[OF sm] shuffle_distinct[OF sm] foldl_remove1_set[of "[0..<?n]" remaining]
  have ms: "set ms = {..<?n} - set remaining" "distinct ms"
    by auto
  from shuffle_set[OF sr] have rset: "set rooms1 = set rms" .
  from rinv rset have ritems: "set (room_items w0) = {..<next_stationary st}"
    and rok: "\<forall>room \<in> set (rooms w0). \<forall>c \<in> set (items room). stat_ok (ident room) (stationaries w0 c)"
    by (auto simp: rooms_gen_inv_def room_items_def w0)
  have placed: "\<exists>c. container (movables w0 r) = Some c \<and> c \<in> set (room_items w0)
        \<and> can_hold (type_of (stationaries w0 c)) (movable_class (movables w0 r))
        \<and> level_ok (stationaries w0 c) (extra_location_info (movables w0 r))"
    if "r \<in> set ms" for r
  proof -
    from that ms have r: "r < ?n" "r \<notin> set remaining" by auto
    with each[OF r(1)] ritems show ?thesis
      by (cases "container (movable_store st r)") (auto simp: w0)
  qed
  have own: "ownership_inv w0"
    unfolding ownership_inv_def
  proof (intro conjI ballI)
    show "case item (person w0) of None \<Rightarrow> True | Some r \<Rightarrow> r \<in> set (movable_items w0)"
      by (simp add: w0 Person_def)
  next
    fix r assume "r \<in> set (movable_items w0)"
    then have "r \<in> set ms" by (simp add: w0)
    from placed[OF this] show "ownership w0 r"
      by (auto simp: ownership_def held_def in_container_def w0 Person_def)
  qed
  have enc: "encoding_inv w0"
    unfolding encoding_inv_def
  proof (intro conjI ballI)
    fix room c assume "room \<in> set (rooms w0)" "c \<in> set (items room)"
    with rok show "stat_ok (ident room) (stationaries w0 c)" by blast
  next
    fix r assume "r \<in> set (movable_items w0)"
    then have "r \<in> set ms" by (simp add: w0)
    from placed[OF this] show "case container (movables w0 r) of None \<Rightarrow> True
        | Some c \<Rightarrow> level_ok (stationaries w0 c) (extra_location_info (movables w0 r))"
      by auto
  qed
  have iff: "\<forall>i \<in> set all_items. i \<in> set (movable_items w0) \<longleftrightarrow> container (movables w0 i) \<noteq> None"
  proof
    fix i assume "i \<in> set all_items"
    with all have i: "i < ?n" by simp
    from each[OF i] ms i show "i \<in> set (movable_items w0) \<longleftrightarrow> container (movables w0 i) \<noteq> None"
      by (cases "container (movable_store st i)") (auto simp: w0)
  qed
  from own enc ms all iff show ?thesis
    by (auto simp: w0)
qed


section \<open>The timeline\<close>

lemma timeline_ownership:
  "timeline w0 w \<Longrightarrow> ownership_inv w0 \<Longrightarrow> ownership_inv w \<and> frame w0 w"
proof (induction rule: timeline.induct)
  case start
  then show ?case by simp
next
  case (change w rs a w' rs')
  then have "ownership_inv w" "frame w0 w" by auto
  with generate_state_change_inv[OF this(1) change.hyps(2)] show ?case
    by (auto intro: frame_trans)
qed

lemma example_generation_returns:
  "\<exists>w0 p' all_items rs'.
     DatasetGenerator_init example_registry example_pools example_draws
       = Some (Inr (w0, p', all_items, rs'))"
proof -
  have "(case DatasetGenerator_init example_registry example_pools example_draws of
           Some (Inr x) \<Rightarrow> True | _ \<Rightarrow> False)"
    by code_simp
  then show ?thesis
    by (auto split: option.splits sum.splits)
qed

text \<open>
  C1: in every world of a timeline that starts from a generated world (the generated world
  itself and the world after each state change), every movable item of the generator's list
  is in exactly one of the two states: held by the person (no container, and the person's
  item is that item), or in a container of a room whose \<open>can_hold\<close> accepts the class of the
  item (and the item is not the person's item); never both, never neither.
\<close>

theorem ownership_at_every_timestep:
  assumes "DatasetGenerator_init reg p rs = Some (Inr (w0, p', all_items, rs'))"
    and "timeline w0 w"
    and "r \<in> set (movable_items w)"
  shows "(held w r \<or> in_container w r) \<and> \<not> (held w r \<and> in_container w r)"
proof -
  from DatasetGenerator_init_inv[OF assms(1)] have "ownership_inv w0" by blast
  with timeline_ownership[OF assms(2)] have "ownership_inv w" by blast
  with assms(3) have "ownership w r" by (simp add: ownership_inv_def)
  then show ?thesis by (simp add: ownership_def)
qed

theorem ownership_at_every_timestep_witness:
  "\<exists>w0 p' all_items rs' a w rs''.
     DatasetGenerator_init example_registry example_pools example_draws
       = Some (Inr (w0, p', all_items, rs'))
     \<and> generate_state_change w0 rs' = Some (Inr (a, w, rs''))
     \<and> timeline w0 w \<and> movable_items w \<noteq> []
     \<and> (held w (hd (movable_items w)) \<or> in_container w (hd (movable_items w)))
     \<and> \<not> (held w (hd (movable_items w)) \<and> in_container w (hd (movable_items w)))"
proof -
  have ev: "(case DatasetGenerator_init example_registry example_pools example_draws of
           Some (Inr (w0, p', all_items, rs')) \<Rightarrow>
             (case generate_state_change w0 rs' of
                Some (Inr (a, w, rs'')) \<Rightarrow> movable_items w \<noteq> []
              | _ \<Rightarrow> False)
         | _ \<Rightarrow> False)"
    by code_simp
  then obtain x where init': "DatasetGenerator_init example_registry example_pools example_draws
             = Some (Inr x)"
    by (auto split: option.splits sum.splits)
  obtain w0 p' all_items rs' where x: "x = (w0, p', all_items, rs')" by (cases x)
  from init' x have init: "DatasetGenerator_init example_registry example_pools example_draws
             = Some (Inr (w0, p', all_items, rs'))" by simp
  with ev have ev2: "(case generate_state_change w0 rs' of
                Some (Inr (a, w, rs'')) \<Rightarrow> movable_items w \<noteq> []
              | _ \<Rightarrow> False)"
    by simp
  then obtain y where step': "generate_state_change w0 rs' = Some (Inr y)"
    by (auto split: option.splits sum.splits)
  obtain a w rs'' where y: "y = (a, w, rs'')" by (cases y)
  from step' y have step: "generate_state_change w0 rs' = Some (Inr (a, w, rs''))" by simp
  with ev2 have ne: "movable_items w \<noteq> []" by simp
  have tl: "timeline w0 w"
    by (rule timeline.change[OF timeline.start step])
  from ne have "hd (movable_items w) \<in> set (movable_items w)" by simp
  from ownership_at_every_timestep[OF init tl this] init step tl ne
  show ?thesis by blast
qed


section \<open>Items that no room drew\<close>

lemma movable_get_init_conditions_other:
  "j \<noteq> i \<Longrightarrow>
   movable_get_init_conditions j (w\<lparr>movables := (movables w)(i := m)\<rparr>) = movable_get_init_conditions j w"
  by (auto simp: movable_get_init_conditions_def MovableItem_get_init_conditions_def Let_def
      split: sum.splits option.splits)

lemma movables_init_conditions_other:
  "i \<notin> set js \<Longrightarrow>
   movables_init_conditions js (w\<lparr>movables := (movables w)(i := m)\<rparr>) = movables_init_conditions js w"
  by (induction js) (auto simp: movable_get_init_conditions_other split: sum.splits)

lemma problem_init_conditions_other:
  "i \<notin> set (movable_items w) \<Longrightarrow>
   problem_init_conditions (w\<lparr>movables := (movables w)(i := m)\<rparr>) = problem_init_conditions w"
  by (auto simp: problem_init_conditions_def movables_init_conditions_other
      Room_get_init_conditions_def split: sum.splits)

lemma problem_objects_other:
  assumes "i \<notin> set (movable_items w)"
  shows "problem_objects reg (w\<lparr>movables := (movables w)(i := m)\<rparr>) = problem_objects reg w"
proof -
  have "\<And>j. j \<in> set (movable_items w) \<Longrightarrow> ((movables w)(i := m)) j = movables w j"
    using assms by auto
  then show ?thesis
    by (simp add: problem_objects_def Room_get_pddl_objects_def cong: map_cong)
qed

text \<open>
  C5, as stated, fails: in this generation seven items are instantiated, the rooms draw
  six, and item 6 (the bowl) is drawn by none. After \<open>__init__\<close> it has no container, it is
  not in the generator's list of movable items and it is not the person's item: nothing
  of the generator or of the person refers to it.
\<close>

theorem unplaced_item_is_dropped:
  "(case DatasetGenerator_init example_registry crowded_pools crowded_draws of
      Some (Inr (w0, p', all_items, rs')) \<Rightarrow>
        all_items = [0, 1, 2, 3, 4, 5, 6]
        \<and> container (movables w0 6) = None
        \<and> movable_items w0 = [2, 3, 5, 4, 1, 0]
        \<and> item (person w0) = None
    | _ \<Rightarrow> False)"
  by code_simp

text \<open>
  C5, amended: a movable item instantiated during world generation but drawn into no room
  (it has no container after \<open>__init__\<close>) is removed from the generator's list of movable
  items and stays outside all play: in every world of the timeline it is not in that list
  and it is not the person's item. The problem encoder never reads it: the \<open>:objects\<close> and
  \<open>:init\<close> lists, and the whole problem text, are the same whatever the state of that item.
\<close>

theorem unplaced_items_out_of_play:
  assumes "DatasetGenerator_init reg p rs = Some (Inr (w0, p', all_items, rs'))"
    and "timeline w0 w"
    and "i \<in> set all_items"
    and "container (movables w0 i) = None"
  shows "i \<notin> set (movable_items w0) \<and> i \<notin> set (movable_items w) \<and> item (person w) \<noteq> Some i
    \<and> problem_objects reg (w\<lparr>movables := (movables w)(i := m)\<rparr>) = problem_objects reg w
    \<and> problem_init_conditions (w\<lparr>movables := (movables w)(i := m)\<rparr>) = problem_init_conditions w
    \<and> generate_problem_pddl reg (w\<lparr>movables := (movables w)(i := m)\<rparr>) = generate_problem_pddl reg w"
proof -
  from DatasetGenerator_init_inv[OF assms(1)] assms(3,4)
  have own0: "ownership_inv w0" and out0: "i \<notin> set (movable_items w0)" by auto
  from timeline_ownership[OF assms(2) own0] have own: "ownership_inv w" and fr: "frame w0 w"
    by auto
  from fr out0 have out: "i \<notin> set (movable_items w)" by (simp add: frame_def)
  from own out have hand: "item (person w) \<noteq> Some i"
    by (auto simp: ownership_inv_def split: option.splits)
  from out have o: "problem_objects reg (w\<lparr>movables := (movables w)(i := m)\<rparr>) = problem_objects reg w"
    and c: "problem_init_conditions (w\<lparr>movables := (movables w)(i := m)\<rparr>) = problem_init_conditions w"
    by (simp_all add: problem_objects_other problem_init_conditions_other)
  then have "generate_problem_pddl reg (w\<lparr>movables := (movables w)(i := m)\<rparr>) = generate_problem_pddl reg w"
    by (simp add: generate_problem_pddl_def split: sum.splits)
  with out0 out hand o c show ?thesis by simp
qed

theorem unplaced_items_out_of_play_witness:
  "\<exists>w0 p' all_items rs'.
     DatasetGenerator_init example_registry crowded_pools crowded_draws
       = Some (Inr (w0, p', all_items, rs'))
     \<and> timeline w0 w0 \<and> 6 \<in> set all_items \<and> container (movables w0 6) = None
     \<and> 6 \<notin> set (movable_items w0) \<and> item (person w0) \<noteq> Some 6
     \<and> problem_objects example_registry (w0\<lparr>movables := (movables w0)(6 := blank_movable)\<rparr>)
         = problem_objects example_registry w0"
proof -
  have ev: "(case DatasetGenerator_init example_registry crowded_pools crowded_draws of
      Some (Inr (w0, p', all_items, rs')) \<Rightarrow>
        6 \<in> set all_items \<and> container (movables w0 6) = None
    | _ \<Rightarrow> False)"
    by code_simp
  then obtain x where init': "DatasetGenerator_init example_registry crowded_pools crowded_draws
             = Some (Inr x)"
    by (auto split: option.splits sum.splits)
  obtain w0 p' all_items rs' where x: "x = (w0, p', all_items, rs')" by (cases x)
  from init' x have init: "DatasetGenerator_init example_registry crowded_pools crowded_draws
             = Some (Inr (w0, p', all_items, rs'))" by simp
  with ev have i: "6 \<in> set all_items" and c: "container (movables w0 6) = None" by simp_all
  from unplaced_items_out_of_play[OF init timeline.start i c, of blank_movable] init i c
  show ?thesis by (blast intro: timeline.start)
qed


section \<open>Draws consumed by the actions\<close>

lemma true_draws_Cons [simp]:
  "true_draws (d # rs) = (if coin d then Suc (true_draws rs) else true_draws rs)"
  by (simp add: true_draws_def)

lemma true_draws_Nil [simp]: "true_draws [] = 0"
  by (simp add: true_draws_def)

lemma randbelow_returns: "1 \<le> true_draws rs \<Longrightarrow> \<exists>i rs'. randbelow n rs = Some (i, rs')"
  by (cases rs) auto

lemma randbelow_cost: "randbelow n rs = Some (i, rs') \<Longrightarrow> true_draws rs \<le> Suc (true_draws rs')"
  by (cases rs) auto

lemma choice_bool_returns: "1 \<le> true_draws rs \<Longrightarrow> \<exists>b rs'. choice_bool rs = Some (b, rs')"
  by (cases rs) auto

lemma choice_bool_cost: "choice_bool rs = Some (b, rs') \<Longrightarrow> true_draws rs \<le> Suc (true_draws rs')"
  by (cases rs) auto

lemma shuffle_loop_returns:
  "i \<le> true_draws rs \<Longrightarrow> \<exists>ys rs'. shuffle_loop i xs rs = Some (ys, rs')"
proof (induction i arbitrary: xs rs)
  case 0
  then show ?case by simp
next
  case (Suc i)
  then obtain j rs1 where j: "randbelow (Suc (Suc i)) rs = Some (j, rs1)"
    using randbelow_returns[of rs "Suc (Suc i)"] by auto
  with Suc.prems randbelow_cost[OF j] have "i \<le> true_draws rs1" by simp
  from Suc.IH[OF this] j show ?case by simp
qed

lemma shuffle_loop_cost:
  "shuffle_loop i xs rs = Some (ys, rs') \<Longrightarrow> true_draws rs \<le> true_draws rs' + i"
proof (induction i arbitrary: xs rs)
  case 0
  then show ?case by simp
next
  case (Suc i)
  then obtain j rs1 where j: "randbelow (Suc (Suc i)) rs = Some (j, rs1)"
    and rest: "shuffle_loop i (xs[Suc i := xs ! j, j := xs ! Suc i]) rs1 = Some (ys, rs')"
    by (auto split: option.splits)
  from Suc.IH[OF rest] randbelow_cost[OF j] show ?case by simp
qed

lemma shuffle_returns:
  "length xs \<le> true_draws rs \<Longrightarrow> \<exists>ys rs'. shuffle xs rs = Some (ys, rs')"
  unfolding shuffle_def by (rule shuffle_loop_returns) simp

lemma shuffle_cost:
  "shuffle xs rs = Some (ys, rs') \<Longrightarrow> true_draws rs \<le> true_draws rs' + length xs"
  unfolding shuffle_def by (drule shuffle_loop_cost) simp

lemma choice_channel_returns: "1 \<le> true_draws rs \<Longrightarrow> \<exists>c rs'. choice_channel rs = Some (c, rs')"
  using randbelow_returns[of rs "length CHANNELS"] by (auto simp: choice_channel_def)

lemma choice_channel_cost:
  "choice_channel rs = Some (c, rs') \<Longrightarrow> true_draws rs \<le> Suc (true_draws rs')"
  by (auto simp: choice_channel_def split: option.splits dest: randbelow_cost)

lemma TV_perform_action_returns:
  assumes "2 \<le> true_draws rs"
  shows "\<exists>a t' rs'. TV_perform_action t rs = Some (a, t', rs')"
proof -
  from assms obtain b rs1 where b: "choice_bool rs = Some (b, rs1)"
    using choice_bool_returns[of rs] by auto
  from assms choice_bool_cost[OF b] have "1 \<le> true_draws rs1" by simp
  then obtain c rs2 where c: "choice_channel rs1 = Some (c, rs2)"
    using choice_channel_returns by blast
  from assms obtain c' rs3 where c': "choice_channel rs = Some (c', rs3)"
    using choice_channel_returns[of rs] by auto
  from b c c' show ?thesis
    by (simp add: TV_perform_action_def)
qed

lemma TV_perform_action_cost:
  "TV_perform_action t rs = Some (a, t', rs') \<Longrightarrow> true_draws rs \<le> true_draws rs' + 2"
  by (auto simp: TV_perform_action_def split: if_splits option.splits
      dest!: choice_bool_cost choice_channel_cost)

lemma generate_relative_location_returns:
  "1 \<le> true_draws rs \<Longrightarrow> \<exists>r. generate_relative_location x rs = Some r"
  using randbelow_returns[of rs]
  by (cases x) (auto simp: Let_def split: option.splits, metis not_None_eq option.simps(3) surj_pair)

lemma generate_relative_location_cost:
  "generate_relative_location x rs = Some (Inr (loc, info, rs')) \<Longrightarrow>
   true_draws rs \<le> Suc (true_draws rs')"
  by (cases x) (auto simp: Let_def split: if_splits option.splits dest!: randbelow_cost)

lemma Container_perform_action_returns:
  "1 \<le> true_draws rs \<Longrightarrow> \<exists>r. Container_perform_action c w rs = Some r"
  using generate_relative_location_returns[of rs "stationaries w c"]
  by (auto simp: Container_perform_action_def Let_def split: option.splits sum.splits)

lemma Container_perform_action_cost:
  "Container_perform_action c w rs = Some (Inr (a, w', rs')) \<Longrightarrow>
   true_draws rs \<le> Suc (true_draws rs')"
  by (auto simp: Container_perform_action_def Let_def split: option.splits sum.splits if_splits
      dest!: generate_relative_location_cost)


lemma InteractableContainer_perform_action_returns:
  "2 \<le> true_draws rs \<Longrightarrow> \<exists>r. InteractableContainer_perform_action c w rs = Some r"
proof (induction c w rs rule: InteractableContainer_perform_action.induct)
  case (1 c w)
  then show ?case by simp
next
  case (2 c w d rs)
  show ?case
  proof (cases "coin d")
    case True
    then show ?thesis by (auto split: sum.splits prod.splits)
  next
    case False
    with "2.prems" have enough: "2 \<le> true_draws rs" by simp
    then obtain r where r: "Container_perform_action c w rs = Some r"
      using Container_perform_action_returns[of rs c w] by auto
    show ?thesis
    proof (cases r)
      case (Inl e)
      with False r show ?thesis by simp
    next
      case (Inr res)
      obtain a w1 rs1 where res: "res = (a, w1, rs1)" by (cases res)
      show ?thesis
      proof (cases a)
        case (Some t)
        with False r Inr res show ?thesis by simp
      next
        case None
        with r Inr res have same: "w1 = w" "rs1 = rs"
          by (auto dest: Container_perform_action_None)
        from r Inr res None have r': "Container_perform_action c w rs = Some (Inr (None, w1, rs1))"
          by simp
        from "2.IH"[OF False r' refl refl refl refl] enough same
        have "\<exists>r. InteractableContainer_perform_action c w rs = Some r" by simp
        with False r' same show ?thesis by simp
      qed
    qed
  qed
qed

lemma InteractableContainer_perform_action_cost:
  "InteractableContainer_perform_action c w rs = Some (Inr (a, w', rs')) \<Longrightarrow>
   true_draws rs \<le> Suc (true_draws rs')"
proof (induction c w rs rule: InteractableContainer_perform_action.induct)
  case (1 c w)
  then show ?case by simp
next
  case (2 c w d rs)
  show ?case
  proof (cases "coin d")
    case True
    with "2.prems" show ?thesis by (auto split: sum.splits prod.splits)
  next
    case False
    from "2.prems" False obtain a1 w1 rs1 where
      cp: "Container_perform_action c w rs = Some (Inr (a1, w1, rs1))"
      by (auto split: option.splits sum.splits)
    show ?thesis
    proof (cases a1)
      case (Some t)
      with "2.prems" False cp Container_perform_action_cost[OF cp] show ?thesis by auto
    next
      case None
      with cp have same: "w1 = w" "rs1 = rs" by (auto dest: Container_perform_action_None)
      from cp None have cp': "Container_perform_action c w rs = Some (Inr (None, w1, rs1))" by simp
      from "2.IH"[OF False cp' refl refl refl refl] "2.prems" False cp' same
      show ?thesis by simp
    qed
  qed
qed

lemma MovableInteractable_perform_action_returns:
  "1 \<le> true_draws rs \<Longrightarrow> \<exists>r. MovableInteractable_perform_action m w rs = Some r"
proof (induction m w rs rule: MovableInteractable_perform_action.induct)
  case (1 r w)
  then show ?case by simp
next
  case (2 m w d rs)
  show ?case
  proof (cases "coin d")
    case True
    then show ?thesis by (auto split: prod.splits)
  next
    case False
    with "2.prems" have enough: "1 \<le> true_draws rs" by simp
    show ?thesis
    proof (cases "MovableItem_perform_action m w")
      case (Inl e)
      with False show ?thesis by simp
    next
      case (Inr res)
      obtain a w1 where res: "res = (a, w1)" by (cases res)
      show ?thesis
      proof (cases a)
        case (Some t)
        with False Inr res show ?thesis by simp
      next
        case None
        with Inr res have "w1 = w" by (auto dest: MovableItem_perform_action_None)
        with "2.IH"[OF False Inr _ _ enough] False Inr res None show ?thesis by simp
      qed
    qed
  qed
qed

lemma MovableInteractable_perform_action_cost:
  "MovableInteractable_perform_action m w rs = Some (Inr (a, w', rs')) \<Longrightarrow>
   true_draws rs \<le> Suc (true_draws rs')"
proof (induction m w rs rule: MovableInteractable_perform_action.induct)
  case (1 r w)
  then show ?case by simp
next
  case (2 m w d rs)
  show ?case
  proof (cases "coin d")
    case True
    with "2.prems" show ?thesis by (auto split: prod.splits)
  next
    case False
    show ?thesis
    proof (cases "MovableItem_perform_action m w")
      case (Inl e)
      with "2.prems" False show ?thesis by simp
    next
      case (Inr res)
      obtain a1 w1 where res: "res = (a1, w1)" by (cases res)
      show ?thesis
      proof (cases a1)
        case (Some t)
        with "2.prems" False Inr res show ?thesis by auto
      next
        case None
        with Inr res have "w1 = w" by (auto dest: MovableItem_perform_action_None)
        with "2.IH"[OF False Inr] "2.prems" False Inr res None show ?thesis by simp
      qed
    qed
  qed
qed

lemma movable_perform_action_returns:
  "1 \<le> true_draws rs \<Longrightarrow> \<exists>r. movable_perform_action m w rs = Some r"
  using MovableInteractable_perform_action_returns[of rs m w]
  by (auto simp: movable_perform_action_def split: sum.splits)

lemma movable_perform_action_cost:
  "movable_perform_action m w rs = Some (Inr (a, w', rs')) \<Longrightarrow> true_draws rs \<le> Suc (true_draws rs')"
  by (auto simp: movable_perform_action_def split: if_splits sum.splits
      dest: MovableInteractable_perform_action_cost)

lemma stationary_perform_action_returns:
  assumes "2 \<le> true_draws rs"
  shows "\<exists>r. stationary_perform_action c w rs = Some r"
proof -
  from assms have "1 \<le> true_draws rs" by simp
  from Container_perform_action_returns[OF this, of c w]
  obtain r1 where r1: "Container_perform_action c w rs = Some r1" by blast
  from InteractableContainer_perform_action_returns[OF assms, of c w]
  obtain r2 where r2: "InteractableContainer_perform_action c w rs = Some r2" by blast
  show ?thesis
  proof (cases "stationaries w c")
    case (TVObj t)
    from TV_perform_action_returns[OF assms, of t]
    obtain a t' rs' where "TV_perform_action t rs = Some (a, t', rs')" by blast
    with TVObj show ?thesis by (simp add: stationary_perform_action_def)
  qed (use r1 r2 in \<open>auto simp: stationary_perform_action_def split: prod.splits\<close>)
qed

lemma stationary_perform_action_cost:
  "stationary_perform_action c w rs = Some (Inr (a, w', rs')) \<Longrightarrow> true_draws rs \<le> true_draws rs' + 2"
  by (cases "stationaries w c")
     (auto simp: stationary_perform_action_def split: prod.splits option.splits
       dest!: Container_perform_action_cost InteractableContainer_perform_action_cost
         TV_perform_action_cost)

lemma Room_try_items_returns:
  "2 * length cs \<le> true_draws rs \<Longrightarrow> \<exists>r. Room_try_items cs w rs = Some r"
proof (induction cs arbitrary: w rs)
  case Nil
  then show ?case by simp
next
  case (Cons c cs)
  then have "2 \<le> true_draws rs" by simp
  then obtain r where r: "stationary_perform_action c w rs = Some r"
    using stationary_perform_action_returns by blast
  show ?case
  proof (cases r)
    case (Inl e)
    with r show ?thesis by simp
  next
    case (Inr res)
    obtain a w1 rs1 where res: "res = (a, w1, rs1)" by (cases res)
    show ?thesis
    proof (cases a)
      case (Some t)
      with r Inr res show ?thesis by simp
    next
      case None
      from r Inr res have "true_draws rs \<le> true_draws rs1 + 2"
        by (auto dest: stationary_perform_action_cost)
      with Cons.prems have "2 * length cs \<le> true_draws rs1" by simp
      from Cons.IH[OF this, of w1] r Inr res None show ?thesis by simp
    qed
  qed
qed

lemma Room_try_items_cost:
  "Room_try_items cs w rs = Some (Inr (a, w', rs')) \<Longrightarrow>
   true_draws rs \<le> true_draws rs' + 2 * length cs"
proof (induction cs arbitrary: w rs)
  case Nil
  then show ?case by simp
next
  case (Cons c cs)
  from Cons.prems obtain a1 w1 rs1 where
    first: "stationary_perform_action c w rs = Some (Inr (a1, w1, rs1))"
    by (auto split: option.splits sum.splits)
  from stationary_perform_action_cost[OF first]
  have c1: "true_draws rs \<le> true_draws rs1 + 2" .
  show ?case
  proof (cases a1)
    case (Some t)
    with Cons.prems first c1 show ?thesis by auto
  next
    case None
    with Cons.prems first have "Room_try_items cs w1 rs1 = Some (Inr (a, w', rs'))" by simp
    from Cons.IH[OF this] c1 show ?thesis by simp
  qed
qed

lemma Room_perform_action_returns:
  assumes "3 * length (items room) \<le> true_draws rs"
  shows "\<exists>r. Room_perform_action room w rs = Some r"
proof -
  from assms have "length (items room) \<le> true_draws rs" by simp
  then obtain us rs1 where sh: "shuffle (items room) rs = Some (us, rs1)"
    using shuffle_returns by blast
  from shuffle_cost[OF sh] shuffle_length[OF sh] assms
  have "2 * length (rev us) \<le> true_draws rs1" by simp
  from Room_try_items_returns[OF this, of w] sh show ?thesis
    by (simp add: Room_perform_action_def)
qed

lemma Room_perform_action_cost:
  assumes "Room_perform_action room w rs = Some (Inr (a, w', rs'))"
  shows "true_draws rs \<le> true_draws rs' + 3 * length (items room)"
proof -
  from assms obtain us rs1 where sh: "shuffle (items room) rs = Some (us, rs1)"
    and t: "Room_try_items (rev us) w rs1 = Some (Inr (a, w', rs'))"
    by (auto simp: Room_perform_action_def split: option.splits)
  from shuffle_cost[OF sh] shuffle_length[OF sh] Room_try_items_cost[OF t]
  show ?thesis by simp
qed


section \<open>The state-change generator returns when enough coins answer True\<close>

lemma sum_list_pop_at:
  "i < length xs \<Longrightarrow>
   sum_list (map f (snd (pop_at i xs))) + f (fst (pop_at i xs)) = (sum_list (map f xs) :: nat)"
proof -
  assume i: "i < length xs"
  then have "xs = take i xs @ xs ! i # drop (Suc i) xs" by (rule id_take_nth_drop)
  then have "sum_list (map f xs) = sum_list (map f (take i xs @ xs ! i # drop (Suc i) xs))"
    by simp
  then show ?thesis by (simp add: pop_at_def)
qed

lemma try_room_returns:
  assumes "sum_list (map room_cost ur) \<le> true_draws rs"
  shows "\<exists>r. try_room ur w rs = Some r"
proof (cases "ur = []")
  case True
  then show ?thesis by (simp add: try_room_def)
next
  case False
  then obtain room0 ur0 where ur: "ur = room0 # ur0" by (cases ur) auto
  then have "2 \<le> sum_list (map room_cost ur)" by (simp add: room_cost_def)
  with assms have two: "2 \<le> true_draws rs" by simp
  then obtain b rs1 where b: "choice_bool rs = Some (b, rs1)"
    using choice_bool_returns[of rs] by auto
  show ?thesis
  proof (cases b)
    case False
    with b \<open>ur \<noteq> []\<close> show ?thesis by (simp add: try_room_def)
  next
    case True
    from two choice_bool_cost[OF b] have "1 \<le> true_draws rs1" by simp
    then obtain i rs2 where i: "randbelow (length ur) rs1 = Some (i, rs2)"
      using randbelow_returns by blast
    with \<open>ur \<noteq> []\<close> have il: "i < length ur" by (auto dest!: randbelow_Some)
    from sum_list_pop_at[OF il, of room_cost]
    have "room_cost (fst (pop_at i ur)) \<le> sum_list (map room_cost ur)" by simp
    with assms choice_bool_cost[OF b] randbelow_cost[OF i]
    have "3 * length (items (fst (pop_at i ur))) \<le> true_draws rs2"
      by (simp add: room_cost_def)
    from Room_perform_action_returns[OF this, of w] obtain r where
      "Room_perform_action (fst (pop_at i ur)) w rs2 = Some r" by blast
    with b True i \<open>ur \<noteq> []\<close> show ?thesis
      by (cases r) (auto simp: try_room_def split: prod.splits)
  qed
qed

lemma try_room_cost:
  assumes "try_room ur w rs = Some (Inr (a, ur', w', rs'))"
  shows "true_draws rs + sum_list (map room_cost ur') \<le> true_draws rs' + sum_list (map room_cost ur)"
proof (cases "ur = []")
  case True
  with assms show ?thesis by (simp add: try_room_def)
next
  case False
  show ?thesis
  proof (cases rs)
    case Nil
    with assms False show ?thesis by (simp add: try_room_def)
  next
    case (Cons d rs1)
    show ?thesis
    proof (cases "coin d")
      case False
      with assms Cons \<open>ur \<noteq> []\<close> show ?thesis by (auto simp: try_room_def)
    next
      case True
      with assms Cons \<open>ur \<noteq> []\<close> obtain i rs2 where
        i: "randbelow (length ur) rs1 = Some (i, rs2)"
        and act: "Room_perform_action (fst (pop_at i ur)) w rs2 = Some (Inr (a, w', rs'))"
        and ur': "ur' = snd (pop_at i ur)"
        by (auto simp: try_room_def split: option.splits sum.splits prod.splits)
      from i \<open>ur \<noteq> []\<close> have il: "i < length ur" by (auto dest!: randbelow_Some)
      from sum_list_pop_at[OF il, of room_cost] ur'
      have "sum_list (map room_cost ur') + room_cost (fst (pop_at i ur)) = sum_list (map room_cost ur)"
        by simp
      with randbelow_cost[OF i] Room_perform_action_cost[OF act] Cons True
      show ?thesis by (simp add: room_cost_def)
    qed
  qed
qed

lemma try_movable_returns:
  assumes "2 * length um \<le> true_draws rs"
  shows "\<exists>r. try_movable um w rs = Some r"
proof (cases "um = []")
  case True
  then show ?thesis by (simp add: try_movable_def)
next
  case False
  then have "2 \<le> 2 * length um" by (cases um) auto
  with assms have two: "2 \<le> true_draws rs" by simp
  then have "1 \<le> true_draws rs" by simp
  then obtain i rs1 where i: "randbelow (length um) rs = Some (i, rs1)"
    using randbelow_returns by blast
  from two randbelow_cost[OF i] have "1 \<le> true_draws rs1" by simp
  from movable_perform_action_returns[OF this, of "fst (pop_at i um)" w] obtain r where
    "movable_perform_action (fst (pop_at i um)) w rs1 = Some r" by blast
  with i False show ?thesis
    by (cases r) (auto simp: try_movable_def split: prod.splits)
qed

lemma try_movable_cost:
  assumes "try_movable um w rs = Some (Inr (a, um', w', rs'))"
  shows "true_draws rs + 2 * length um' \<le> true_draws rs' + 2 * length um"
proof (cases "um = []")
  case True
  with assms show ?thesis by (simp add: try_movable_def)
next
  case False
  with assms obtain i rs1 where
    i: "randbelow (length um) rs = Some (i, rs1)"
    and act: "movable_perform_action (fst (pop_at i um)) w rs1 = Some (Inr (a, w', rs'))"
    and um': "um' = snd (pop_at i um)"
    by (auto simp: try_movable_def split: option.splits sum.splits prod.splits)
  from i False have il: "i < length um" by (auto dest!: randbelow_Some)
  then have "length um' + 1 = length um" using um' by (auto simp: pop_at_def)
  with randbelow_cost[OF i] movable_perform_action_cost[OF act] show ?thesis by simp
qed

lemma gsc_loop_returns:
  "budget ur um \<le> true_draws rs \<Longrightarrow> \<exists>r. gsc_loop ur um w rs = Some r"
proof (induction ur um w rs rule: gsc_loop.induct)
  case (1 ur um w rs)
  show ?case
  proof (cases "\<not> (0 < length ur \<or> 0 < length um)")
    case True
    then show ?thesis by (subst gsc_loop.simps) simp
  next
    case ne: False
    from "1.prems" have "sum_list (map room_cost ur) \<le> true_draws rs"
      by (simp add: budget_def)
    from try_room_returns[OF this, of w] obtain r1 where r1: "try_room ur w rs = Some r1" by blast
    show ?thesis
    proof (cases r1)
      case (Inl e)
      with r1 ne show ?thesis by (subst gsc_loop.simps) simp
    next
      case (Inr res)
      obtain a1 ur1 w1 rs1 where res: "res = (a1, ur1, w1, rs1)" by (cases res)
      show ?thesis
      proof (cases a1)
        case (Some t)
        with r1 Inr res ne show ?thesis by (subst gsc_loop.simps) simp
      next
        case None
        with r1 Inr res have tr: "try_room ur w rs = Some (Inr (None, ur1, w1, rs1))" by simp
        from try_room_cost[OF tr] "1.prems"
        have b1: "budget ur1 um \<le> true_draws rs1" by (simp add: budget_def)
        then have "2 * length um \<le> true_draws rs1" by (simp add: budget_def)
        from try_movable_returns[OF this, of w1] obtain r2 where
          r2: "try_movable um w1 rs1 = Some r2" by blast
        show ?thesis
        proof (cases r2)
          case (Inl e)
          with tr r2 ne show ?thesis by (subst gsc_loop.simps) simp
        next
          case inr2: (Inr res2)
          obtain a2 um2 w2 rs2 where res2: "res2 = (a2, um2, w2, rs2)" by (cases res2)
          show ?thesis
          proof (cases a2)
            case (Some t)
            with tr r2 inr2 res2 ne show ?thesis by (subst gsc_loop.simps) simp
          next
            case a2None: None
            with r2 inr2 res2 have tm: "try_movable um w1 rs1 = Some (Inr (None, um2, w2, rs2))"
              by simp
            from try_movable_cost[OF tm] b1 have "budget ur1 um2 \<le> true_draws rs2"
              by (simp add: budget_def)
            from "1.IH"[OF ne tr refl refl refl refl refl tm refl refl refl refl refl this]
            obtain r where "gsc_loop ur1 um2 w2 rs2 = Some r" by blast
            with tr tm ne show ?thesis by (subst gsc_loop.simps) simp
          qed
        qed
      qed
    qed
  qed
qed


section \<open>Candidates that cannot act\<close>

lemma InteractableContainer_perform_action_Some:
  "InteractableContainer_perform_action c w rs \<noteq> Some (Inr (None, w', rs'))"
proof (induction c w rs rule: InteractableContainer_perform_action.induct)
  case (1 c w)
  then show ?case by simp
next
  case (2 c w d rs)
  show ?case
  proof (cases "coin d")
    case True
    then show ?thesis by (auto split: sum.splits prod.splits)
  next
    case False
    with 2 show ?thesis by (auto split: option.splits sum.splits)
  qed
qed

lemma MovableInteractable_perform_action_Some:
  "MovableInteractable_perform_action r w rs \<noteq> Some (Inr (None, w', rs'))"
proof (induction r w rs rule: MovableInteractable_perform_action.induct)
  case (1 r w)
  then show ?case by simp
next
  case (2 r w d rs)
  show ?case
  proof (cases "coin d")
    case True
    then show ?thesis by (auto split: prod.splits)
  next
    case False
    with 2 show ?thesis by (auto split: option.splits sum.splits)
  qed
qed

lemma stationary_perform_action_cannot:
  "\<not> stationary_can_act w c \<Longrightarrow> stationary_perform_action c w rs = Some (Inr (None, w, rs))"
  by (auto simp: stationary_can_act_def placeable_def stationary_perform_action_def
      Container_perform_action_def split: stationary.splits option.splits)

lemma stationary_perform_action_None_cannot:
  assumes "stationary_perform_action c w rs = Some (Inr (None, w', rs'))"
  shows "w' = w \<and> rs' = rs \<and> \<not> stationary_can_act w c"
proof (cases "stationaries w c")
  case (SinkObj x)
  with assms InteractableContainer_perform_action_Some show ?thesis
    by (simp add: stationary_perform_action_def)
next
  case (TableObj x)
  with assms show ?thesis
    by (auto simp: stationary_perform_action_def stationary_can_act_def placeable_def
        Container_perform_action_def Let_def split: option.splits if_splits sum.splits)
next
  case (ShelfObj x)
  with assms show ?thesis
    by (auto simp: stationary_perform_action_def stationary_can_act_def placeable_def
        Container_perform_action_def Let_def split: option.splits if_splits sum.splits)
next
  case (FridgeObj x)
  with assms show ?thesis
    by (auto simp: stationary_perform_action_def stationary_can_act_def placeable_def
        Container_perform_action_def Let_def split: option.splits if_splits sum.splits)
next
  case (WindowObj x)
  with assms show ?thesis
    by (auto simp: stationary_perform_action_def split: prod.splits)
next
  case (LightObj x)
  with assms show ?thesis
    by (auto simp: stationary_perform_action_def split: prod.splits)
next
  case (TVObj x)
  with assms show ?thesis
    by (auto simp: stationary_perform_action_def split: prod.splits option.splits)
qed

lemma Room_try_items_cannot:
  "\<forall>c \<in> set cs. \<not> stationary_can_act w c \<Longrightarrow> Room_try_items cs w rs = Some (Inr (None, w, rs))"
  by (induction cs) (simp_all add: stationary_perform_action_cannot)

lemma Room_try_items_None_cannot:
  "Room_try_items cs w rs = Some (Inr (None, w', rs')) \<Longrightarrow>
   w' = w \<and> (\<forall>c \<in> set cs. \<not> stationary_can_act w c)"
proof (induction cs arbitrary: rs)
  case Nil
  then show ?case by simp
next
  case (Cons c cs)
  from Cons.prems obtain w1 rs1 where
    s: "stationary_perform_action c w rs = Some (Inr (None, w1, rs1))"
    and t: "Room_try_items cs w1 rs1 = Some (Inr (None, w', rs'))"
    by (auto split: option.splits sum.splits)
  from stationary_perform_action_None_cannot[OF s]
  have w1: "w1 = w" and c: "\<not> stationary_can_act w c" by auto
  from Cons.IH[of rs1] t w1 c show ?case by simp
qed

lemma Room_perform_action_cannot:
  assumes "\<not> room_can_act w room" "Room_perform_action room w rs = Some r"
  shows "\<exists>rs'. r = Inr (None, w, rs')"
proof -
  from assms(2) obtain us rs1 where sh: "shuffle (items room) rs = Some (us, rs1)"
    and t: "Room_try_items (rev us) w rs1 = Some r"
    by (auto simp: Room_perform_action_def split: option.splits)
  from assms(1) shuffle_set[OF sh] have "\<forall>c \<in> set (rev us). \<not> stationary_can_act w c"
    by (simp add: room_can_act_def)
  from Room_try_items_cannot[OF this, of rs1] t show ?thesis by simp
qed

lemma Room_perform_action_None_cannot:
  assumes "Room_perform_action room w rs = Some (Inr (None, w', rs'))"
  shows "w' = w \<and> \<not> room_can_act w room"
proof -
  from assms obtain us rs1 where sh: "shuffle (items room) rs = Some (us, rs1)"
    and t: "Room_try_items (rev us) w rs1 = Some (Inr (None, w', rs'))"
    by (auto simp: Room_perform_action_def split: option.splits)
  from Room_try_items_None_cannot[OF t] shuffle_set[OF sh] show ?thesis
    by (simp add: room_can_act_def)
qed

lemma movable_perform_action_cannot:
  "\<not> movable_can_act w m \<Longrightarrow> movable_perform_action m w rs = Some (Inr (None, w, rs))"
  by (auto simp: movable_can_act_def movable_perform_action_def MovableItem_perform_action_def)

lemma movable_perform_action_None_cannot:
  assumes "movable_perform_action m w rs = Some (Inr (None, w', rs'))"
  shows "w' = w \<and> \<not> movable_can_act w m"
proof (cases "movable_class (movables w m) = Phone")
  case True
  with assms MovableInteractable_perform_action_Some show ?thesis
    by (simp add: movable_perform_action_def)
next
  case False
  with assms show ?thesis
    by (auto simp: movable_perform_action_def movable_can_act_def
        dest: MovableItem_perform_action_None split: sum.splits)
qed

lemma set_pop_at:
  "i < length xs \<Longrightarrow> set xs = insert (fst (pop_at i xs)) (set (snd (pop_at i xs)))"
proof -
  assume i: "i < length xs"
  then have "xs = take i xs @ xs ! i # drop (Suc i) xs" by (rule id_take_nth_drop)
  then have "set xs = set (take i xs @ xs ! i # drop (Suc i) xs)" by simp
  then show ?thesis by (simp add: pop_at_def)
qed

lemma try_room_cannot:
  assumes "\<forall>room \<in> set ur. \<not> room_can_act w room" "try_room ur w rs = Some r"
  shows "\<exists>ur1 rs1. r = Inr (None, ur1, w, rs1) \<and> set ur1 \<subseteq> set ur"
proof (cases "ur = []")
  case True
  with assms show ?thesis by (auto simp: try_room_def)
next
  case False
  with assms(2) obtain b rs1 where b: "choice_bool rs = Some (b, rs1)"
    by (auto simp: try_room_def split: option.splits)
  show ?thesis
  proof (cases b)
    case False
    with b assms(2) \<open>ur \<noteq> []\<close> show ?thesis by (auto simp: try_room_def)
  next
    case True
    with b assms(2) \<open>ur \<noteq> []\<close> obtain i rs2 r' where
      i: "randbelow (length ur) rs1 = Some (i, rs2)"
      and act: "Room_perform_action (fst (pop_at i ur)) w rs2 = Some r'"
      by (auto simp: try_room_def split: option.splits prod.splits)
    from i \<open>ur \<noteq> []\<close> have il: "i < length ur" by (auto dest!: randbelow_Some)
    with pop_at_set[OF il] assms(1) have "\<not> room_can_act w (fst (pop_at i ur))" by blast
    from Room_perform_action_cannot[OF this act] obtain rs3 where "r' = Inr (None, w, rs3)" ..
    with b True i act assms(2) \<open>ur \<noteq> []\<close> pop_at_set[OF il] show ?thesis
      by (auto simp: try_room_def split: prod.splits)
  qed
qed

lemma try_room_None_cannot:
  assumes "try_room ur w rs = Some (Inr (None, ur1, w1, rs1))"
  shows "w1 = w \<and> (\<forall>room \<in> set ur. room \<in> set ur1 \<or> \<not> room_can_act w room)"
proof (cases "ur = []")
  case True
  with assms show ?thesis by (simp add: try_room_def)
next
  case False
  with assms obtain b rs0 where b: "choice_bool rs = Some (b, rs0)"
    by (auto simp: try_room_def split: option.splits)
  show ?thesis
  proof (cases b)
    case False
    with b assms \<open>ur \<noteq> []\<close> show ?thesis by (simp add: try_room_def)
  next
    case True
    with b assms \<open>ur \<noteq> []\<close> obtain i rs2 where
      i: "randbelow (length ur) rs0 = Some (i, rs2)"
      and act: "Room_perform_action (fst (pop_at i ur)) w rs2 = Some (Inr (None, w1, rs1))"
      and ur1: "ur1 = snd (pop_at i ur)"
      by (auto simp: try_room_def split: option.splits prod.splits sum.splits)
    from i \<open>ur \<noteq> []\<close> have il: "i < length ur" by (auto dest!: randbelow_Some)
    from Room_perform_action_None_cannot[OF act] set_pop_at[OF il] ur1 show ?thesis by auto
  qed
qed

lemma try_movable_cannot:
  assumes "\<forall>m \<in> set um. \<not> movable_can_act w m" "try_movable um w rs = Some r"
  shows "\<exists>um1 rs1. r = Inr (None, um1, w, rs1) \<and> set um1 \<subseteq> set um"
proof (cases "um = []")
  case True
  with assms show ?thesis by (auto simp: try_movable_def)
next
  case False
  with assms(2) obtain i rs1 where i: "randbelow (length um) rs = Some (i, rs1)"
    by (auto simp: try_movable_def split: option.splits)
  from i False have il: "i < length um" by (auto dest!: randbelow_Some)
  with pop_at_set[OF il] assms(1) have "\<not> movable_can_act w (fst (pop_at i um))" by blast
  from movable_perform_action_cannot[OF this, of rs1] i assms(2) False pop_at_set[OF il]
  show ?thesis by (auto simp: try_movable_def split: prod.splits)
qed

lemma try_movable_None_cannot:
  assumes "try_movable um w rs = Some (Inr (None, um1, w1, rs1))"
  shows "w1 = w \<and> (\<forall>m \<in> set um. m \<in> set um1 \<or> \<not> movable_can_act w m)"
proof (cases "um = []")
  case True
  with assms show ?thesis by (simp add: try_movable_def)
next
  case False
  with assms obtain i rs0 where
    i: "randbelow (length um) rs = Some (i, rs0)"
    and act: "movable_perform_action (fst (pop_at i um)) w rs0 = Some (Inr (None, w1, rs1))"
    and um1: "um1 = snd (pop_at i um)"
    by (auto simp: try_movable_def split: option.splits prod.splits sum.splits)
  from i False have il: "i < length um" by (auto dest!: randbelow_Some)
  from movable_perform_action_None_cannot[OF act] set_pop_at[OF il] um1 show ?thesis by auto
qed


section \<open>The errors of a state change\<close>

lemma InteractableContainer_perform_action_no_error:
  "stationaries w c = SinkObj s \<Longrightarrow> InteractableContainer_perform_action c w rs \<noteq> Some (Inl e)"
proof (induction c w rs rule: InteractableContainer_perform_action.induct)
  case (1 c w)
  then show ?case by simp
next
  case (2 c w d rs)
  show ?case
  proof (cases "coin d")
    case True
    with "2.prems" show ?thesis
      by (auto simp: Sink_interact_at_def split: sum.splits prod.splits)
  next
    case False
    show ?thesis
    proof (cases "Container_perform_action c w rs")
      case None
      with False show ?thesis by simp
    next
      case (Some r)
      show ?thesis
      proof (cases r)
        case (Inl e')
        with Some "2.prems" show ?thesis
          by (auto simp: Container_perform_action_def Let_def
              split: option.splits if_splits sum.splits)
      next
        case (Inr res)
        obtain a w' rs' where res: "res = (a, w', rs')" by (cases res)
        show ?thesis
        proof (cases a)
          case (Some t)
          with False \<open>Container_perform_action c w rs = Some r\<close> Inr res show ?thesis by simp
        next
          case None
          with \<open>Container_perform_action c w rs = Some r\<close> Inr res
          have cp: "Container_perform_action c w rs = Some (Inr (None, w', rs'))" by simp
          then have "w' = w" by (auto dest: Container_perform_action_None)
          with "2.IH"[OF False cp refl refl refl] "2.prems" False cp show ?thesis by simp
        qed
      qed
    qed
  qed
qed

lemma stationary_perform_action_no_error:
  assumes "has_level (stationaries w c)"
  shows "stationary_perform_action c w rs \<noteq> Some (Inl e)"
proof (cases "stationaries w c")
  case (SinkObj x)
  with InteractableContainer_perform_action_no_error[OF SinkObj] show ?thesis
    by (simp add: stationary_perform_action_def)
next
  case (TableObj x)
  then show ?thesis
    by (auto simp: stationary_perform_action_def Container_perform_action_def Let_def
        split: option.splits if_splits sum.splits)
next
  case (ShelfObj x)
  with assms show ?thesis
    by (auto simp: stationary_perform_action_def Container_perform_action_def Let_def has_level_def
        split: option.splits if_splits sum.splits)
next
  case (FridgeObj x)
  then show ?thesis
    by (auto simp: stationary_perform_action_def Container_perform_action_def Let_def
        split: option.splits if_splits sum.splits)
next
  case (WindowObj x)
  then show ?thesis
    by (auto simp: stationary_perform_action_def split: prod.splits)
next
  case (LightObj x)
  then show ?thesis
    by (auto simp: stationary_perform_action_def split: prod.splits)
next
  case (TVObj x)
  then show ?thesis
    by (auto simp: stationary_perform_action_def split: prod.splits option.splits)
qed

lemma Room_try_items_no_error:
  "\<forall>c \<in> set cs. has_level (stationaries w c) \<Longrightarrow> Room_try_items cs w rs \<noteq> Some (Inl e)"
proof (induction cs arbitrary: rs)
  case Nil
  then show ?case by simp
next
  case (Cons c cs)
  from Cons.prems have c: "has_level (stationaries w c)"
    and cs: "\<forall>c \<in> set cs. has_level (stationaries w c)" by auto
  show ?case
  proof
    assume bad: "Room_try_items (c # cs) w rs = Some (Inl e)"
    with stationary_perform_action_no_error[OF c, of rs e] obtain w1 rs1 where
      s: "stationary_perform_action c w rs = Some (Inr (None, w1, rs1))"
      and t: "Room_try_items cs w1 rs1 = Some (Inl e)"
      by (auto split: option.splits sum.splits)
    from stationary_perform_action_None_cannot[OF s] have "w1 = w" by simp
    with Cons.IH[OF cs, of rs1] t show False by simp
  qed
qed

lemma try_room_no_error:
  assumes "\<forall>room \<in> set ur. \<forall>c \<in> set (items room). has_level (stationaries w c)"
  shows "try_room ur w rs \<noteq> Some (Inl e)"
proof
  assume bad: "try_room ur w rs = Some (Inl e)"
  then have ne: "ur \<noteq> []" by (auto simp: try_room_def)
  with bad obtain rs1 i rs2 where
    i: "randbelow (length ur) rs1 = Some (i, rs2)"
    and act: "Room_perform_action (fst (pop_at i ur)) w rs2 = Some (Inl e)"
    by (auto simp: try_room_def split: option.splits prod.splits sum.splits if_splits)
  from i ne have il: "i < length ur" by (auto dest!: randbelow_Some)
  from act obtain us rs3 where sh: "shuffle (items (fst (pop_at i ur))) rs2 = Some (us, rs3)"
    and t: "Room_try_items (rev us) w rs3 = Some (Inl e)"
    by (auto simp: Room_perform_action_def split: option.splits)
  from pop_at_set[OF il] assms shuffle_set[OF sh]
  have "\<forall>c \<in> set (rev us). has_level (stationaries w c)" by auto
  from Room_try_items_no_error[OF this] t show False by blast
qed

lemma MovableInteractable_perform_action_no_error:
  "item (person w) = Some r \<or> container (movables w r) \<noteq> None \<Longrightarrow>
   MovableInteractable_perform_action r w rs \<noteq> Some (Inl e)"
proof (induction r w rs rule: MovableInteractable_perform_action.induct)
  case (1 r w)
  then show ?case by simp
next
  case (2 r w d rs)
  show ?case
  proof (cases "coin d")
    case True
    then show ?thesis by (auto split: prod.splits)
  next
    case False
    show ?thesis
    proof (cases "MovableItem_perform_action r w")
      case (Inl e')
      with "2.prems" show ?thesis
        by (auto simp: MovableItem_perform_action_def Let_def split: if_splits option.splits)
    next
      case (Inr res)
      obtain a w' where res: "res = (a, w')" by (cases res)
      show ?thesis
      proof (cases a)
        case (Some t)
        with False Inr res show ?thesis by simp
      next
        case None
        with Inr res have "w' = w" by (auto dest: MovableItem_perform_action_None)
        with "2.IH"[OF False Inr _ _] "2.prems" False Inr res None
        show ?thesis by simp
      qed
    qed
  qed
qed

lemma movable_perform_action_no_error:
  assumes "item (person w) = Some r \<or> container (movables w r) \<noteq> None"
  shows "movable_perform_action r w rs \<noteq> Some (Inl e)"
proof (cases "movable_class (movables w r) = Phone")
  case True
  with MovableInteractable_perform_action_no_error[OF assms] show ?thesis
    by (simp add: movable_perform_action_def)
next
  case False
  with assms show ?thesis
    by (auto simp: movable_perform_action_def MovableItem_perform_action_def Let_def
        split: sum.splits if_splits option.splits)
qed

lemma try_movable_no_error:
  assumes "\<forall>r \<in> set um. item (person w) = Some r \<or> container (movables w r) \<noteq> None"
  shows "try_movable um w rs \<noteq> Some (Inl e)"
proof
  assume bad: "try_movable um w rs = Some (Inl e)"
  then have ne: "um \<noteq> []" by (auto simp: try_movable_def)
  with bad obtain i rs1 where i: "randbelow (length um) rs = Some (i, rs1)"
    and act: "movable_perform_action (fst (pop_at i um)) w rs1 = Some (Inl e)"
    by (auto simp: try_movable_def split: option.splits prod.splits sum.splits)
  from i ne have "i < length um" by (auto dest!: randbelow_Some)
  then have "fst (pop_at i um) \<in> set um" using pop_at_set by blast
  with assms movable_perform_action_no_error act show False by blast
qed

text \<open>
  With shelves that have a level and items that are held or have a container, the only error
  of the loop is its own assertion, and then no candidate of the pools could act.
\<close>

lemma gsc_loop_error:
  "\<forall>r \<in> set um. item (person w) = Some r \<or> container (movables w r) \<noteq> None \<Longrightarrow>
   \<forall>room \<in> set ur. \<forall>c \<in> set (items room). has_level (stationaries w c) \<Longrightarrow>
   gsc_loop ur um w rs = Some (Inl e) \<Longrightarrow>
   e = AssertionError ''len(usable_rooms) > 0 or len(usable_movables) > 0''
   \<and> (\<forall>room \<in> set ur. \<not> room_can_act w room) \<and> (\<forall>m \<in> set um. \<not> movable_can_act w m)"
proof (induction ur um w rs rule: gsc_loop.induct)
  case (1 ur um w rs)
  note bad = "1.prems"(3)
  show ?case
  proof (cases "\<not> (0 < length ur \<or> 0 < length um)")
    case True
    with bad show ?thesis by (subst (asm) gsc_loop.simps) simp
  next
    case ne: False
    from bad ne try_room_no_error[OF "1.prems"(2), of rs] obtain ur1 w1 rs1 where
      tr: "try_room ur w rs = Some (Inr (None, ur1, w1, rs1))"
      by (subst (asm) gsc_loop.simps) (auto split: option.splits sum.splits)
    from try_room_None_cannot[OF tr] have w1: "w1 = w"
      and r1: "\<forall>room \<in> set ur. room \<in> set ur1 \<or> \<not> room_can_act w room" by auto
    from try_room_subset[OF tr] have sub1: "set ur1 \<subseteq> set ur" .
    from bad tr ne w1 try_movable_no_error[OF "1.prems"(1), of rs1] obtain um2 w2 rs2 where
      tm: "try_movable um w1 rs1 = Some (Inr (None, um2, w2, rs2))"
      and rest: "gsc_loop ur1 um2 w2 rs2 = Some (Inl e)"
      by (subst (asm) gsc_loop.simps) (auto split: option.splits sum.splits)
    from try_movable_None_cannot[OF tm] w1 have w2: "w2 = w"
      and m2: "\<forall>m \<in> set um. m \<in> set um2 \<or> \<not> movable_can_act w m" by auto
    from try_movable_subset[OF tm] have sub2: "set um2 \<subseteq> set um" .
    have p1: "\<forall>r \<in> set um2. item (person w2) = Some r \<or> container (movables w2 r) \<noteq> None"
      using "1.prems"(1) sub2 w2 by auto
    have p2: "\<forall>room \<in> set ur1. \<forall>c \<in> set (items room). has_level (stationaries w2 c)"
      using "1.prems"(2) sub1 w2 by auto
    from "1.IH"[OF ne tr refl refl refl refl refl tm refl refl refl refl refl p1 p2 rest] w2
    have "e = AssertionError ''len(usable_rooms) > 0 or len(usable_movables) > 0''"
      and "\<forall>room \<in> set ur1. \<not> room_can_act w room" and "\<forall>m \<in> set um2. \<not> movable_can_act w m"
      by auto
    with r1 m2 show ?thesis by blast
  qed
qed

text \<open>When no candidate of the pools can act, the loop can only end in its assertion.\<close>

lemma gsc_loop_cannot:
  "\<forall>room \<in> set ur. \<not> room_can_act w room \<Longrightarrow> \<forall>m \<in> set um. \<not> movable_can_act w m \<Longrightarrow>
   gsc_loop ur um w rs = Some r \<Longrightarrow>
   r = Inl (AssertionError ''len(usable_rooms) > 0 or len(usable_movables) > 0'')"
proof (induction ur um w rs rule: gsc_loop.induct)
  case (1 ur um w rs)
  note ret = "1.prems"(3)
  show ?case
  proof (cases "\<not> (0 < length ur \<or> 0 < length um)")
    case True
    with ret show ?thesis by (subst (asm) gsc_loop.simps) simp
  next
    case ne: False
    from ret ne obtain r1 where r1: "try_room ur w rs = Some r1"
      by (subst (asm) gsc_loop.simps) (auto split: option.splits)
    from try_room_cannot[OF "1.prems"(1) r1] obtain ur1 rs1 where
      tr: "try_room ur w rs = Some (Inr (None, ur1, w, rs1))" and sub1: "set ur1 \<subseteq> set ur"
      using r1 by auto
    from ret tr ne obtain r2 where r2: "try_movable um w rs1 = Some r2"
      by (subst (asm) gsc_loop.simps) (auto split: option.splits)
    from try_movable_cannot[OF "1.prems"(2) r2] obtain um2 rs2 where
      tm: "try_movable um w rs1 = Some (Inr (None, um2, w, rs2))" and sub2: "set um2 \<subseteq> set um"
      using r2 by auto
    from ret tr tm ne have rest: "gsc_loop ur1 um2 w rs2 = Some r"
      by (subst (asm) gsc_loop.simps) auto
    have p1: "\<forall>room \<in> set ur1. \<not> room_can_act w room" using "1.prems"(1) sub1 by auto
    have p2: "\<forall>m \<in> set um2. \<not> movable_can_act w m" using "1.prems"(2) sub2 by auto
    from "1.IH"[OF ne tr refl refl refl refl refl tm refl refl refl refl refl p1 p2 rest]
    show ?thesis .
  qed
qed

lemma gsc_loop_cost:
  "gsc_loop ur um w rs = Some (Inr (a, w', rs')) \<Longrightarrow> true_draws rs \<le> true_draws rs' + budget ur um"
proof (induction ur um w rs rule: gsc_loop.induct)
  case (1 ur um w rs)
  note ret = "1.prems"
  then have ne: "\<not> \<not> (0 < length ur \<or> 0 < length um)"
    by (subst (asm) gsc_loop.simps) (auto split: if_splits)
  from ret ne obtain a1 ur1 w1 rs1 where tr: "try_room ur w rs = Some (Inr (a1, ur1, w1, rs1))"
    by (subst (asm) gsc_loop.simps) (auto split: option.splits sum.splits)
  note c1 = try_room_cost[OF tr]
  show ?case
  proof (cases a1)
    case (Some t)
    with ret tr ne have "rs' = rs1" by (subst (asm) gsc_loop.simps) auto
    with c1 show ?thesis by (simp add: budget_def)
  next
    case None
    with tr have tr': "try_room ur w rs = Some (Inr (None, ur1, w1, rs1))" by simp
    from ret tr' ne obtain a2 um2 w2 rs2 where
      tm: "try_movable um w1 rs1 = Some (Inr (a2, um2, w2, rs2))"
      by (subst (asm) gsc_loop.simps) (auto split: option.splits sum.splits)
    note c2 = try_movable_cost[OF tm]
    show ?thesis
    proof (cases a2)
      case (Some t)
      with ret tr' tm ne have "rs' = rs2" by (subst (asm) gsc_loop.simps) auto
      with c1 c2 show ?thesis by (simp add: budget_def)
    next
      case a2None: None
      with tm have tm': "try_movable um w1 rs1 = Some (Inr (None, um2, w2, rs2))" by simp
      from ret tr' tm' ne have rest: "gsc_loop ur1 um2 w2 rs2 = Some (Inr (a, w', rs'))"
        by (subst (asm) gsc_loop.simps) auto
      from "1.IH"[OF ne tr' refl refl refl refl refl tm' refl refl refl refl refl rest] c1 c2
      show ?thesis by (simp add: budget_def)
    qed
  qed
qed

text \<open>With rooms in the pool, no movable item and a coin that always answers False.\<close>

lemma gsc_loop_coin_False:
  "ur \<noteq> [] \<Longrightarrow> gsc_loop ur [] w (replicate n 1) = None"
proof (induction n)
  case 0
  then show ?case
    by (subst gsc_loop.simps) (simp add: try_room_def)
next
  case (Suc n)
  have "\<not> coin 1" by (simp add: coin_def)
  with Suc show ?case
    by (subst gsc_loop.simps) (simp add: try_room_def try_movable_def)
qed


section \<open>Termination of a state change\<close>

text \<open>
  C3, as stated, fails on the coins: the loop pops a room only when the coin answers True,
  and with no movable item left an answer False retries with the same pools. In the living
  room of the TV (well-formed, with five items that can act) and in a world whose only room
  has no item (nothing can act), a thousand draws on which the coin answers False are used
  up by a thousand retries and the call has returned neither a narration nor the assertion
  error; by \<open>gsc_loop_coin_False\<close> the same holds for every number of such draws.
\<close>

theorem state_change_coin_always_False:
  "ownership_inv tv_world \<and> encoding_inv tv_world
   \<and> listed_items_placed tv_world \<and> shelves_have_level tv_world \<and> eligible tv_world
   \<and> generate_state_change tv_world (replicate 1000 1) = None
   \<and> \<not> eligible empty_room_world
   \<and> generate_state_change empty_room_world (replicate 1000 1) = None"
proof (intro conjI)
  show "ownership_inv tv_world" by code_simp
  show "encoding_inv tv_world" by code_simp
  show "listed_items_placed tv_world" by code_simp
  show "shelves_have_level tv_world" by code_simp
  show "eligible tv_world" by code_simp
  show "\<not> eligible empty_room_world" by code_simp
  have r1: "rooms tv_world \<noteq> []" and m1: "movable_items tv_world = []"
    by (simp_all add: tv_world_def)
  show "generate_state_change tv_world (replicate 1000 1) = None"
    unfolding generate_state_change_def m1 by (rule gsc_loop_coin_False[OF r1])
  have r2: "rooms empty_room_world \<noteq> []" and m2: "movable_items empty_room_world = []"
    by (simp_all add: empty_room_world_def)
  show "generate_state_change empty_room_world (replicate 1000 1) = None"
    unfolding generate_state_change_def m2 by (rule gsc_loop_coin_False[OF r2])
qed

text \<open>
  C3, amended: let the draws hold at least as many on which the coin answers True as the
  pools can cost (for each room two and three for each of its items, for each movable item
  of the list two). Then \<open>generate_state_change\<close> returns. When every item of the list is held
  by the person or has a container, every shelf of a room has at least one level, and some
  candidate can act (a room has a sink, a window, a light, a TV or a container that can hold
  the held item; or the list holds a phone; or the list holds an item and the hand is
  empty), it returns a narration, and the draws it used hold at most that many on which the
  coin answers True.
  When no candidate can act, it raises the assertion error of the loop.
\<close>

theorem state_change_returns:
  assumes "budget (rooms w) (movable_items w) \<le> true_draws rs"
  shows "(\<exists>r. generate_state_change w rs = Some r)
    \<and> (listed_items_placed w \<and> shelves_have_level w \<and> eligible w \<longrightarrow>
         (\<exists>a w' rs'. generate_state_change w rs = Some (Inr (a, w', rs'))
            \<and> true_draws rs \<le> true_draws rs' + budget (rooms w) (movable_items w)))
    \<and> (\<not> eligible w \<longrightarrow>
         generate_state_change w rs
           = Some (Inl (AssertionError ''len(usable_rooms) > 0 or len(usable_movables) > 0'')))"
proof -
  from gsc_loop_returns[OF assms, of w] obtain r where
    r: "gsc_loop (rooms w) (movable_items w) w rs = Some r" by blast
  have one: "\<exists>r. generate_state_change w rs = Some r"
    using r by (simp add: generate_state_change_def)
  have two: "\<exists>a w' rs'. generate_state_change w rs = Some (Inr (a, w', rs'))
            \<and> true_draws rs \<le> true_draws rs' + budget (rooms w) (movable_items w)"
    if inv: "listed_items_placed w \<and> shelves_have_level w \<and> eligible w"
  proof (cases r)
    case (Inl e)
    from inv have stat: "\<forall>room \<in> set (rooms w). \<forall>c \<in> set (items room).
        has_level (stationaries w c)"
      by (simp add: shelves_have_level_def list_all_iff)
    from inv have placed: "\<forall>r \<in> set (movable_items w).
        item (person w) = Some r \<or> container (movables w r) \<noteq> None"
      by (simp add: listed_items_placed_def list_all_iff)
    from r Inl have "gsc_loop (rooms w) (movable_items w) w rs = Some (Inl e)" by simp
    from gsc_loop_error[OF placed stat this] inv show ?thesis
      by (auto simp: eligible_def)
  next
    case (Inr res)
    obtain a w' rs' where "res = (a, w', rs')" by (cases res)
    with r Inr have g: "gsc_loop (rooms w) (movable_items w) w rs = Some (Inr (a, w', rs'))"
      by simp
    from gsc_loop_cost[OF g] g show ?thesis
      by (auto simp: generate_state_change_def)
  qed
  have three: "generate_state_change w rs
           = Some (Inl (AssertionError ''len(usable_rooms) > 0 or len(usable_movables) > 0''))"
    if no: "\<not> eligible w"
  proof -
    from no have "\<forall>room \<in> set (rooms w). \<not> room_can_act w room"
      and "\<forall>m \<in> set (movable_items w). \<not> movable_can_act w m"
      by (auto simp: eligible_def)
    from gsc_loop_cannot[OF this r] r show ?thesis
      by (simp add: generate_state_change_def)
  qed
  from one two three show ?thesis by blast
qed

theorem state_change_returns_witness:
  "budget (rooms example_world) (movable_items example_world)
     \<le> true_draws [0, 0, 0, 0, 0, 0, 0, 0, 0, 0, 0, 0, 0]
   \<and> listed_items_placed example_world \<and> shelves_have_level example_world
   \<and> eligible example_world
   \<and> (\<exists>a w' rs'. generate_state_change example_world [0, 0, 0, 0, 0, 0, 0, 0, 0, 0, 0, 0, 0]
         = Some (Inr (a, w', rs')))
   \<and> budget (rooms empty_room_world) (movable_items empty_room_world) \<le> true_draws [0, 0]
   \<and> \<not> eligible empty_room_world
   \<and> generate_state_change empty_room_world [0, 0]
       = Some (Inl (AssertionError ''len(usable_rooms) > 0 or len(usable_movables) > 0''))"
proof -
  have b1: "budget (rooms example_world) (movable_items example_world)
     \<le> true_draws [0, 0, 0, 0, 0, 0, 0, 0, 0, 0, 0, 0, 0]"
    by code_simp
  have b2: "budget (rooms empty_room_world) (movable_items empty_room_world) \<le> true_draws [0, 0]"
    by code_simp
  have o: "listed_items_placed example_world" by code_simp
  have e: "shelves_have_level example_world" by code_simp
  have el: "eligible example_world" by code_simp
  have nel: "\<not> eligible empty_room_world" by code_simp
  from state_change_returns[OF b1] state_change_returns[OF b2] b1 b2 o e el nel
  show ?thesis by blast
qed

section \<open>Reading the conditions of the problem\<close>

lemma space_split:
  assumes "symbol a" "symbol b" "a @ CHR '' '' # x = b @ CHR '' '' # y"
  shows "a = b \<and> x = y"
proof -
  have a: "takeWhile (\<lambda>c. c \<noteq> CHR '' '') (a @ CHR '' '' # x) = a"
    using assms(1) by (subst takeWhile_append2) (auto simp: symbol_def)
  have b: "takeWhile (\<lambda>c. c \<noteq> CHR '' '') (b @ CHR '' '' # y) = b"
    using assms(2) by (subst takeWhile_append2) (auto simp: symbol_def)
  from a b assms(3) have "a = b" by simp
  with assms(3) show ?thesis by simp
qed

lemma symbol_no_space: "symbol a \<Longrightarrow> a \<noteq> b @ CHR '' '' # y"
  by (auto simp: symbol_def)

lemma contains_predicate_shape:
  "get_contains_predicate cls c i kw = Inr p \<Longrightarrow>
   is_container cls
   \<and> (\<exists>rest. p = stationary_type_name cls @ ''-contains '' @ c @ CHR '' '' # i @ rest
        \<and> (rest = [] \<or> (\<exists>l. rest = CHR '' '' # l)))"
  by (auto simp: get_contains_predicate_def Container_get_contains_predicate_def
      split: if_splits option.splits pyval.splits)

lemma contains_prefix_cancel:
  "is_container cls \<Longrightarrow> is_container cls' \<Longrightarrow>
   stationary_type_name cls @ ''-contains '' @ x = stationary_type_name cls' @ ''-contains '' @ y
   \<Longrightarrow> x = y"
  by (cases cls; cases cls') simp_all

text \<open>Two contains predicates that are the same string are about the same item.\<close>

lemma contains_predicate_item:
  assumes p: "get_contains_predicate cls c i kw = Inr p"
    and q: "get_contains_predicate cls' c' j kw' = Inr p"
    and sym: "symbol c" "symbol c'" "symbol i" "symbol j"
  shows "i = j"
proof -
  from contains_predicate_shape[OF p] obtain rest where
    c1: "is_container cls"
    and p1: "p = stationary_type_name cls @ ''-contains '' @ c @ CHR '' '' # i @ rest"
    and r1: "rest = [] \<or> (\<exists>l. rest = CHR '' '' # l)" by blast
  from contains_predicate_shape[OF q] obtain rest' where
    c2: "is_container cls'"
    and p2: "p = stationary_type_name cls' @ ''-contains '' @ c' @ CHR '' '' # j @ rest'"
    and r2: "rest' = [] \<or> (\<exists>l. rest' = CHR '' '' # l)" by blast
  from p1 p2 have "stationary_type_name cls @ ''-contains '' @ (c @ CHR '' '' # i @ rest)
     = stationary_type_name cls' @ ''-contains '' @ (c' @ CHR '' '' # j @ rest')" by simp
  from contains_prefix_cancel[OF c1 c2 this]
  have "c @ CHR '' '' # (i @ rest) = c' @ CHR '' '' # (j @ rest')" by simp
  from space_split[OF sym(1,2) this] have e: "i @ rest = j @ rest'" by simp
  from r1 r2 show ?thesis
  proof (elim disjE exE)
    assume "rest = []" "rest' = []"
    with e show ?thesis by simp
  next
    fix l assume "rest = []" "rest' = CHR '' '' # l"
    with e symbol_no_space[OF sym(3), of j l] show ?thesis by simp
  next
    fix l assume "rest = CHR '' '' # l" "rest' = []"
    with e symbol_no_space[OF sym(4), of i l] show ?thesis by simp
  next
    fix l l' assume "rest = CHR '' '' # l" "rest' = CHR '' '' # l'"
    with e space_split[OF sym(3,4), of l l'] show ?thesis by simp
  qed
qed

text \<open>A contains predicate is none of the conditions of a stationary item.\<close>

lemma contains_not_stationary_condition:
  assumes "get_contains_predicate cls c i kw = Inr p"
  shows "p \<notin> set (stationary_get_init_conditions x)"
proof -
  from contains_predicate_shape[OF assms] obtain rest where
    c1: "is_container cls"
    and p1: "p = stationary_type_name cls @ ''-contains '' @ c @ CHR '' '' # i @ rest" by blast
  from c1 have "p \<notin> set (stationary_get_init_conditions x)"
    unfolding p1
    by (cases cls; cases x)
       (auto simp: StationaryItem_get_init_conditions_def get_in_room_predicate_def
         Shelf_get_init_conditions_def Sink_get_init_conditions_def
         Sink_get_special_init_conditions_def Window_get_init_conditions_def
         Window_get_special_init_conditions_def Light_get_init_conditions_def
         Light_get_special_init_conditions_def TV_get_init_conditions_def
         TV_get_special_init_conditions_def)
  then show ?thesis .
qed

lemma hand_empty_not_stationary_condition:
  "get_empty_hand_predicate n \<notin> set (stationary_get_init_conditions x)"
  by (cases x)
     (auto simp: get_empty_hand_predicate_def
       StationaryItem_get_init_conditions_def get_in_room_predicate_def
       Shelf_get_init_conditions_def Sink_get_init_conditions_def
       Sink_get_special_init_conditions_def Window_get_init_conditions_def
       Window_get_special_init_conditions_def Light_get_init_conditions_def
       Light_get_special_init_conditions_def TV_get_init_conditions_def
       TV_get_special_init_conditions_def)

text \<open>The conditions of a movable item: where it is, and the ringing of a phone.\<close>

lemma movable_conditions_form:
  assumes "movable_get_init_conditions j w = Inr cs" "q \<in> set cs"
  shows "(container (movables w j) = None
          \<and> q = get_in_hand_predicate (person_pddl_name (person w)) (pddl_name (movables w j)))
    \<or> (\<exists>c. container (movables w j) = Some c
          \<and> get_contains_predicate (type_of (stationaries w c))
               (pddl_name (stationary_base (stationaries w c))) (pddl_name (movables w j))
               (extra_location_info (movables w j)) = Inr q)
    \<or> (movable_class (movables w j) = Phone \<and> ringing (movables w j)
          \<and> q = ''phone-ringing '' @ pddl_name (movables w j))"
  using assms
  by (auto simp: movable_get_init_conditions_def MovableItem_get_init_conditions_def Let_def
      Phone_get_special_init_conditions_def split: option.splits sum.splits if_splits)

lemma movable_conditions_location:
  assumes "movable_get_init_conditions j w = Inr cs"
  shows "(case container (movables w j) of
            None \<Rightarrow> get_in_hand_predicate (person_pddl_name (person w)) (pddl_name (movables w j))
                      \<in> set cs
          | Some c \<Rightarrow> \<exists>q \<in> set cs. get_contains_predicate (type_of (stationaries w c))
               (pddl_name (stationary_base (stationaries w c))) (pddl_name (movables w j))
               (extra_location_info (movables w j)) = Inr q)"
  using assms
  by (auto simp: movable_get_init_conditions_def MovableItem_get_init_conditions_def Let_def
      split: option.splits sum.splits if_splits)

lemma movables_init_conditions_member:
  "movables_init_conditions js w = Inr conds \<Longrightarrow>
   q \<in> set conds \<longleftrightarrow> (\<exists>j \<in> set js. \<exists>cs. movable_get_init_conditions j w = Inr cs \<and> q \<in> set cs)"
  by (induction js arbitrary: conds) (auto split: sum.splits)

lemma problem_init_conditions_member:
  assumes "problem_init_conditions w = Inr conds"
  shows "q \<in> set conds \<longleftrightarrow>
     q \<in> set (Person_get_init_conditions (person w))
     \<or> (\<exists>room \<in> set (rooms w). \<exists>c \<in> set (items room).
           q \<in> set (stationary_get_init_conditions (stationaries w c)))
     \<or> (\<exists>j \<in> set (movable_items w). \<exists>cs. movable_get_init_conditions j w = Inr cs \<and> q \<in> set cs)"
proof -
  from assms obtain ms where ms: "movables_init_conditions (movable_items w) w = Inr ms"
    and conds: "conds = Person_get_init_conditions (person w)
               @ concat (map (\<lambda>room. Room_get_init_conditions room w) (rooms w)) @ ms"
    by (auto simp: problem_init_conditions_def split: sum.splits)
  show ?thesis
    unfolding conds using movables_init_conditions_member[OF ms, of q]
    by (auto simp: Room_get_init_conditions_def)
qed

text \<open>The conditions of the problem do not raise in a world that keeps the invariants.\<close>

lemma can_hold_is_container: "can_hold t m \<Longrightarrow> is_container t"
  by (cases t) simp_all

lemma movable_get_init_conditions_ok:
  assumes "ownership w j"
    and "case container (movables w j) of None \<Rightarrow> True
         | Some c \<Rightarrow> level_ok (stationaries w c) (extra_location_info (movables w j))"
  shows "\<exists>cs. movable_get_init_conditions j w = Inr cs"
proof (cases "container (movables w j)")
  case None
  then show ?thesis
    by (simp add: movable_get_init_conditions_def MovableItem_get_init_conditions_def Let_def)
next
  case (Some c)
  with assms(1) have ch: "can_hold (type_of (stationaries w c)) (movable_class (movables w j))"
    by (auto simp: ownership_def held_def in_container_def)
  then have ic: "is_container (type_of (stationaries w c))" by (rule can_hold_is_container)
  from assms(2) Some have lv: "level_ok (stationaries w c) (extra_location_info (movables w j))"
    by simp
  have "\<exists>p. get_contains_predicate (type_of (stationaries w c))
               (pddl_name (stationary_base (stationaries w c))) (pddl_name (movables w j))
               (extra_location_info (movables w j)) = Inr p"
  proof (cases "stationaries w c")
    case (ShelfObj s)
    with lv show ?thesis
      by (auto simp: level_ok_def get_contains_predicate_def)
  qed (use ic in \<open>auto simp: get_contains_predicate_def\<close>)
  with Some show ?thesis
    by (auto simp: movable_get_init_conditions_def MovableItem_get_init_conditions_def Let_def)
qed

lemma movables_init_conditions_ok:
  "\<forall>j \<in> set js. \<exists>cs. movable_get_init_conditions j w = Inr cs \<Longrightarrow>
   \<exists>conds. movables_init_conditions js w = Inr conds"
  by (induction js) auto

lemma problem_init_conditions_ok:
  assumes "ownership_inv w" "encoding_inv w"
  shows "\<exists>conds. problem_init_conditions w = Inr conds"
proof -
  have "\<forall>j \<in> set (movable_items w). \<exists>cs. movable_get_init_conditions j w = Inr cs"
  proof
    fix j assume j: "j \<in> set (movable_items w)"
    with assms(1) have o: "ownership w j" by (simp add: ownership_inv_def)
    from assms(2) j have "case container (movables w j) of None \<Rightarrow> True
         | Some c \<Rightarrow> level_ok (stationaries w c) (extra_location_info (movables w j))"
      by (simp add: encoding_inv_def)
    with o show "\<exists>cs. movable_get_init_conditions j w = Inr cs"
      by (rule movable_get_init_conditions_ok)
  qed
  from movables_init_conditions_ok[OF this] show ?thesis
    by (auto simp: problem_init_conditions_def)
qed


section \<open>Actions keep the invariant of the encoder\<close>

lemma level_ok_not_shelf:
  "type_of x \<noteq> Shelf \<Longrightarrow> level_ok x info"
  by (cases x) (simp_all add: level_ok_def)

lemma encoding_inv_stationary_update:
  assumes enc: "encoding_inv w"
    and ty: "type_of x' \<noteq> Shelf"
    and ok: "\<And>p. stat_ok p (stationaries w c) \<Longrightarrow> stat_ok p x'"
  shows "encoding_inv (w\<lparr>stationaries := (stationaries w)(c := x')\<rparr>)"
  using enc ok level_ok_not_shelf[OF ty]
  by (auto simp: encoding_inv_def split: option.splits)

lemma encoding_inv_one_action:
  assumes "one_action w a w'" "encoding_inv w"
  shows "encoding_inv w'"
  using assms(1)
proof cases
  case (pick_up m)
  then obtain c where
    w': "w' = w\<lparr>person := (person w)\<lparr>item := Some m\<rparr>,
               movables := (movables w)(m := (movables w m)\<lparr>container := None, relative_location := None\<rparr>)\<rparr>"
    by (auto simp: MovableItem_perform_action_def Let_def split: if_splits option.splits)
  from assms(2) show ?thesis
    unfolding w' by (auto simp: encoding_inv_def split: option.splits)
next
  case (phone m)
  then have w': "w' = w\<lparr>movables := (movables w)(m := (movables w m)\<lparr>ringing := \<not> ringing (movables w m)\<rparr>)\<rparr>"
    by (auto simp: Phone_interact_def Let_def)
  from assms(2) show ?thesis
    unfolding w' by (auto simp: encoding_inv_def split: option.splits)
next
  case (place c rs rs')
  then obtain i loc info where
    loc: "generate_relative_location (stationaries w c) rs = Some (Inr (loc, info, rs'))"
    and w': "w' = w\<lparr>person := (person w)\<lparr>item := None\<rparr>,
               movables := (movables w)(i := (movables w i)\<lparr>container := Some c,
                   relative_location := Some loc, extra_location_info := info\<rparr>)\<rparr>"
    by (auto simp: Container_perform_action_def Let_def split: option.splits if_splits sum.splits)
  from level_ok_location[OF loc] assms(2) show ?thesis
    unfolding w' by (auto simp: encoding_inv_def split: option.splits)
next
  case (faucet c)
  then obtain s where s: "stationaries w c = SinkObj s"
    and w': "w' = w\<lparr>stationaries := (stationaries w)(c := SinkObj (snd (Sink_interact s)))\<rparr>"
    by (auto simp: Sink_interact_at_def split: stationary.splits prod.splits)
  show ?thesis
    unfolding w' using assms(2)
    by (rule encoding_inv_stationary_update)
       (simp_all add: s stat_ok_def Sink_interact_def Let_def base_def)
next
  case (blinds c x x')
  then have x': "x' = x\<lparr>window_open := \<not> window_open x\<rparr>"
    by (auto simp: Window_perform_action_def Let_def)
  show ?thesis
    unfolding blinds(1) using assms(2)
    by (rule encoding_inv_stationary_update)
       (simp_all add: blinds(3) x' stat_ok_def base_def)
next
  case (light c x x')
  then have x': "x' = x\<lparr>light_on := \<not> light_on x\<rparr>"
    by (auto simp: Light_perform_action_def Let_def)
  show ?thesis
    unfolding light(1) using assms(2)
    by (rule encoding_inv_stationary_update)
       (simp_all add: light(3) x' stat_ok_def base_def)
next
  case (tv c x rs x' rs')
  have par: "parent x' = parent x \<and> pddl_name x' = pddl_name x \<and> name x' = name x"
    using tv(4)
    by (auto simp: TV_perform_action_def split: if_splits option.splits)
  have ch: "curr_channel x \<in> set CHANNELS \<Longrightarrow> curr_channel x' \<in> set CHANNELS"
    using tv(4) choice_channel_member
    by (auto simp: TV_perform_action_def split: if_splits option.splits)
  show ?thesis
    unfolding tv(1) using assms(2)
    by (rule encoding_inv_stationary_update)
       (use par ch in \<open>simp_all add: tv(3) stat_ok_def base_def\<close>)
qed

lemma generate_state_change_encoding_inv:
  "encoding_inv w \<Longrightarrow> generate_state_change w rs = Some (Inr (a, w', rs')) \<Longrightarrow> encoding_inv w'"
  unfolding generate_state_change_def
  using gsc_loop_one[OF subset_refl subset_refl] encoding_inv_one_action
  by blast

lemma timeline_encoding_inv:
  "timeline w0 w \<Longrightarrow> encoding_inv w0 \<Longrightarrow> encoding_inv w"
  by (induction rule: timeline.induct) (auto dest: generate_state_change_encoding_inv)


section \<open>The conditions of the problem before and after a pick-up\<close>

lemma contains_not_other:
  assumes "get_contains_predicate cls c i kw = Inr p"
  shows "p \<noteq> get_in_hand_predicate n x \<and> p \<noteq> get_empty_hand_predicate n
    \<and> p \<noteq> ''phone-ringing '' @ x"
proof -
  from contains_predicate_shape[OF assms] obtain rest where
    c1: "is_container cls"
    and p1: "p = stationary_type_name cls @ ''-contains '' @ c @ CHR '' '' # i @ rest" by blast
  from c1 show ?thesis
    unfolding p1
    by (cases cls) (simp_all add: get_in_hand_predicate_def get_empty_hand_predicate_def)
qed

lemma item_symbols_ok_same:
  assumes "item_symbols_ok w" "i \<in> set (movable_items w)" "j \<in> set (movable_items w)"
    "pddl_name (movables w i) = pddl_name (movables w j)"
  shows "i = j"
proof -
  from assms(1) have "inj_on (\<lambda>r. pddl_name (movables w r)) (set (movable_items w))"
    by (simp add: item_symbols_ok_def distinct_map)
  with assms(2-4) show ?thesis by (auto dest: inj_onD)
qed

text \<open>
  C4, as stated, fails when the symbols do not identify the items. In the world generated
  from the food \<open>apple\<close> twice, both apples are in the fridge; after one is picked up the
  conditions hold \<open>in-hand me apple\<close> and still \<open>fridge-contains kitchen-fridge apple\<close>, the
  contains predicate of the fridge for the symbol of the item in the hand. In the world
  generated from the pen colour \<open>fork x\<close>, the pen is on the shelf and the fork on the table;
  after the fork is picked up the conditions still hold
  \<open>shelf-contains living-room-shelf fork x-pen level-2\<close>, which is the contains predicate of
  the shelf for the symbol \<open>fork\<close> followed by the words \<open>x-pen level-2\<close>.
\<close>

theorem pick_up_leaves_contains_predicate:
  "(case DatasetGenerator_init example_registry twin_pools twin_draws of
      Some (Inr (w0, p', all_items, rs')) \<Rightarrow>
        ownership_inv w0 \<and> encoding_inv w0 \<and> 0 \<in> set (movable_items w0)
        \<and> item (person w0) = None \<and> pddl_name (movables w0 0) = ''apple''
        \<and> (case MovableItem_perform_action 0 w0 of
              Inr (Some a, w') \<Rightarrow>
                (case problem_init_conditions w' of
                   Inr after \<Rightarrow>
                     ''in-hand me apple'' \<in> set after
                     \<and> get_contains_predicate Fridge ''kitchen-fridge'' ''apple'' Map.empty
                         = Inr ''fridge-contains kitchen-fridge apple''
                     \<and> ''fridge-contains kitchen-fridge apple'' \<in> set after
                 | _ \<Rightarrow> False)
            | _ \<Rightarrow> False)
    | _ \<Rightarrow> False)
   \<and> (case DatasetGenerator_init example_registry fork_pools example_draws of
      Some (Inr (w0, p', all_items, rs')) \<Rightarrow>
        ownership_inv w0 \<and> encoding_inv w0 \<and> 4 \<in> set (movable_items w0)
        \<and> item (person w0) = None \<and> pddl_name (movables w0 4) = ''fork''
        \<and> distinct (map (\<lambda>r. pddl_name (movables w0 r)) (movable_items w0))
        \<and> (case MovableItem_perform_action 4 w0 of
              Inr (Some a, w') \<Rightarrow>
                (case problem_init_conditions w' of
                   Inr after \<Rightarrow>
                     ''in-hand me fork'' \<in> set after
                     \<and> get_contains_predicate Shelf ''living-room-shelf'' ''fork''
                           [''pddl_level'' \<mapsto> PyStr ''x-pen level-2'']
                         = Inr ''shelf-contains living-room-shelf fork x-pen level-2''
                     \<and> ''shelf-contains living-room-shelf fork x-pen level-2'' \<in> set after
                 | _ \<Rightarrow> False)
            | _ \<Rightarrow> False)
    | _ \<Rightarrow> False)"
  by code_simp

text \<open>
  The conditions before and after a pick-up, in a world that keeps the two invariants.
\<close>

lemma pick_up_conditions:
  assumes own: "ownership_inv w" and enc: "encoding_inv w"
    and i: "i \<in> set (movable_items w)" and hand: "item (person w) = None"
  shows "\<exists>c a w' before after contains.
      container (movables w i) = Some c
    \<and> problem_init_conditions w = Inr before
    \<and> get_contains_predicate (type_of (stationaries w c))
         (pddl_name (stationary_base (stationaries w c))) (pddl_name (movables w i))
         (extra_location_info (movables w i)) = Inr contains
    \<and> contains \<in> set before
    \<and> get_empty_hand_predicate (person_pddl_name (person w)) \<in> set before
    \<and> MovableItem_perform_action i w = Inr (Some a, w')
    \<and> problem_init_conditions w' = Inr after
    \<and> get_in_hand_predicate (person_pddl_name (person w)) (pddl_name (movables w i)) \<in> set after
    \<and> get_empty_hand_predicate (person_pddl_name (person w)) \<notin> set after
    \<and> (\<forall>cls container_param item_param kwargs p.
          get_contains_predicate cls container_param item_param kwargs = Inr p \<and> p \<in> set after
          \<longrightarrow> (\<exists>j \<in> set (movable_items w). \<exists>c'. j \<noteq> i \<and> container (movables w j) = Some c'
                 \<and> c' \<in> set (room_items w)
                 \<and> get_contains_predicate (type_of (stationaries w c'))
                       (pddl_name (stationary_base (stationaries w c'))) (pddl_name (movables w j))
                       (extra_location_info (movables w j)) = Inr p))
    \<and> (item_symbols_ok w \<longrightarrow>
         (\<forall>cls container_param kwargs p.
            symbol container_param \<and>
            get_contains_predicate cls container_param (pddl_name (movables w i)) kwargs = Inr p
            \<longrightarrow> p \<notin> set after))"
proof -
  from own i hand have "in_container w i"
    by (auto simp: ownership_inv_def ownership_def held_def)
  then obtain c where c: "container (movables w i) = Some c"
    by (auto simp: in_container_def split: option.splits)
  define w' where "w' = w\<lparr>person := (person w)\<lparr>item := Some i\<rparr>,
     movables := (movables w)(i := (movables w i)\<lparr>container := None, relative_location := None\<rparr>)\<rparr>"
  from hand c obtain a where pick: "MovableItem_perform_action i w = Inr (Some a, w')"
    by (simp add: MovableItem_perform_action_def Let_def w'_def)
  from MovableItem_perform_action_inv[OF own i pick] have own': "ownership_inv w'" .
  from encoding_inv_one_action[OF one_action.pick_up[OF i pick] enc] have enc': "encoding_inv w'" .
  from problem_init_conditions_ok[OF own enc] obtain before where
    before: "problem_init_conditions w = Inr before" by blast
  from problem_init_conditions_ok[OF own' enc'] obtain after where
    after: "problem_init_conditions w' = Inr after" by blast
  note mb = problem_init_conditions_member[OF before]
  note ma = problem_init_conditions_member[OF after]
  have fr: "rooms w' = rooms w" "movable_items w' = movable_items w"
    "stationaries w' = stationaries w" "person_pddl_name (person w') = person_pddl_name (person w)"
    "\<And>j. pddl_name (movables w' j) = pddl_name (movables w j)"
    "item (person w') = Some i" "container (movables w' i) = None"
    "\<And>j. j \<noteq> i \<Longrightarrow> movables w' j = movables w j"
    by (simp_all add: w'_def)
  \<comment> \<open>before the pick-up\<close>
  have he: "get_empty_hand_predicate (person_pddl_name (person w)) \<in> set before"
    using hand by (simp add: mb Person_get_init_conditions_def)
  from own enc i obtain cs where cs: "movable_get_init_conditions i w = Inr cs"
    using movable_get_init_conditions_ok[of w i]
    by (auto simp: ownership_inv_def encoding_inv_def)
  from movable_conditions_location[OF cs] c obtain contains where
    cont: "get_contains_predicate (type_of (stationaries w c))
         (pddl_name (stationary_base (stationaries w c))) (pddl_name (movables w i))
         (extra_location_info (movables w i)) = Inr contains"
    and cin: "contains \<in> set cs" by auto
  from cin cs i have cb: "contains \<in> set before" by (auto simp: mb)
  \<comment> \<open>after the pick-up\<close>
  from own' enc' i obtain cs' where cs': "movable_get_init_conditions i w' = Inr cs'"
    using movable_get_init_conditions_ok[of w' i]
    by (auto simp: ownership_inv_def encoding_inv_def fr)
  from movable_conditions_location[OF cs'] fr
  have "get_in_hand_predicate (person_pddl_name (person w)) (pddl_name (movables w i)) \<in> set cs'"
    by simp
  with cs' i have ih: "get_in_hand_predicate (person_pddl_name (person w)) (pddl_name (movables w i))
      \<in> set after"
    by (auto simp: ma fr)
  have nhe: "get_empty_hand_predicate (person_pddl_name (person w)) \<notin> set after"
  proof
    assume "get_empty_hand_predicate (person_pddl_name (person w)) \<in> set after"
    then consider
        (person) "get_empty_hand_predicate (person_pddl_name (person w))
           \<in> set (Person_get_init_conditions (person w'))"
      | (room) x where "get_empty_hand_predicate (person_pddl_name (person w))
           \<in> set (stationary_get_init_conditions x)"
      | (movable) j ds where "movable_get_init_conditions j w' = Inr ds"
          "get_empty_hand_predicate (person_pddl_name (person w)) \<in> set ds"
      unfolding ma by blast
    then show False
    proof cases
      case person
      then show False by (simp add: Person_get_init_conditions_def fr)
    next
      case (room x)
      then show False by (simp add: hand_empty_not_stationary_condition)
    next
      case (movable j ds)
      let ?h = "get_empty_hand_predicate (person_pddl_name (person w))"
      from movable_conditions_form[OF movable] consider
          "?h = get_in_hand_predicate (person_pddl_name (person w')) (pddl_name (movables w' j))"
        | c' where "get_contains_predicate (type_of (stationaries w' c'))
               (pddl_name (stationary_base (stationaries w' c'))) (pddl_name (movables w' j))
               (extra_location_info (movables w' j)) = Inr ?h"
        | "?h = ''phone-ringing '' @ pddl_name (movables w' j)"
        by blast
      then show False
      proof cases
        case 1
        then show False by (simp add: get_empty_hand_predicate_def get_in_hand_predicate_def)
      next
        case (2 c')
        from contains_not_other[OF 2, of "person_pddl_name (person w)"] show False by simp
      next
        case 3
        then show False by (simp add: get_empty_hand_predicate_def)
      qed
    qed
  qed
  have other: "\<exists>j \<in> set (movable_items w). \<exists>c'. j \<noteq> i \<and> container (movables w j) = Some c'
                 \<and> c' \<in> set (room_items w)
                 \<and> get_contains_predicate (type_of (stationaries w c'))
                       (pddl_name (stationary_base (stationaries w c'))) (pddl_name (movables w j))
                       (extra_location_info (movables w j)) = Inr p"
    if p: "get_contains_predicate cls container_param item_param kwargs = Inr p"
      and pa: "p \<in> set after"
    for cls container_param item_param kwargs p
  proof -
    from pa consider
        (person) "p \<in> set (Person_get_init_conditions (person w'))"
      | (room) x where "p \<in> set (stationary_get_init_conditions x)"
      | (movable) j ds where "j \<in> set (movable_items w)" "movable_get_init_conditions j w' = Inr ds"
          "p \<in> set ds"
      unfolding ma fr by blast
    then show ?thesis
    proof cases
      case person
      then show ?thesis by (simp add: Person_get_init_conditions_def fr)
    next
      case (room x)
      with contains_not_stationary_condition[OF p] show ?thesis by simp
    next
      case (movable j ds)
      from movable_conditions_form[OF movable(2,3)] contains_not_other[OF p]
      obtain c' where c': "container (movables w' j) = Some c'"
        and q: "get_contains_predicate (type_of (stationaries w' c'))
               (pddl_name (stationary_base (stationaries w' c'))) (pddl_name (movables w' j))
               (extra_location_info (movables w' j)) = Inr p"
        by blast
      from c' fr have ji: "j \<noteq> i" by auto
      from own' movable(1) c' have "c' \<in> set (room_items w')"
        by (auto simp: ownership_inv_def ownership_def held_def in_container_def fr)
      then have c'r: "c' \<in> set (room_items w)" by (simp add: room_items_def fr)
      from c' q ji fr(8)[OF ji] have "container (movables w j) = Some c'"
        "get_contains_predicate (type_of (stationaries w c'))
               (pddl_name (stationary_base (stationaries w c'))) (pddl_name (movables w j))
               (extra_location_info (movables w j)) = Inr p"
        by (simp_all add: fr(3))
      with movable(1) ji c'r show ?thesis by blast
    qed
  qed
  have nc: "p \<notin> set after"
    if sym: "item_symbols_ok w" and cp: "symbol container_param"
      and p: "get_contains_predicate cls container_param (pddl_name (movables w i)) kwargs = Inr p"
    for cls container_param kwargs p
  proof
    assume "p \<in> set after"
    from other[OF p this] obtain j c' where j: "j \<in> set (movable_items w)" and ji: "j \<noteq> i"
      and c'r: "c' \<in> set (room_items w)"
      and q: "get_contains_predicate (type_of (stationaries w c'))
               (pddl_name (stationary_base (stationaries w c'))) (pddl_name (movables w j))
               (extra_location_info (movables w j)) = Inr p"
      by blast
    from sym c'r have s1: "symbol (pddl_name (stationary_base (stationaries w c')))"
      by (simp add: item_symbols_ok_def list_all_iff)
    from sym i have s2: "symbol (pddl_name (movables w i))"
      by (simp add: item_symbols_ok_def list_all_iff)
    from sym j have s3: "symbol (pddl_name (movables w j))"
      by (simp add: item_symbols_ok_def list_all_iff)
    from contains_predicate_item[OF p q cp s1 s2 s3]
    have "pddl_name (movables w i) = pddl_name (movables w j)" .
    from item_symbols_ok_same[OF sym i j this] ji show False by simp
  qed
  from c before cont cb he pick after ih nhe other nc show ?thesis by blast
qed

text \<open>
  C4, amended: in the generated world and in the world after every state change, let \<open>i\<close> be
  an item of the list and the hand empty. Then \<open>i\<close> is in a container, the conditions of the
  problem hold the contains predicate of that container for \<open>i\<close> and \<open>hand-empty\<close> for the
  person, and picking \<open>i\<close> up succeeds; after it the conditions hold \<open>in-hand\<close> for the
  person and \<open>i\<close>, do not hold \<open>hand-empty\<close> for the person, and every contains predicate
  they hold is that of another item of the list in its container. When the symbols of the
  items of the list differ from each other and they and the symbols of the items of the
  rooms contain no blank, the conditions hold no contains predicate of any container class
  with any container symbol for the symbol of \<open>i\<close>.
\<close>

theorem pick_up_init_conditions:
  assumes init: "DatasetGenerator_init reg p rs = Some (Inr (w0, p', all_items, rs'))"
    and tl: "timeline w0 w"
    and i: "i \<in> set (movable_items w)" and hand: "item (person w) = None"
  shows "\<exists>c a w' before after contains.
      container (movables w i) = Some c
    \<and> problem_init_conditions w = Inr before
    \<and> get_contains_predicate (type_of (stationaries w c))
         (pddl_name (stationary_base (stationaries w c))) (pddl_name (movables w i))
         (extra_location_info (movables w i)) = Inr contains
    \<and> contains \<in> set before
    \<and> get_empty_hand_predicate (person_pddl_name (person w)) \<in> set before
    \<and> MovableItem_perform_action i w = Inr (Some a, w')
    \<and> problem_init_conditions w' = Inr after
    \<and> get_in_hand_predicate (person_pddl_name (person w)) (pddl_name (movables w i)) \<in> set after
    \<and> get_empty_hand_predicate (person_pddl_name (person w)) \<notin> set after
    \<and> (\<forall>cls container_param item_param kwargs p.
          get_contains_predicate cls container_param item_param kwargs = Inr p \<and> p \<in> set after
          \<longrightarrow> (\<exists>j \<in> set (movable_items w). \<exists>c'. j \<noteq> i \<and> container (movables w j) = Some c'
                 \<and> c' \<in> set (room_items w)
                 \<and> get_contains_predicate (type_of (stationaries w c'))
                       (pddl_name (stationary_base (stationaries w c'))) (pddl_name (movables w j))
                       (extra_location_info (movables w j)) = Inr p))
    \<and> (item_symbols_ok w \<longrightarrow>
         (\<forall>cls container_param kwargs p.
            symbol container_param \<and>
            get_contains_predicate cls container_param (pddl_name (movables w i)) kwargs = Inr p
            \<longrightarrow> p \<notin> set after))"
proof -
  from DatasetGenerator_init_inv[OF init] have own0: "ownership_inv w0" and enc0: "encoding_inv w0"
    by blast+
  from timeline_ownership[OF tl own0] have own: "ownership_inv w" by blast
  from timeline_encoding_inv[OF tl enc0] have enc: "encoding_inv w" .
  from own enc i hand show ?thesis by (rule pick_up_conditions)
qed

theorem pick_up_init_conditions_witness:
  "\<exists>w0 p' all_items rs' i c a w' before after contains.
     DatasetGenerator_init example_registry example_pools example_draws
       = Some (Inr (w0, p', all_items, rs'))
     \<and> timeline w0 w0 \<and> i \<in> set (movable_items w0) \<and> item (person w0) = None
     \<and> item_symbols_ok w0
     \<and> container (movables w0 i) = Some c
     \<and> problem_init_conditions w0 = Inr before
     \<and> get_contains_predicate (type_of (stationaries w0 c))
          (pddl_name (stationary_base (stationaries w0 c))) (pddl_name (movables w0 i))
          (extra_location_info (movables w0 i)) = Inr contains
     \<and> contains \<in> set before
     \<and> get_empty_hand_predicate (person_pddl_name (person w0)) \<in> set before
     \<and> MovableItem_perform_action i w0 = Inr (Some a, w')
     \<and> problem_init_conditions w' = Inr after
     \<and> get_in_hand_predicate (person_pddl_name (person w0)) (pddl_name (movables w0 i)) \<in> set after
     \<and> get_empty_hand_predicate (person_pddl_name (person w0)) \<notin> set after
     \<and> contains \<notin> set after"
proof -
  have ev: "(case DatasetGenerator_init example_registry example_pools example_draws of
           Some (Inr (w0, p', all_items, rs')) \<Rightarrow>
             movable_items w0 \<noteq> [] \<and> item (person w0) = None \<and> item_symbols_ok w0
         | _ \<Rightarrow> False)"
    by code_simp
  then obtain x where init': "DatasetGenerator_init example_registry example_pools example_draws
             = Some (Inr x)"
    by (auto split: option.splits sum.splits)
  obtain w0 p' all_items rs' where x: "x = (w0, p', all_items, rs')" by (cases x)
  from init' x have init: "DatasetGenerator_init example_registry example_pools example_draws
             = Some (Inr (w0, p', all_items, rs'))" by simp
  with ev have ne: "movable_items w0 \<noteq> []" and hand: "item (person w0) = None"
    and sym: "item_symbols_ok w0" by simp_all
  define i where "i = hd (movable_items w0)"
  from ne have i: "i \<in> set (movable_items w0)" by (simp add: i_def)
  have tl: "timeline w0 w0" by (rule timeline.start)
  from DatasetGenerator_init_inv[OF init] have own0: "ownership_inv w0" by blast
  from pick_up_init_conditions[OF init tl i hand] obtain c a w' before after contains where
    r: "container (movables w0 i) = Some c"
      "problem_init_conditions w0 = Inr before"
      "get_contains_predicate (type_of (stationaries w0 c))
          (pddl_name (stationary_base (stationaries w0 c))) (pddl_name (movables w0 i))
          (extra_location_info (movables w0 i)) = Inr contains"
      "contains \<in> set before"
      "get_empty_hand_predicate (person_pddl_name (person w0)) \<in> set before"
      "MovableItem_perform_action i w0 = Inr (Some a, w')"
      "problem_init_conditions w' = Inr after"
      "get_in_hand_predicate (person_pddl_name (person w0)) (pddl_name (movables w0 i)) \<in> set after"
      "get_empty_hand_predicate (person_pddl_name (person w0)) \<notin> set after"
    and last: "item_symbols_ok w0 \<longrightarrow>
         (\<forall>cls container_param kwargs p.
            symbol container_param \<and>
            get_contains_predicate cls container_param (pddl_name (movables w0 i)) kwargs = Inr p
            \<longrightarrow> p \<notin> set after)"
    by blast
  from own0 i r(1) have "c \<in> set (room_items w0)"
    by (auto simp: ownership_inv_def ownership_def held_def in_container_def)
  with sym have "symbol (pddl_name (stationary_base (stationaries w0 c)))"
    by (simp add: item_symbols_ok_def list_all_iff)
  with last sym r(3) have "contains \<notin> set after" by blast
  with init tl i hand sym r show ?thesis by blast
qed

section \<open>The words of a line\<close>

lemma split_blank_symbol: "symbol a \<Longrightarrow> split_blank a = [a]"
  by (induction a) (auto simp: symbol_def)

lemma split_blank_append: "symbol a \<Longrightarrow> split_blank (a @ CHR '' '' # x) = a # split_blank x"
  by (induction a) (auto simp: symbol_def)

lemma symbol_str_nat: "symbol (str_nat n)"
proof (induction n rule: str_nat.induct)
  case (1 n)
  have d: "CHR '' '' \<noteq> digit_char k" for k
  proof -
    have "k mod 10 < length digits" by (simp add: digits_def)
    then have "digits ! (k mod 10) \<in> set digits" by (rule nth_mem)
    then show ?thesis by (auto simp: digit_char_def digits_def)
  qed
  show ?case
  proof (cases "n < 10")
    case True
    then show ?thesis using d by (subst str_nat.simps) (simp add: symbol_def)
  next
    case False
    with 1 d show ?thesis by (subst str_nat.simps) (simp add: symbol_def)
  qed
qed

lemma symbol_level_name: "symbol (get_level_name l)"
  using symbol_str_nat[of l] by (simp add: get_level_name_def symbol_def)

lemma symbol_channels: "ch \<in> set CHANNELS \<Longrightarrow> symbol (channel_pddl_name ch)"
proof -
  have "list_all (\<lambda>ch. symbol (channel_pddl_name ch)) CHANNELS" by code_simp
  then show "ch \<in> set CHANNELS \<Longrightarrow> symbol (channel_pddl_name ch)"
    by (simp add: list_all_iff)
qed

lemma symbol_in_room: "symbol (''in-'' @ room_type_name cls)"
  by (cases cls) (simp_all add: symbol_def)

lemma symbol_contains: "symbol (stationary_type_name cls @ ''-contains'')"
  by (cases cls) (simp_all add: symbol_def)

section \<open>The symbols that the objects declare\<close>

lemma declared_entry: "symbol a \<Longrightarrow> hd (split_blank (a @ CHR '' '' # x)) = a"
  by (simp add: split_blank_append)

lemma declared_person:
  "symbol (person_pddl_name (person w)) \<Longrightarrow>
   person_pddl_name (person w) \<in> set (declared_symbols (problem_objects reg w))"
  by (simp add: declared_symbols_def problem_objects_def Person_get_pddl_objects_def
      declared_entry)

lemma declared_room:
  assumes "room \<in> set (rooms w)" "symbol (room_pddl_name room)"
  shows "room_pddl_name room \<in> set (declared_symbols (problem_objects reg w))"
proof -
  have "room_pddl_name room @ '' - '' @ room_type_name (room_class room)
      \<in> set (problem_objects reg w)"
    using assms(1) by (auto simp: problem_objects_def Room_get_pddl_objects_def)
  then have "hd (split_blank (room_pddl_name room @ '' - '' @ room_type_name (room_class room)))
      \<in> set (declared_symbols (problem_objects reg w))"
    unfolding declared_symbols_def by (simp only: set_map) (rule imageI)
  with declared_entry[OF assms(2)] show ?thesis by simp
qed

lemma declared_stationary:
  assumes "room \<in> set (rooms w)" "c \<in> set (items room)"
    "symbol (pddl_name (stationary_base (stationaries w c)))"
  shows "pddl_name (stationary_base (stationaries w c))
      \<in> set (declared_symbols (problem_objects reg w))"
proof -
  let ?e = "pddl_name (stationary_base (stationaries w c)) @ '' - ''
      @ stationary_type_name (type_of (stationaries w c))"
  have "?e \<in> set (problem_objects reg w)"
    using assms(1,2)
    by (auto simp: problem_objects_def Room_get_pddl_objects_def stationary_get_pddl_objects_def)
  then have "hd (split_blank ?e) \<in> set (declared_symbols (problem_objects reg w))"
    unfolding declared_symbols_def by (simp only: set_map) (rule imageI)
  with declared_entry[OF assms(3)] show ?thesis by simp
qed

lemma declared_movable:
  assumes "j \<in> set (movable_items w)" "symbol (pddl_name (movables w j))"
  shows "pddl_name (movables w j) \<in> set (declared_symbols (problem_objects reg w))"
proof -
  let ?e = "pddl_name (movables w j) @ '' - '' @ movable_type_name (movable_class (movables w j))"
  have "?e \<in> set (problem_objects reg w)"
    using assms(1) by (auto simp: problem_objects_def movable_get_pddl_objects_def)
  then have "hd (split_blank ?e) \<in> set (declared_symbols (problem_objects reg w))"
    unfolding declared_symbols_def by (simp only: set_map) (rule imageI)
  with declared_entry[OF assms(2)] show ?thesis by simp
qed

lemma declared_level:
  assumes "StationaryType Shelf \<in> set (item_types reg)" "1 \<le> l" "l \<le> MAX_LEVELS"
  shows "get_level_name l \<in> set (declared_symbols (problem_objects reg w))"
proof -
  let ?e = "get_level_name l @ '' - '' @ ''level''"
  from assms(2,3) have "l - 1 \<in> set [0..<MAX_LEVELS]" by auto
  then have "get_level_name (l - 1 + 1) @ '' - '' @ ''level'' \<in> set LEVEL_OBJECTS"
    unfolding LEVEL_OBJECTS_def by (simp only: set_map) (rule imageI)
  with assms(2) have "?e \<in> set (get_static_pddl_objects (StationaryType Shelf))" by simp
  with assms(1) have "\<exists>x \<in> set (item_types reg). ?e \<in> set (get_static_pddl_objects x)"
    by blast
  then have "?e \<in> set (problem_objects reg w)"
    by (auto simp: problem_objects_def)
  then have "hd (split_blank ?e) \<in> set (declared_symbols (problem_objects reg w))"
    unfolding declared_symbols_def by (simp only: set_map) (rule imageI)
  with declared_entry[OF symbol_level_name, of l] show ?thesis by simp
qed

lemma declared_channel:
  assumes "StationaryType TV \<in> set (item_types reg)" "ch \<in> set CHANNELS"
  shows "channel_pddl_name ch \<in> set (declared_symbols (problem_objects reg w))"
proof -
  let ?e = "channel_pddl_name ch @ '' - '' @ ''channel''"
  from assms(2) have "?e \<in> set CHANNEL_OBJECTS"
    unfolding CHANNEL_OBJECTS_def by (simp only: set_map) (rule imageI)
  then have "?e \<in> set (get_static_pddl_objects (StationaryType TV))" by simp
  with assms(1) have "\<exists>x \<in> set (item_types reg). ?e \<in> set (get_static_pddl_objects x)"
    by blast
  then have "?e \<in> set (problem_objects reg w)"
    by (auto simp: problem_objects_def)
  then have "hd (split_blank ?e) \<in> set (declared_symbols (problem_objects reg w))"
    unfolding declared_symbols_def by (simp only: set_map) (rule imageI)
  with declared_entry[OF symbol_channels[OF assms(2)]] show ?thesis by simp
qed


section \<open>The symbols that the conditions refer to\<close>

lemma referenced_stationary:
  assumes q: "q \<in> set (stationary_get_init_conditions x)"
    and s: "s \<in> set (referenced_symbols q)"
    and sr: "symbol (room_pddl_name (parent (stationary_base x)))"
    and sx: "symbol (pddl_name (stationary_base x))"
    and ch: "\<And>t. x = TVObj t \<Longrightarrow> curr_channel t \<in> set CHANNELS"
  shows "s = room_pddl_name (parent (stationary_base x)) \<or> s = pddl_name (stationary_base x)
    \<or> (\<exists>sh l. x = ShelfObj sh \<and> 1 \<le> l \<and> l \<le> levels sh \<and> s = get_level_name l)
    \<or> (\<exists>t. x = TVObj t \<and> s = channel_pddl_name (curr_channel t))"
proof -
  have room: "s = room_pddl_name (parent y) \<or> s = pddl_name y"
    if "q \<in> set (StationaryItem_get_init_conditions y)"
      "symbol (room_pddl_name (parent y))" "symbol (pddl_name y)"
    for y :: "'a stationary_item_scheme"
  proof -
    from that(1) have "q = (''in-'' @ room_type_name (room_class (parent y))) @ CHR '' ''
        # room_pddl_name (parent y) @ CHR '' '' # pddl_name y"
      by (simp add: StationaryItem_get_init_conditions_def get_in_room_predicate_def)
    then have "split_blank q = [''in-'' @ room_type_name (room_class (parent y)),
        room_pddl_name (parent y), pddl_name y]"
      using that(2,3)
      by (simp only: split_blank_append[OF symbol_in_room] split_blank_append split_blank_symbol)
    with s show ?thesis by (simp add: referenced_symbols_def)
  qed
  have special: "s = n"
    if "split_blank lit = [lit]" "q = lit @ CHR '' '' # n" "symbol n" for lit n
  proof -
    from that(1) have "symbol lit"
    proof (induction lit)
      case Nil
      then show ?case by (simp add: symbol_def)
    next
      case (Cons c cs)
      then show ?case by (auto simp: symbol_def split: if_splits list.splits)
    qed
    from split_blank_append[OF this, of n] that(2,3) have "split_blank q = [lit, n]"
      by (simp add: split_blank_symbol)
    with s show ?thesis by (simp add: referenced_symbols_def)
  qed
  show ?thesis
  proof (cases x)
    case (TableObj y)
    with q sr sx room[of y] show ?thesis by (simp add: base_def)
  next
    case (FridgeObj y)
    with q sr sx room[of y] show ?thesis by (simp add: base_def)
  next
    case (SinkObj y)
    from SinkObj sr sx have sy: "symbol (room_pddl_name (parent y))" "symbol (pddl_name y)"
      by (simp_all add: base_def)
    from q SinkObj consider "q \<in> set (StationaryItem_get_init_conditions y)"
      | "q = ''faucet-on'' @ CHR '' '' # pddl_name y"
      by (auto simp: Sink_get_init_conditions_def Sink_get_special_init_conditions_def
          split: if_splits)
    then show ?thesis
    proof cases
      case 1
      from room[OF 1 sy] SinkObj show ?thesis by (simp add: base_def)
    next
      case 2
      have "split_blank ''faucet-on'' = [''faucet-on'']" by simp
      from special[OF this 2 sy(2)] SinkObj show ?thesis by (simp add: base_def)
    qed
  next
    case (WindowObj y)
    from WindowObj sr sx have sy: "symbol (room_pddl_name (parent y))" "symbol (pddl_name y)"
      by (simp_all add: base_def)
    from q WindowObj consider "q \<in> set (StationaryItem_get_init_conditions y)"
      | "q = ''window-open'' @ CHR '' '' # pddl_name y"
      by (auto simp: Window_get_init_conditions_def Window_get_special_init_conditions_def
          split: if_splits)
    then show ?thesis
    proof cases
      case 1
      from room[OF 1 sy] WindowObj show ?thesis by (simp add: base_def)
    next
      case 2
      have "split_blank ''window-open'' = [''window-open'']" by simp
      from special[OF this 2 sy(2)] WindowObj show ?thesis by (simp add: base_def)
    qed
  next
    case (LightObj y)
    from LightObj sr sx have sy: "symbol (room_pddl_name (parent y))" "symbol (pddl_name y)"
      by (simp_all add: base_def)
    from q LightObj consider "q \<in> set (StationaryItem_get_init_conditions y)"
      | "q = ''light-on'' @ CHR '' '' # pddl_name y"
      by (auto simp: Light_get_init_conditions_def Light_get_special_init_conditions_def
          split: if_splits)
    then show ?thesis
    proof cases
      case 1
      from room[OF 1 sy] LightObj show ?thesis by (simp add: base_def)
    next
      case 2
      have "split_blank ''light-on'' = [''light-on'']" by simp
      from special[OF this 2 sy(2)] LightObj show ?thesis by (simp add: base_def)
    qed
  next
    case (TVObj y)
    from TVObj sr sx have sy: "symbol (room_pddl_name (parent y))" "symbol (pddl_name y)"
      by (simp_all add: base_def)
    from ch[OF TVObj] have sc: "symbol (channel_pddl_name (curr_channel y))"
      by (rule symbol_channels)
    from q TVObj consider "q \<in> set (StationaryItem_get_init_conditions y)"
      | "q = ''tv-on'' @ CHR '' '' # pddl_name y"
      | "q = ''tv-playing-channel'' @ CHR '' '' # pddl_name y @ CHR '' ''
            # channel_pddl_name (curr_channel y)"
      by (auto simp: TV_get_init_conditions_def TV_get_special_init_conditions_def
          split: if_splits)
    then show ?thesis
    proof cases
      case 1
      from room[OF 1 sy] TVObj show ?thesis by (auto simp: base_def)
    next
      case 2
      have "split_blank ''tv-on'' = [''tv-on'']" by simp
      from special[OF this 2 sy(2)] TVObj show ?thesis by (simp add: base_def)
    next
      case 3
      have "symbol ''tv-playing-channel''" by (simp add: symbol_def)
      from split_blank_append[OF this] 3 sy(2) sc
      have "split_blank q = [''tv-playing-channel'', pddl_name y, channel_pddl_name (curr_channel y)]"
        by (simp add: split_blank_append split_blank_symbol)
      with s TVObj show ?thesis by (auto simp: referenced_symbols_def base_def)
    qed
  next
    case (ShelfObj y)
    from ShelfObj sr sx have sy: "symbol (room_pddl_name (parent y))" "symbol (pddl_name y)"
      by (simp_all add: base_def)
    from q ShelfObj consider "q \<in> set (StationaryItem_get_init_conditions y)"
      | i where "i < levels y"
          "q = ''shelf-has-level'' @ CHR '' '' # pddl_name y @ CHR '' '' # get_level_name (i + 1)"
      by (auto simp: Shelf_get_init_conditions_def)
    then show ?thesis
    proof cases
      case 1
      from room[OF 1 sy] ShelfObj show ?thesis by (auto simp: base_def)
    next
      case (2 i)
      have "symbol ''shelf-has-level''" by (simp add: symbol_def)
      from split_blank_append[OF this] 2(2) sy(2) symbol_level_name[of "i + 1"]
      have "split_blank q = [''shelf-has-level'', pddl_name y, get_level_name (i + 1)]"
        by (simp add: split_blank_append split_blank_symbol)
      with s have "s = pddl_name y \<or> s = get_level_name (i + 1)"
        by (auto simp: referenced_symbols_def)
      with 2(1) ShelfObj show ?thesis
        by (auto simp: base_def intro: exI[of _ "i + 1"])
    qed
  qed
qed

lemma referenced_contains:
  assumes p: "get_contains_predicate cls c j kw = Inr q"
    and s: "s \<in> set (referenced_symbols q)"
    and sc: "symbol c" and sj: "symbol j"
    and sl: "\<And>l. cls = Shelf \<Longrightarrow> kw ''pddl_level'' = Some (PyStr l) \<Longrightarrow> symbol l"
  shows "s = c \<or> s = j \<or> (cls = Shelf \<and> kw ''pddl_level'' = Some (PyStr s))"
proof (cases "cls = Shelf")
  case True
  with p obtain l where l: "kw ''pddl_level'' = Some (PyStr l)"
    and q: "q = (stationary_type_name cls @ ''-contains'') @ CHR '' '' # c @ CHR '' '' # j
               @ CHR '' '' # l"
    by (auto simp: get_contains_predicate_def Container_get_contains_predicate_def
        split: option.splits pyval.splits)
  from sl[OF True l] sc sj
  have "split_blank q = [stationary_type_name cls @ ''-contains'', c, j, l]"
    unfolding q
    by (simp only: split_blank_append[OF symbol_contains] split_blank_append split_blank_symbol)
  with s l True show ?thesis by (auto simp: referenced_symbols_def)
next
  case False
  with p have q: "q = (stationary_type_name cls @ ''-contains'') @ CHR '' '' # c @ CHR '' '' # j"
    by (auto simp: get_contains_predicate_def Container_get_contains_predicate_def
        split: if_splits)
  from sc sj have "split_blank q = [stationary_type_name cls @ ''-contains'', c, j]"
    unfolding q
    by (simp only: split_blank_append[OF symbol_contains] split_blank_append split_blank_symbol)
  with s show ?thesis by (auto simp: referenced_symbols_def)
qed


section \<open>The symbols of a generated world\<close>

lemma lower_char_blank: "c \<noteq> CHR '' '' \<Longrightarrow> lower_char c \<noteq> CHR '' ''"
proof -
  assume c: "c \<noteq> CHR '' ''"
  show ?thesis
  proof (cases "map_of (zip ascii_uppercase ascii_lowercase) c")
    case None
    with c show ?thesis by (simp add: lower_char_def)
  next
    case (Some l)
    then have "(c, l) \<in> set (zip ascii_uppercase ascii_lowercase)" by (rule map_of_SomeD)
    then have "l \<in> set ascii_lowercase" by (rule set_zip_rightD)
    then have "l \<noteq> CHR '' ''" by (auto simp: ascii_lowercase_def)
    with Some show ?thesis by (simp add: lower_char_def)
  qed
qed

lemma symbol_lower: "symbol s \<Longrightarrow> symbol (lower s)"
proof -
  assume s: "symbol s"
  have h: "lower_char c \<noteq> CHR '' ''" if "c \<in> set s" for c
  proof -
    from s that have "c \<noteq> CHR '' ''" by (auto simp: symbol_def)
    then show ?thesis by (rule lower_char_blank)
  qed
  show ?thesis
    unfolding symbol_def lower_def set_map
  proof
    assume "CHR '' '' \<in> lower_char ` set s"
    then obtain c where c: "c \<in> set s" and eq: "CHR '' '' = lower_char c" by (rule imageE)
    from h[OF c] eq[symmetric] show False by (rule notE)
  qed
qed

lemma symbol_re_sub_dash: "symbol (re_sub_dash s)"
proof (induction s rule: re_sub_dash.induct)
  case 1
  then show ?case by (simp add: symbol_def)
next
  case (2 c cs)
  have "\<not> is_alnum CHR '' ''"
    by (simp add: is_alnum_def ascii_lowercase_def ascii_uppercase_def digits_def)
  with 2 show ?case by (auto simp: symbol_def)
qed

lemma symbol_append: "symbol a \<Longrightarrow> symbol b \<Longrightarrow> symbol (a @ b)"
  by (simp add: symbol_def)

lemma symbol_StationaryItem_pddl_name:
  "symbol (room_pddl_name p) \<Longrightarrow> symbol (StationaryItem_pddl_name nm p)"
  using symbol_lower[OF symbol_re_sub_dash, of nm]
  by (simp add: StationaryItem_pddl_name_def symbol_def)

lemma pop_random_member:
  assumes "pop_random xs rs = Some (x, xs', rs')" "xs \<noteq> []"
  shows "x \<in> set xs \<and> set xs' \<subseteq> set xs"
proof -
  from assms(1) obtain i where i: "randbelow (length xs) rs = Some (i, rs')"
    and x: "x = fst (pop_at i xs)" "xs' = snd (pop_at i xs)"
    by (auto simp: pop_random_def split: option.splits prod.splits)
  from i assms(2) have "i < length xs" by (auto dest!: randbelow_Some)
  from pop_at_set[OF this] x show ?thesis by simp
qed

lemma movable_generate_instance_symbol:
  assumes "movable_generate_instance t p rs = Some (xo, p', rs')" "raw_lines_ok p"
  shows "raw_lines_ok p' \<and> (case xo of None \<Rightarrow> True | Some x \<Rightarrow> symbol (pddl_name x))"
proof (cases t)
  case Book
  with assms show ?thesis
    using symbol_lower[OF symbol_re_sub_dash]
    by (auto simp: raw_lines_ok_def Book_new_def MovableItem_def symbol_def
        split: if_splits option.splits prod.splits)
next
  case Pen
  show ?thesis
  proof (cases "pen_available_colors p = []")
    case True
    with assms Pen show ?thesis by simp
  next
    case False
    with assms(1) Pen obtain x xs where
      pr: "pop_random (pen_available_colors p) rs = Some (x, xs, rs')"
      and r: "xo = Some (Pen_new x)" "p' = p\<lparr>pen_available_colors := xs\<rparr>"
      by (auto split: option.splits prod.splits)
    from pop_random_member[OF pr False] assms(2) r show ?thesis
      by (auto simp: raw_lines_ok_def list_all_iff Pen_new_def MovableItem_def symbol_def)
  qed
next
  case Food
  with assms show ?thesis
    using symbol_lower[OF symbol_re_sub_dash]
    by (auto simp: raw_lines_ok_def Singleton_new_def MovableItem_def
        split: if_splits option.splits prod.splits)
next
  case Kitchenware
  with assms show ?thesis
    using symbol_lower[OF symbol_re_sub_dash]
    by (auto simp: raw_lines_ok_def Singleton_new_def MovableItem_def
        split: if_splits option.splits prod.splits)
next
  case Phone
  show ?thesis
  proof (cases "phone_available_names p = []")
    case True
    with assms Phone show ?thesis by simp
  next
    case False
    with assms(1) Phone obtain x xs where
      pr: "pop_random (phone_available_names p) rs = Some (x, xs, rs')"
      and r: "xo = Some (Phone_new x)" "p' = p\<lparr>phone_available_names := xs\<rparr>"
      by (auto split: option.splits prod.splits)
    from pop_random_member[OF pr False] assms(2) have "symbol x" "list_all symbol xs"
      by (auto simp: raw_lines_ok_def list_all_iff)
    with symbol_lower[of x] assms(2) r show ?thesis
      by (auto simp: raw_lines_ok_def Phone_new_def MovableItem_def symbol_def)
  qed
qed

lemma generate_items_of_symbol:
  "generate_items_of t k cnt p created rs = Some (p', created', rs') \<Longrightarrow>
   raw_lines_ok p \<Longrightarrow> \<forall>x \<in> set created. symbol (pddl_name x) \<Longrightarrow>
   raw_lines_ok p' \<and> (\<forall>x \<in> set created'. symbol (pddl_name x))"
proof (induction t k cnt p created rs rule: generate_items_of.induct)
  case (1 t k cnt p created rs)
  show ?case
  proof (cases "cnt * k < MAX_ITEMS \<and> 0 < k")
    case False
    with "1.prems" show ?thesis
      by (subst (asm) generate_items_of.simps) auto
  next
    case True
    with "1.prems"(1) obtain xo p1 rs1 where
      g: "movable_generate_instance t p rs = Some (xo, p1, rs1)"
      by (subst (asm) generate_items_of.simps) (auto split: option.splits)
    note s = movable_generate_instance_symbol[OF g "1.prems"(2)]
    show ?thesis
    proof (cases xo)
      case None
      with "1.prems" True g s show ?thesis
        by (subst (asm) generate_items_of.simps) auto
    next
      case (Some x)
      with "1.prems"(1) True g have
        rest: "generate_items_of t k (cnt + 1) p1 (created @ [x]) rs1 = Some (p', created', rs')"
        by (subst (asm) generate_items_of.simps) auto
      from g Some have g': "movable_generate_instance t p rs = Some (Some x, p1, rs1)" by simp
      from s Some "1.prems"(3) have p1: "raw_lines_ok p1"
        and c1: "\<forall>y \<in> set (created @ [x]). symbol (pddl_name y)" by auto
      from "1.IH"[OF True g' refl refl refl rest p1 c1] show ?thesis .
    qed
  qed
qed

lemma generate_all_items_symbol:
  "generate_all_items ts k p created rs = Some (p', created', rs') \<Longrightarrow>
   raw_lines_ok p \<Longrightarrow> \<forall>x \<in> set created. symbol (pddl_name x) \<Longrightarrow>
   raw_lines_ok p' \<and> (\<forall>x \<in> set created'. symbol (pddl_name x))"
proof (induction ts arbitrary: p created rs)
  case Nil
  then show ?case by simp
next
  case (Cons t ts)
  from Cons.prems(1) obtain p1 created1 rs1 where
    first: "generate_items_of t k 0 p created rs = Some (p1, created1, rs1)"
    and rest: "generate_all_items ts k p1 created1 rs1 = Some (p', created', rs')"
    by (auto split: option.splits)
  from generate_items_of_symbol[OF first Cons.prems(2,3)] Cons.IH[OF rest]
  show ?case by blast
qed

text \<open>The symbols of the stores: every object holds a symbol.\<close>

lemma assign_locations_pddl_name:
  "assign_locations c cobj chosen mov rs = Some (Inr (mov', rs')) \<Longrightarrow>
   pddl_name (mov' r) = pddl_name (mov r)"
proof (induction chosen arbitrary: mov rs)
  case Nil
  then show ?case by simp
next
  case (Cons i chosen)
  from Cons.prems obtain loc info rs1 where
    rest: "assign_locations c cobj chosen
            (mov(i := (mov i)\<lparr>container := Some c, relative_location := Some loc,
                               extra_location_info := info\<rparr>)) rs1 = Some (Inr (mov', rs'))"
    by (auto split: option.splits sum.splits)
  from Cons.IH[OF rest] show ?case by (simp split: if_splits)
qed

lemma generate_empty_symbol:
  "generate_empty cls p rs = Some (Inr (x, rs')) \<Longrightarrow> symbol (room_pddl_name p) \<Longrightarrow>
   symbol (pddl_name (stationary_base x))"
  by (cases cls)
     (auto simp: StationaryItem_def base_def symbol_StationaryItem_pddl_name
       split: option.splits)

lemma stationary_generate_instance_symbol:
  assumes "stationary_generate_instance cls p its k c mov rs = Some (Inr (x, its', mov', rs'))"
    and "symbol (room_pddl_name p)"
  shows "symbol (pddl_name (stationary_base x)) \<and> (\<forall>r. pddl_name (mov' r) = pddl_name (mov r))"
proof -
  have cont: ?thesis
    if "Container_generate_instance cls p its k c mov rs = Some (Inr (x, its', chosen, mov', rs'))"
    for chosen
  proof -
    from that obtain rs1 rs2 rs3 where
      ge: "generate_empty cls p rs1 = Some (Inr (x, rs2))"
      and al: "assign_locations c x chosen mov rs2 = Some (Inr (mov', rs3))"
      by (auto simp: Container_generate_instance_def split: option.splits sum.splits prod.splits)
    from generate_empty_symbol[OF ge assms(2)] assign_locations_pddl_name[OF al]
    show ?thesis by simp
  qed
  show ?thesis
  proof (cases cls)
    case Window
    with assms show ?thesis
      by (auto simp: stationary_generate_instance_def base_def symbol_StationaryItem_pddl_name
          split: option.splits)
  next
    case Light
    with assms show ?thesis
      by (auto simp: stationary_generate_instance_def base_def symbol_StationaryItem_pddl_name
          split: option.splits)
  next
    case TV
    with assms show ?thesis
      by (auto simp: stationary_generate_instance_def base_def symbol_StationaryItem_pddl_name
          split: option.splits)
  next
    case Table
    with assms(1) cont show ?thesis
      by (auto simp: stationary_generate_instance_def split: option.splits sum.splits)
  next
    case Shelf
    with assms(1) cont show ?thesis
      by (auto simp: stationary_generate_instance_def split: option.splits sum.splits)
  next
    case Fridge
    with assms(1) cont show ?thesis
      by (auto simp: stationary_generate_instance_def split: option.splits sum.splits)
  next
    case Sink
    with assms(1) cont show ?thesis
      by (auto simp: stationary_generate_instance_def split: option.splits sum.splits)
  qed
qed

lemma generate_room_items_symbol:
  "generate_room_items cls p ts created its st rs = Some (Inr (created', its', st', rs')) \<Longrightarrow>
   symbol (room_pddl_name p) \<Longrightarrow>
   (\<forall>r. symbol (pddl_name (movable_store st r))) \<Longrightarrow>
   (\<forall>c. symbol (pddl_name (stationary_base (stationary_store st c)))) \<Longrightarrow>
   (\<forall>r. symbol (pddl_name (movable_store st' r)))
   \<and> (\<forall>c. symbol (pddl_name (stationary_base (stationary_store st' c))))"
proof (induction ts arbitrary: created its st rs)
  case Nil
  then show ?case by auto
next
  case (Cons t ts)
  show ?case
  proof (cases "room_can_hold cls t")
    case False
    with Cons.prems(1) have "generate_room_items cls p ts created its st rs
        = Some (Inr (created', its', st', rs'))" by simp
    from Cons.IH[OF this Cons.prems(2,3,4)] show ?thesis .
  next
    case True
    let ?c = "next_stationary st"
    from True Cons.prems(1) obtain x its1 mov1 rs1 where
      sg: "stationary_generate_instance t p its 2 ?c (movable_store st) rs = Some (Inr (x, its1, mov1, rs1))"
      and rest: "generate_room_items cls p ts (created @ [?c]) its1
          (st\<lparr>movable_store := mov1, stationary_store := (stationary_store st)(?c := x),
              next_stationary := Suc ?c\<rparr>) rs1 = Some (Inr (created', its', st', rs'))"
      by (auto split: option.splits sum.splits)
    let ?st1 = "st\<lparr>movable_store := mov1, stationary_store := (stationary_store st)(?c := x),
              next_stationary := Suc ?c\<rparr>"
    from stationary_generate_instance_symbol[OF sg Cons.prems(2)]
    have sx: "symbol (pddl_name (stationary_base x))"
      and sm: "\<forall>r. pddl_name (mov1 r) = pddl_name (movable_store st r)" by auto
    from sm Cons.prems(3) have m1: "\<forall>r. symbol (pddl_name (movable_store ?st1 r))" by simp
    from sx Cons.prems(4) have c1: "\<forall>c. symbol (pddl_name (stationary_base (stationary_store ?st1 c)))"
      by simp
    from Cons.IH[OF rest Cons.prems(2) m1 c1] show ?thesis .
  qed
qed

lemma room_generate_empty_symbol:
  assumes "room_generate_empty cls p rs = Some (ro, p', rs')" "raw_lines_ok p"
  shows "raw_lines_ok p' \<and> (case ro of None \<Rightarrow> True | Some room \<Rightarrow> symbol (room_pddl_name room))"
proof (cases cls)
  case Kitchen
  with assms show ?thesis
    by (auto simp: raw_lines_ok_def symbol_def split: if_splits)
next
  case LivingRoom
  with assms show ?thesis
    by (auto simp: raw_lines_ok_def symbol_def split: if_splits)
next
  case Bedroom
  show ?thesis
  proof (cases "bedroom_available_names p = []")
    case True
    with assms Bedroom show ?thesis by simp
  next
    case False
    with assms(1) Bedroom obtain nm xs where
      pr: "pop_random (bedroom_available_names p) rs = Some (nm, xs, rs')"
      and r: "ro = Some \<lparr>room_class = Bedroom, room_name = nm @ apostrophe @ ''s bedroom'',
                         room_pddl_name = lower nm @ ''-bedroom'', items = []\<rparr>"
        "p' = p\<lparr>bedroom_available_names := xs\<rparr>"
      by (auto split: option.splits prod.splits)
    from pop_random_member[OF pr False] assms(2) have "symbol nm" "list_all symbol xs"
      by (auto simp: raw_lines_ok_def list_all_iff)
    with symbol_lower[of nm] assms(2) r show ?thesis
      by (auto simp: raw_lines_ok_def symbol_def)
  qed
qed

lemma generate_with_description_symbol:
  assumes gw: "generate_with_description cls stypes p its st rs = Some (Inr (ro, p', its', st', rs'))"
    and raw: "raw_lines_ok p"
    and sm: "\<forall>r. symbol (pddl_name (movable_store st r))"
    and sc: "\<forall>c. symbol (pddl_name (stationary_base (stationary_store st c)))"
  shows "raw_lines_ok p'
    \<and> (\<forall>r. symbol (pddl_name (movable_store st' r)))
    \<and> (\<forall>c. symbol (pddl_name (stationary_base (stationary_store st' c))))
    \<and> (case ro of None \<Rightarrow> True | Some room \<Rightarrow> symbol (room_pddl_name room))"
proof -
  from gw obtain ro0 rs1 where re: "room_generate_empty cls p rs = Some (ro0, p', rs1)"
    by (auto simp: generate_with_description_def split: option.splits sum.splits prod.splits)
  note s0 = room_generate_empty_symbol[OF re raw]
  show ?thesis
  proof (cases ro0)
    case None
    with gw re s0 sm sc show ?thesis
      by (auto simp: generate_with_description_def)
  next
    case (Some room)
    with s0 have sr: "symbol (room_pddl_name (ident room))" by (simp add: ident_def)
    from gw re Some obtain created rs2 shuffled where
      gi: "generate_room_items cls (ident room) stypes [] its st rs1
             = Some (Inr (created, its', st', rs2))"
      and ro: "ro = Some (room\<lparr>items := items room @ shuffled\<rparr>)"
      by (auto simp: generate_with_description_def split: option.splits sum.splits prod.splits)
    from generate_room_items_symbol[OF gi sr sm sc] s0 Some ro show ?thesis by simp
  qed
qed

lemma generate_rooms_of_symbol:
  "generate_rooms_of t k cnt stypes rms p its st rs = Some (Inr (rms', p', its', st', rs')) \<Longrightarrow>
   raw_lines_ok p \<Longrightarrow>
   \<forall>r. symbol (pddl_name (movable_store st r)) \<Longrightarrow>
   \<forall>c. symbol (pddl_name (stationary_base (stationary_store st c))) \<Longrightarrow>
   \<forall>room \<in> set rms. symbol (room_pddl_name room) \<Longrightarrow>
   raw_lines_ok p'
   \<and> (\<forall>r. symbol (pddl_name (movable_store st' r)))
   \<and> (\<forall>c. symbol (pddl_name (stationary_base (stationary_store st' c))))
   \<and> (\<forall>room \<in> set rms'. symbol (room_pddl_name room))"
proof (induction t k cnt stypes rms p its st rs rule: generate_rooms_of.induct)
  case (1 t k cnt stypes rms p its st rs)
  show ?case
  proof (cases "cnt * k < MAX_ROOMS \<and> 0 < k")
    case False
    with "1.prems" show ?thesis
      by (subst (asm) generate_rooms_of.simps) auto
  next
    case True
    with "1.prems"(1) obtain ro p1 its1 st1 rs1 where
      gw: "generate_with_description t stypes p its st rs = Some (Inr (ro, p1, its1, st1, rs1))"
      by (subst (asm) generate_rooms_of.simps) (auto split: option.splits sum.splits)
    from generate_with_description_symbol[OF gw "1.prems"(2,3,4)]
    have s1: "raw_lines_ok p1" "\<forall>r. symbol (pddl_name (movable_store st1 r))"
      "\<forall>c. symbol (pddl_name (stationary_base (stationary_store st1 c)))"
      "case ro of None \<Rightarrow> True | Some room \<Rightarrow> symbol (room_pddl_name room)" by auto
    show ?thesis
    proof (cases ro)
      case None
      with "1.prems"(1,5) True gw s1 show ?thesis
        by (subst (asm) generate_rooms_of.simps) auto
    next
      case (Some room)
      with "1.prems"(1) True gw have
        rest: "generate_rooms_of t k (cnt + 1) stypes (rms @ [room]) p1 its1 st1 rs1
                 = Some (Inr (rms', p', its', st', rs'))"
        by (subst (asm) generate_rooms_of.simps) auto
      from gw Some have gw': "generate_with_description t stypes p its st rs
          = Some (Inr (Some room, p1, its1, st1, rs1))" by simp
      from s1(4) Some "1.prems"(5) have r1: "\<forall>room \<in> set (rms @ [room]). symbol (room_pddl_name room)"
        by auto
      from "1.IH"[OF True gw' refl refl refl refl refl refl rest s1(1,2,3) r1]
      show ?thesis .
    qed
  qed
qed

lemma generate_all_rooms_symbol:
  "generate_all_rooms ts k stypes rms p its st rs = Some (Inr (rms', p', its', st', rs')) \<Longrightarrow>
   raw_lines_ok p \<Longrightarrow>
   \<forall>r. symbol (pddl_name (movable_store st r)) \<Longrightarrow>
   \<forall>c. symbol (pddl_name (stationary_base (stationary_store st c))) \<Longrightarrow>
   \<forall>room \<in> set rms. symbol (room_pddl_name room) \<Longrightarrow>
   raw_lines_ok p'
   \<and> (\<forall>r. symbol (pddl_name (movable_store st' r)))
   \<and> (\<forall>c. symbol (pddl_name (stationary_base (stationary_store st' c))))
   \<and> (\<forall>room \<in> set rms'. symbol (room_pddl_name room))"
proof (induction ts arbitrary: rms p its st rs)
  case Nil
  then show ?case by simp
next
  case (Cons t ts)
  from Cons.prems(1) obtain rms1 p1 its1 st1 rs1 where
    first: "generate_rooms_of t k 0 stypes rms p its st rs = Some (Inr (rms1, p1, its1, st1, rs1))"
    and rest: "generate_all_rooms ts k stypes rms1 p1 its1 st1 rs1 = Some (Inr (rms', p', its', st', rs'))"
    by (auto split: option.splits sum.splits)
  from generate_rooms_of_symbol[OF first Cons.prems(2,3,4,5)]
  have "raw_lines_ok p1" "\<forall>r. symbol (pddl_name (movable_store st1 r))"
    "\<forall>c. symbol (pddl_name (stationary_base (stationary_store st1 c)))"
    "\<forall>room \<in> set rms1. symbol (room_pddl_name room)" by auto
  from Cons.IH[OF rest this] show ?case .
qed

text \<open>
  When the raw lines of the pools are symbols, the symbols of the generated world are
  symbols.
\<close>

lemma DatasetGenerator_init_symbols:
  assumes init: "DatasetGenerator_init reg p rs = Some (Inr (w0, p', all_items, rs'))"
    and raw: "raw_lines_ok p"
  shows "symbols_ok w0"
proof -
  from init obtain p1 created rs1 where
    ga: "generate_all_items (movable_types reg) (length (movable_types reg)) p [] rs
           = Some (p1, created, rs1)"
    by (auto simp: DatasetGenerator_init_def split: option.splits)
  let ?st0 = "\<lparr>movable_store = store_of created, stationary_store = (\<lambda>c. blank_stationary),
                 next_stationary = 0\<rparr>"
  from init ga obtain rms p2 remaining st rs2 ms rs3 rooms1 where
    gr: "generate_all_rooms (room_types reg) (length (room_types reg)) (stationary_types reg)
           [] p1 [0..<length created] ?st0 rs1 = Some (Inr (rms, p2, remaining, st, rs2))"
    and sh2: "shuffle rms rs3 = Some (rooms1, rs')"
    and w0: "w0 = \<lparr>rooms = rooms1, person = Person, movable_items = ms,
                   movables = movable_store st, stationaries = stationary_store st\<rparr>"
    by (auto simp: DatasetGenerator_init_def Let_def split: option.splits sum.splits)
  from generate_all_items_symbol[OF ga raw] have raw1: "raw_lines_ok p1"
    and cr: "\<forall>x \<in> set created. symbol (pddl_name x)" by auto
  have m0: "\<forall>r. symbol (pddl_name (movable_store ?st0 r))"
    using cr by (auto simp: store_of_def blank_movable_def MovableItem_def symbol_def)
  have c0: "\<forall>c. symbol (pddl_name (stationary_base (stationary_store ?st0 c)))"
    by (simp add: blank_stationary_def base_def symbol_def)
  have r0: "\<forall>room \<in> set ([] :: room list). symbol (room_pddl_name room)" by simp
  from generate_all_rooms_symbol[OF gr raw1 m0 c0 r0]
  have sm: "\<forall>r. symbol (pddl_name (movable_store st r))"
    and sc: "\<forall>c. symbol (pddl_name (stationary_base (stationary_store st c)))"
    and sr: "\<forall>room \<in> set rms. symbol (room_pddl_name room)" by auto
  from shuffle_set[OF sh2] sr have "\<forall>room \<in> set rooms1. symbol (room_pddl_name room)" by simp
  with sm sc show ?thesis
    unfolding w0 by (simp add: symbols_ok_def list_all_iff Person_def symbol_def)
qed

section \<open>The objects declare the symbols of the conditions\<close>

lemma symbols_ok_frame:
  assumes "frame w w'" "symbols_ok w"
  shows "symbols_ok w'"
proof -
  from assms(1) have "rooms w' = rooms w" "movable_items w' = movable_items w"
    "person_pddl_name (person w') = person_pddl_name (person w)"
    "\<And>c. stationary_base (stationaries w' c) = stationary_base (stationaries w c)"
    "\<And>r. pddl_name (movables w' r) = pddl_name (movables w r)"
    by (simp_all add: frame_def)
  with assms(2) show ?thesis by (simp add: symbols_ok_def room_items_def)
qed

lemma init_symbols_declared:
  assumes own: "ownership_inv w" and enc: "encoding_inv w" and sym: "symbols_ok w"
    and shelf: "StationaryType Shelf \<in> set (item_types reg)"
    and tv: "StationaryType TV \<in> set (item_types reg)"
    and conds: "problem_init_conditions w = Inr conds"
    and q: "q \<in> set conds" and s: "s \<in> set (referenced_symbols q)"
  shows "s \<in> set (declared_symbols (problem_objects reg w))"
proof -
  from sym have sp: "symbol (person_pddl_name (person w))"
    and sr: "\<And>room. room \<in> set (rooms w) \<Longrightarrow> symbol (room_pddl_name room)"
    and ss: "\<And>c. c \<in> set (room_items w) \<Longrightarrow> symbol (pddl_name (stationary_base (stationaries w c)))"
    and sm: "\<And>r. r \<in> set (movable_items w) \<Longrightarrow> symbol (pddl_name (movables w r))"
    by (simp_all add: symbols_ok_def list_all_iff)
  have in_room: "c \<in> set (room_items w)" if "room \<in> set (rooms w)" "c \<in> set (items room)"
    for room c using that by (auto simp: room_items_def)
  have stat: "stat_ok (ident room) (stationaries w c)"
    if "room \<in> set (rooms w)" "c \<in> set (items room)" for room c
    using enc that by (simp add: encoding_inv_def)
  have level: "get_level_name l \<in> set (declared_symbols (problem_objects reg w))"
    if "room \<in> set (rooms w)" "c \<in> set (items room)" "stationaries w c = ShelfObj sh"
      "1 \<le> l" "l \<le> levels sh" for room c sh l
  proof -
    from stat[OF that(1,2)] that(3) have "levels sh \<le> MAX_LEVELS" by (simp add: stat_ok_def)
    with that(5) have "l \<le> MAX_LEVELS" by simp
    with shelf that(4) show ?thesis by (rule declared_level)
  qed
  from q consider
      (person) "q \<in> set (Person_get_init_conditions (person w))"
    | (room) room c where "room \<in> set (rooms w)" "c \<in> set (items room)"
        "q \<in> set (stationary_get_init_conditions (stationaries w c))"
    | (movable) j cs where "j \<in> set (movable_items w)" "movable_get_init_conditions j w = Inr cs"
        "q \<in> set cs"
    unfolding problem_init_conditions_member[OF conds] by blast
  then show ?thesis
  proof cases
    case person
    then have "q = ''hand-empty'' @ CHR '' '' # person_pddl_name (person w)"
      by (auto simp: Person_get_init_conditions_def get_empty_hand_predicate_def split: if_splits)
    moreover have "symbol ''hand-empty''" by (simp add: symbol_def)
    ultimately have "split_blank q = [''hand-empty'', person_pddl_name (person w)]"
      using sp by (simp only: split_blank_append split_blank_symbol)
    with s have "s = person_pddl_name (person w)" by (simp add: referenced_symbols_def)
    with declared_person[OF sp] show ?thesis by simp
  next
    case (room room c)
    let ?x = "stationaries w c"
    from stat[OF room(1,2)] have par: "parent (stationary_base ?x) = ident room"
      and ch: "\<And>t. ?x = TVObj t \<Longrightarrow> curr_channel t \<in> set CHANNELS"
      by (auto simp: stat_ok_def)
    from par have rn: "room_pddl_name (parent (stationary_base ?x)) = room_pddl_name room"
      by (simp add: ident_def)
    from referenced_stationary[OF room(3) s _ ss[OF in_room[OF room(1,2)]] ch] rn sr[OF room(1)]
    consider "s = room_pddl_name room" | "s = pddl_name (stationary_base ?x)"
      | sh l where "?x = ShelfObj sh" "1 \<le> l" "l \<le> levels sh" "s = get_level_name l"
      | t where "?x = TVObj t" "s = channel_pddl_name (curr_channel t)"
      by auto
    then show ?thesis
    proof cases
      case 1
      with declared_room[OF room(1) sr[OF room(1)]] show ?thesis by simp
    next
      case 2
      with declared_stationary[OF room(1,2) ss[OF in_room[OF room(1,2)]]] show ?thesis by simp
    next
      case (3 sh l)
      with level[OF room(1,2) 3(1,2,3)] show ?thesis by simp
    next
      case (4 t)
      with declared_channel[OF tv ch[OF 4(1)]] show ?thesis by simp
    qed
  next
    case (movable j cs)
    let ?me = "person_pddl_name (person w)" and ?j = "pddl_name (movables w j)"
    from movable_conditions_form[OF movable(2,3)] consider
        (hand) "q = ''in-hand'' @ CHR '' '' # ?me @ CHR '' '' # ?j"
      | (contains) c where "container (movables w j) = Some c"
          "get_contains_predicate (type_of (stationaries w c))
             (pddl_name (stationary_base (stationaries w c))) ?j
             (extra_location_info (movables w j)) = Inr q"
      | (ringing) "q = ''phone-ringing'' @ CHR '' '' # ?j"
      by (auto simp: get_in_hand_predicate_def)
    then show ?thesis
    proof cases
      case hand
      have "symbol ''in-hand''" by (simp add: symbol_def)
      with hand sp sm[OF movable(1)] have "split_blank q = [''in-hand'', ?me, ?j]"
        by (simp only: split_blank_append split_blank_symbol)
      with s have "s = ?me \<or> s = ?j" by (auto simp: referenced_symbols_def)
      with declared_person[OF sp] declared_movable[OF movable(1) sm[OF movable(1)]]
      show ?thesis by auto
    next
      case ringing
      have "symbol ''phone-ringing''" by (simp add: symbol_def)
      with ringing sm[OF movable(1)] have "split_blank q = [''phone-ringing'', ?j]"
        by (simp only: split_blank_append split_blank_symbol)
      with s have "s = ?j" by (auto simp: referenced_symbols_def)
      with declared_movable[OF movable(1) sm[OF movable(1)]] show ?thesis by simp
    next
      case (contains c)
      let ?x = "stationaries w c" and ?info = "extra_location_info (movables w j)"
      from own movable(1) contains(1) have "c \<in> set (room_items w)"
        by (auto simp: ownership_inv_def ownership_def held_def in_container_def)
      then obtain room where rm: "room \<in> set (rooms w)" "c \<in> set (items room)"
        by (auto simp: room_items_def)
      from enc movable(1) contains(1) have lv: "level_ok ?x ?info"
        by (auto simp: encoding_inv_def)
      have lvl: "\<exists>sh k. ?x = ShelfObj sh \<and> 1 \<le> k \<and> k \<le> levels sh \<and> l = get_level_name k"
        if "type_of ?x = Shelf" "?info ''pddl_level'' = Some (PyStr l)" for l
      proof -
        from that(1) obtain sh where sh: "?x = ShelfObj sh" by (cases ?x) simp_all
        with lv that(2) obtain k where "k \<in> set [1..<Suc (levels sh)]" "l = get_level_name k"
          by (auto simp: level_ok_def)
        with sh show ?thesis by auto
      qed
      have sl: "symbol l" if "type_of ?x = Shelf" "?info ''pddl_level'' = Some (PyStr l)" for l
        using lvl[OF that] symbol_level_name by auto
      from referenced_contains[OF contains(2) s ss[OF in_room[OF rm]] sm[OF movable(1)] sl]
      consider "s = pddl_name (stationary_base ?x)" | "s = ?j"
        | "type_of ?x = Shelf" "?info ''pddl_level'' = Some (PyStr s)"
        by blast
      then show ?thesis
      proof cases
        case 1
        with declared_stationary[OF rm ss[OF in_room[OF rm]]] show ?thesis by simp
      next
        case 2
        with declared_movable[OF movable(1) sm[OF movable(1)]] show ?thesis by simp
      next
        case 3
        from lvl[OF 3] obtain sh k where "?x = ShelfObj sh" "1 \<le> k" "k \<le> levels sh"
          "s = get_level_name k" by blast
        with level[OF rm this(1,2,3)] show ?thesis by simp
      qed
    qed
  qed
qed


section \<open>The static objects are declared once\<close>

lemma distinct_count_list: "distinct xs \<Longrightarrow> x \<in> set xs \<Longrightarrow> count_list xs x = 1"
  by (induction xs) (auto simp: count_list_0_iff)

lemma count_static_objects:
  "distinct ts \<Longrightarrow>
   count_list (concat (map get_static_pddl_objects ts)) e
     = (if StationaryType Shelf \<in> set ts then count_list LEVEL_OBJECTS e else 0)
       + (if StationaryType TV \<in> set ts then count_list CHANNEL_OBJECTS e else 0)"
proof (induction ts)
  case Nil
  then show ?case by simp
next
  case (Cons t ts)
  then show ?case
    by (cases t rule: get_static_pddl_objects.cases) (auto simp: count_list_append)
qed

lemma static_objects_distinct: "distinct (LEVEL_OBJECTS @ CHANNEL_OBJECTS)"
  by code_simp

lemma static_once:
  assumes "distinct ts" "StationaryType Shelf \<in> set ts" "StationaryType TV \<in> set ts"
    "e \<in> set (LEVEL_OBJECTS @ CHANNEL_OBJECTS)"
  shows "count_list (concat (map get_static_pddl_objects ts)) e = 1"
proof -
  from distinct_count_list[OF static_objects_distinct assms(4)]
  have "count_list LEVEL_OBJECTS e + count_list CHANNEL_OBJECTS e = 1"
    by (simp add: count_list_append)
  with count_static_objects[OF assms(1), of e] assms(2,3) show ?thesis by simp
qed

text \<open>The last word of an entry of the objects is its type.\<close>

lemma entry_type:
  "symbol n \<Longrightarrow> symbol ty \<Longrightarrow> last (split_blank (n @ '' - '' @ ty)) = ty"
proof -
  assume n: "symbol n" and ty: "symbol ty"
  have d: "symbol ''-''" by (simp add: symbol_def)
  have "n @ '' - '' @ ty = n @ CHR '' '' # (''-'' @ CHR '' '' # ty)" by simp
  then have "split_blank (n @ '' - '' @ ty) = [n, ''-'', ty]"
    using n ty d by (simp only: split_blank_append split_blank_symbol)
  then show ?thesis by simp
qed

lemma static_entry_type:
  assumes "e \<in> set (LEVEL_OBJECTS @ CHANNEL_OBJECTS)"
  shows "last (split_blank e) = ''level'' \<or> last (split_blank e) = ''channel''"
proof -
  have l: "symbol ''level''" and c: "symbol ''channel''" by (simp_all add: symbol_def)
  from assms consider i where "e = get_level_name (i + 1) @ '' - '' @ ''level''"
    | ch where "ch \<in> set CHANNELS" "e = channel_pddl_name ch @ '' - '' @ ''channel''"
    by (auto simp: LEVEL_OBJECTS_def CHANNEL_OBJECTS_def)
  then show ?thesis
  proof cases
    case (1 i)
    with entry_type[OF symbol_level_name l, of "i + 1"] show ?thesis by simp
  next
    case (2 ch)
    with entry_type[OF symbol_channels[OF 2(1)] c] show ?thesis by simp
  qed
qed

lemma symbol_room_type_name:
  "symbol (room_type_name rc) \<and> room_type_name rc \<noteq> ''level'' \<and> room_type_name rc \<noteq> ''channel''"
  by (cases rc) (simp_all add: symbol_def)

lemma symbol_stationary_type_name:
  "symbol (stationary_type_name sc) \<and> stationary_type_name sc \<noteq> ''level''
     \<and> stationary_type_name sc \<noteq> ''channel''"
  by (cases sc) (simp_all add: symbol_def)

lemma symbol_movable_type_name:
  "symbol (movable_type_name mc) \<and> movable_type_name mc \<noteq> ''level''
     \<and> movable_type_name mc \<noteq> ''channel''"
  by (cases mc) (simp_all add: symbol_def)

lemma dynamic_entry_type:
  assumes sym: "symbols_ok w"
    and e: "e \<in> set (Person_get_pddl_objects (person w)
              @ concat (map (\<lambda>room. Room_get_pddl_objects room w) (rooms w))
              @ concat (map (\<lambda>i. movable_get_pddl_objects (movables w i)) (movable_items w)))"
  shows "last (split_blank e) \<noteq> ''level'' \<and> last (split_blank e) \<noteq> ''channel''"
proof -
  from sym have sp: "symbol (person_pddl_name (person w))"
    and sr: "\<And>room. room \<in> set (rooms w) \<Longrightarrow> symbol (room_pddl_name room)"
    and ss: "\<And>c. c \<in> set (room_items w) \<Longrightarrow> symbol (pddl_name (stationary_base (stationaries w c)))"
    and sm: "\<And>r. r \<in> set (movable_items w) \<Longrightarrow> symbol (pddl_name (movables w r))"
    by (simp_all add: symbols_ok_def list_all_iff)
  from e consider
      (person) "e = person_pddl_name (person w) @ '' - '' @ ''person''"
    | (room) room where "room \<in> set (rooms w)"
        "e = room_pddl_name room @ '' - '' @ room_type_name (room_class room)"
    | (stationary) room c where "room \<in> set (rooms w)" "c \<in> set (items room)"
        "e = pddl_name (stationary_base (stationaries w c)) @ '' - ''
             @ stationary_type_name (type_of (stationaries w c))"
    | (movable) j where "j \<in> set (movable_items w)"
        "e = pddl_name (movables w j) @ '' - '' @ movable_type_name (movable_class (movables w j))"
    by (auto simp: Person_get_pddl_objects_def Room_get_pddl_objects_def
        stationary_get_pddl_objects_def movable_get_pddl_objects_def)
  then show ?thesis
  proof cases
    case person
    have "symbol ''person''" by (simp add: symbol_def)
    from entry_type[OF sp this] person show ?thesis by simp
  next
    case (room room)
    from entry_type[OF sr[OF room(1)], of "room_type_name (room_class room)"] room(2)
      symbol_room_type_name[of "room_class room"]
    show ?thesis by simp
  next
    case (stationary room c)
    then have "c \<in> set (room_items w)" by (auto simp: room_items_def)
    from entry_type[OF ss[OF this], of "stationary_type_name (type_of (stationaries w c))"]
      stationary(3) symbol_stationary_type_name[of "type_of (stationaries w c)"]
    show ?thesis by simp
  next
    case (movable j)
    from entry_type[OF sm[OF movable(1)], of "movable_type_name (movable_class (movables w j))"]
      movable(2) symbol_movable_type_name[of "movable_class (movables w j)"]
    show ?thesis by simp
  qed
qed

lemma static_objects_once:
  assumes sym: "symbols_ok w" and d: "distinct (item_types reg)"
    and shelf: "StationaryType Shelf \<in> set (item_types reg)"
    and tv: "StationaryType TV \<in> set (item_types reg)"
    and e: "e \<in> set (LEVEL_OBJECTS @ CHANNEL_OBJECTS)"
  shows "count_list (problem_objects reg w) e = 1"
proof -
  let ?dyn = "Person_get_pddl_objects (person w)
              @ concat (map (\<lambda>room. Room_get_pddl_objects room w) (rooms w))
              @ concat (map (\<lambda>i. movable_get_pddl_objects (movables w i)) (movable_items w))"
  have po: "problem_objects reg w = ?dyn @ concat (map get_static_pddl_objects (item_types reg))"
    by (simp add: problem_objects_def)
  from static_entry_type[OF e] dynamic_entry_type[OF sym, of e] have "e \<notin> set ?dyn" by blast
  then have "count_list ?dyn e = 0" by (rule count_notin)
  with static_once[OF d shelf tv e] show ?thesis
    unfolding po by (simp only: count_list_append)
qed



text \<open>
  The raw lines are the only cause. Let a world be generated from pools in which no pen
  colour, no name of a phone owner and no name of a bedroom contains a blank, and let the
  registry hold every concrete class once, Shelf and TV among them (as
  \<open>get_concrete_subtypes\<close> gives it). Then in every world of the timeline (the
  generated world and the world after each state change) the conditions of \<open>:init\<close> are
  generated without an error, every symbol that a condition refers to is declared by an
  entry of \<open>:objects\<close>, the symbols of the shelf levels and of the TV channels included, and
  every entry of a shelf level or of a TV channel is in \<open>:objects\<close> exactly once, whatever
  the number of shelves and TVs.
\<close>

theorem objects_declare_init_symbols:
  assumes init: "DatasetGenerator_init reg p rs = Some (Inr (w0, p', all_items, rs'))"
    and tl: "timeline w0 w"
    and raw: "raw_lines_ok p"
    and reg: "distinct (item_types reg)" "StationaryType Shelf \<in> set (item_types reg)"
      "StationaryType TV \<in> set (item_types reg)"
  shows "\<exists>conds. problem_init_conditions w = Inr conds
    \<and> (\<forall>q \<in> set conds. set (referenced_symbols q)
           \<subseteq> set (declared_symbols (problem_objects reg w)))
    \<and> (\<forall>e \<in> set (LEVEL_OBJECTS @ CHANNEL_OBJECTS). count_list (problem_objects reg w) e = 1)"
proof -
  from DatasetGenerator_init_inv[OF init] have own0: "ownership_inv w0" and enc0: "encoding_inv w0"
    by blast+
  from DatasetGenerator_init_symbols[OF init raw] have sym: "symbols_ok w0" .
  from timeline_ownership[OF tl own0] have own: "ownership_inv w" and fr: "frame w0 w" by blast+
  from timeline_encoding_inv[OF tl enc0] have enc: "encoding_inv w" .
  from symbols_ok_frame[OF fr sym] have sym': "symbols_ok w" .
  from problem_init_conditions_ok[OF own enc] obtain conds where
    conds: "problem_init_conditions w = Inr conds" by blast
  have "\<forall>q \<in> set conds. set (referenced_symbols q)
           \<subseteq> set (declared_symbols (problem_objects reg w))"
    using init_symbols_declared[OF own enc sym' reg(2,3) conds] by blast
  moreover have "\<forall>e \<in> set (LEVEL_OBJECTS @ CHANNEL_OBJECTS).
      count_list (problem_objects reg w) e = 1"
    using static_objects_once[OF sym' reg] by blast
  ultimately show ?thesis using conds by blast
qed

theorem objects_declare_init_symbols_witness:
  "\<exists>w0 p' all_items rs' a w rs'' conds.
     DatasetGenerator_init example_registry example_pools example_draws
       = Some (Inr (w0, p', all_items, rs'))
     \<and> generate_state_change w0 rs' = Some (Inr (a, w, rs''))
     \<and> timeline w0 w \<and> raw_lines_ok example_pools
     \<and> distinct (item_types example_registry)
     \<and> StationaryType Shelf \<in> set (item_types example_registry)
     \<and> StationaryType TV \<in> set (item_types example_registry)
     \<and> problem_init_conditions w = Inr conds \<and> conds \<noteq> []
     \<and> set (referenced_symbols (hd conds))
          \<subseteq> set (declared_symbols (problem_objects example_registry w))
     \<and> count_list (problem_objects example_registry w) (hd LEVEL_OBJECTS) = 1"
proof -
  have ev: "(case DatasetGenerator_init example_registry example_pools example_draws of
           Some (Inr (w0, p', all_items, rs')) \<Rightarrow>
             (case generate_state_change w0 rs' of
                Some (Inr (a, w, rs'')) \<Rightarrow>
                  (case problem_init_conditions w of Inr conds \<Rightarrow> conds \<noteq> [] | _ \<Rightarrow> False)
              | _ \<Rightarrow> False)
         | _ \<Rightarrow> False)"
    by code_simp
  then obtain x where init': "DatasetGenerator_init example_registry example_pools example_draws
             = Some (Inr x)"
    by (auto split: option.splits sum.splits)
  obtain w0 p' all_items rs' where x: "x = (w0, p', all_items, rs')" by (cases x)
  from init' x have init: "DatasetGenerator_init example_registry example_pools example_draws
             = Some (Inr (w0, p', all_items, rs'))" by simp
  with ev have ev2: "(case generate_state_change w0 rs' of
                Some (Inr (a, w, rs'')) \<Rightarrow>
                  (case problem_init_conditions w of Inr conds \<Rightarrow> conds \<noteq> [] | _ \<Rightarrow> False)
              | _ \<Rightarrow> False)"
    by simp
  from ev2 obtain y where step': "generate_state_change w0 rs' = Some (Inr y)"
    by (auto split: option.splits sum.splits)
  obtain a w rs'' where y: "y = (a, w, rs'')" by (cases y)
  from step' y have step: "generate_state_change w0 rs' = Some (Inr (a, w, rs''))" by simp
  with ev2 have ev3: "(case problem_init_conditions w of Inr conds \<Rightarrow> conds \<noteq> [] | _ \<Rightarrow> False)"
    by simp
  have tl: "timeline w0 w"
    by (rule timeline.change[OF timeline.start step])
  have raw: "raw_lines_ok example_pools" by code_simp
  have r1: "distinct (item_types example_registry)" by code_simp
  have r2: "StationaryType Shelf \<in> set (item_types example_registry)" by code_simp
  have r3: "StationaryType TV \<in> set (item_types example_registry)" by code_simp
  have lv: "hd LEVEL_OBJECTS \<in> set (LEVEL_OBJECTS @ CHANNEL_OBJECTS)" by code_simp
  from objects_declare_init_symbols[OF init tl raw r1 r2 r3] obtain conds where
    c: "problem_init_conditions w = Inr conds"
    and sub: "\<forall>q \<in> set conds. set (referenced_symbols q)
           \<subseteq> set (declared_symbols (problem_objects example_registry w))"
    and once: "\<forall>e \<in> set (LEVEL_OBJECTS @ CHANNEL_OBJECTS).
           count_list (problem_objects example_registry w) e = 1"
    by blast
  from c ev3 have ne: "conds \<noteq> []" by simp
  then have "hd conds \<in> set conds" by simp
  with sub have s1: "set (referenced_symbols (hd conds))
          \<subseteq> set (declared_symbols (problem_objects example_registry w))" by blast
  from once lv have s2: "count_list (problem_objects example_registry w) (hd LEVEL_OBJECTS) = 1"
    by blast
  from init step tl raw r1 r2 r3 c ne s1 s2 show ?thesis by blast
qed


end
